(* ===== verification/Go_Prelude.thy ===== *)
theory Go_Prelude
  imports
    Main
    "HOL-Library.Word"
    "HOL-Library.List_Lexorder"
    "HOL-Library.AList"
    "HOL-Library.Multiset"
begin

unbundle bit_operations_syntax

text \<open>
  Shared ground of the development: the Go types the program uses and the few language and
  standard-library operations several components need.
  \<^item> A byte is an \<open>8 word\<close>; a byte slice and a Go string (which is a sequence of bytes) are
    both a list of bytes; a string literal of the source is written \<open>gostr ''...''\<close>.
  \<^item> Go's \<open>int\<close> and \<open>int64\<close> are 64-bit two's complement: they are modelled by \<open>int\<close>, and
    \<open>wrap64\<close> is applied where the source's arithmetic can leave the range.
  \<^item> The fixed-width unsigned integers are words, so that their arithmetic wraps by itself.
  \<^item> \<open>slice a b\<close> is \<open>data[a:b]\<close> with \<open>a \<le> b \<le> len(data)\<close>; every use in the model is guarded by
    the length check of the source.
  \<^item> The \<open>encoding/binary\<close> big-endian accessors, the \<open>strconv\<close> decimal conversions and the
    map operations with a sorted association list as the canonical form of a
    \<open>map[string]any\<close>.
  The collections \<open>be_simps\<close> (byte order), \<open>i64_simps\<close> (ranges) and \<open>dict_simps\<close> (maps) carry
  the facts the component theories hand to the simplifier.
\<close>

named_theorems be_simps
named_theorems i64_simps
named_theorems dict_simps

text \<open>Lookups in association lists stay lookups: the components reason by \<open>map_of\<close>.\<close>

declare map_of_eq_Some_iff [simp del]

section \<open>Bytes, strings, slices\<close>

type_synonym byte = "8 word"
type_synonym bytes = "byte list"

definition gostr :: "string \<Rightarrow> bytes" where
  "gostr s = map of_char s"

definition slice :: "nat \<Rightarrow> nat \<Rightarrow> 'a list \<Rightarrow> 'a list" where
  "slice a b xs = take (b - a) (drop a xs)"

lemma length_gostr [simp]: "length (gostr s) = length s"
  by (simp add: gostr_def)

lemma of_char_byte_inj: "(of_char c :: byte) = of_char d \<longleftrightarrow> c = d"
proof
  assume "(of_char c :: byte) = of_char d"
  then have "(of_nat (of_char c) :: byte) = of_nat (of_char d)" by (simp only: of_nat_of_char)
  then have "(of_char c :: nat) mod 256 = of_char d mod 256"
    by (simp add: word_unat_eq_iff unat_of_nat)
  then show "c = d" by (simp add: of_char_mod_256)
qed simp

lemma gostr_eq_iff [simp]: "gostr s = gostr t \<longleftrightarrow> s = t"
  unfolding gostr_def using inj_map_eq_map [of "of_char :: char \<Rightarrow> byte" s t]
  by (simp add: inj_def of_char_byte_inj)
lemma length_slice [simp]: "b \<le> length xs \<Longrightarrow> length (slice a b xs) = b - a"
  by (simp add: slice_def)

lemma slice_append_left [simp]: "b \<le> length xs \<Longrightarrow> slice a b (xs @ ys) = slice a b xs"
  by (cases "a \<le> b") (simp_all add: slice_def)

lemma slice_append_skip [simp]: "length xs = a \<Longrightarrow> slice a b (xs @ ys) = take (b - a) ys"
  by (simp add: slice_def)

lemma slice_append_right:
  "length xs \<le> a \<Longrightarrow> slice a b (xs @ ys) = slice (a - length xs) (b - length xs) ys"
  by (simp add: slice_def)

lemma slice_full [simp]: "slice 0 (length xs) xs = xs"
  by (simp add: slice_def)

text \<open>Splitting a list into records of a fixed width, the shape of every compact format.\<close>

fun chunks :: "nat \<Rightarrow> nat \<Rightarrow> 'a list \<Rightarrow> 'a list list" where
  "chunks w 0 xs = []"
| "chunks w (Suc n) xs = take w xs # chunks w n (drop w xs)"

lemma length_chunks [simp]: "length (chunks w n xs) = n"
  by (induction n arbitrary: xs) auto

lemma chunks_concat:
  "(\<And>x. x \<in> set xss \<Longrightarrow> length x = w) \<Longrightarrow> chunks w (length xss) (concat xss) = xss"
  by (induction xss) auto

lemma length_concat_const: "\<forall>x\<in>set xss. length x = w \<Longrightarrow> length (concat xss) = w * length xss"
  by (induction xss) auto

lemma concat_chunks: "length xs = n * w \<Longrightarrow> concat (chunks w n xs) = xs"
  by (induction n arbitrary: xs) auto

lemma length_chunk: "length xs = n * w \<Longrightarrow> x \<in> set (chunks w n xs) \<Longrightarrow> length x = w"
proof (induction n arbitrary: xs)
  case (Suc n)
  then show ?case using Suc.IH [of "drop w xs"] by auto
qed simp

lemma nth_chunks: "i < n \<Longrightarrow> chunks w n xs ! i = take w (drop (i * w) xs)"
  by (induction n arbitrary: xs i) (auto simp: nth_Cons' algebra_simps less_Suc_eq_0_disj)

section \<open>64-bit signed arithmetic\<close>

definition max_int64 :: int where "max_int64 = 9223372036854775807"
definition min_int64 :: int where "min_int64 = - 9223372036854775808"

definition in_int64 :: "int \<Rightarrow> bool" where
  "in_int64 x \<longleftrightarrow> min_int64 \<le> x \<and> x \<le> max_int64"

definition wrap64 :: "int \<Rightarrow> int" where
  "wrap64 x = (x + 9223372036854775808) mod 18446744073709551616 - 9223372036854775808"

lemma wrap64_id [i64_simps]: "in_int64 x \<Longrightarrow> wrap64 x = x"
  by (simp add: in_int64_def wrap64_def max_int64_def min_int64_def)

lemma in_int64_wrap64 [simp]: "in_int64 (wrap64 x)"
proof -
  have "0 \<le> (x + 9223372036854775808) mod 18446744073709551616"
    "(x + 9223372036854775808) mod 18446744073709551616 < 18446744073709551616"
    by simp_all
  then show ?thesis
    unfolding wrap64_def in_int64_def max_int64_def min_int64_def by linarith
qed

lemma wrap64_wrap64 [simp]: "wrap64 (wrap64 x) = wrap64 x"
  by (simp add: wrap64_id)

lemma wrap64_add_left: "wrap64 (wrap64 x + y) = wrap64 (x + y)"
proof -
  have "(wrap64 x + y + 9223372036854775808) mod 18446744073709551616
      = ((x + 9223372036854775808) mod 18446744073709551616 + y) mod 18446744073709551616"
    unfolding wrap64_def by (simp add: algebra_simps)
  then show ?thesis
    unfolding wrap64_def [of "wrap64 x + y"] wrap64_def [of "x + y"]
    by (simp add: mod_add_left_eq add.assoc add.commute [of y])
qed

text \<open>Integer division, which truncates towards zero.\<close>

definition go_div :: "int \<Rightarrow> int \<Rightarrow> int" where
  "go_div a b = sgn a * sgn b * (\<bar>a\<bar> div \<bar>b\<bar>)"

lemma go_div_nonneg [simp]: "0 \<le> a \<Longrightarrow> 0 < b \<Longrightarrow> go_div a b = a div b"
  by (cases "a = 0") (simp_all add: go_div_def)

lemma wrap64_range: "0 \<le> x \<Longrightarrow> x \<le> max_int64 \<Longrightarrow> wrap64 x = x"
  by (simp add: wrap64_id in_int64_def min_int64_def)

section \<open>Big-endian integers (\<open>encoding/binary\<close>)\<close>

definition PutUint16 :: "16 word \<Rightarrow> bytes" where
  "PutUint16 v = [ucast (drop_bit 8 v), ucast v]"

definition PutUint32 :: "32 word \<Rightarrow> bytes" where
  "PutUint32 v = [ucast (drop_bit 24 v), ucast (drop_bit 16 v), ucast (drop_bit 8 v), ucast v]"

definition PutUint64 :: "64 word \<Rightarrow> bytes" where
  "PutUint64 v = [ucast (drop_bit 56 v), ucast (drop_bit 48 v), ucast (drop_bit 40 v),
     ucast (drop_bit 32 v), ucast (drop_bit 24 v), ucast (drop_bit 16 v),
     ucast (drop_bit 8 v), ucast v]"

definition Uint16 :: "bytes \<Rightarrow> 16 word" where
  "Uint16 b = ucast (b ! 1) OR push_bit 8 (ucast (b ! 0))"

definition Uint32 :: "bytes \<Rightarrow> 32 word" where
  "Uint32 b = ucast (b ! 3) OR push_bit 8 (ucast (b ! 2)) OR push_bit 16 (ucast (b ! 1))
     OR push_bit 24 (ucast (b ! 0))"

definition Uint64 :: "bytes \<Rightarrow> 64 word" where
  "Uint64 b = ucast (b ! 7) OR push_bit 8 (ucast (b ! 6)) OR push_bit 16 (ucast (b ! 5))
     OR push_bit 24 (ucast (b ! 4)) OR push_bit 32 (ucast (b ! 3)) OR push_bit 40 (ucast (b ! 2))
     OR push_bit 48 (ucast (b ! 1)) OR push_bit 56 (ucast (b ! 0))"

lemma length_PutUint [simp]:
  "length (PutUint16 v) = 2" "length (PutUint32 w) = 4" "length (PutUint64 x) = 8"
  by (simp_all add: PutUint16_def PutUint32_def PutUint64_def)

text \<open>One byte lane of a word: what \<open>byte(v >> k) << k\<close> keeps of \<open>v\<close>.\<close>

lemma bit_byte_lane:
  "k + 8 \<le> LENGTH('a) \<Longrightarrow>
   bit (push_bit k (ucast (ucast (drop_bit k v) :: byte)) :: 'a::len word) n
     \<longleftrightarrow> k \<le> n \<and> n < k + 8 \<and> bit (v :: 'a word) n"
  by (auto simp: bit_simps dest: bit_imp_le_length)

lemma bit_byte_lane0:
  "8 \<le> LENGTH('a) \<Longrightarrow>
   bit (ucast (ucast v :: byte) :: 'a::len word) n \<longleftrightarrow> n < 8 \<and> bit (v :: 'a word) n"
  by (auto simp: bit_simps dest: bit_imp_le_length)

lemma Uint16_Put [simp, be_simps]: "Uint16 (PutUint16 v) = v"
  unfolding Uint16_def PutUint16_def
  by (rule bit_word_eqI) (auto simp: bit_simps)

lemma Uint32_Put [simp, be_simps]: "Uint32 (PutUint32 v) = v"
proof (rule bit_word_eqI)
  fix n assume "n < LENGTH(32)"
  then show "bit (Uint32 (PutUint32 v)) n = bit v n"
    by (simp add: Uint32_def PutUint32_def bit_or_iff bit_byte_lane bit_byte_lane0
        del: bit_push_bit_iff bit_ucast_iff) linarith
qed

lemma Uint64_Put [simp, be_simps]: "Uint64 (PutUint64 v) = v"
proof (rule bit_word_eqI)
  fix n assume "n < LENGTH(64)"
  then show "bit (Uint64 (PutUint64 v)) n = bit v n"
    by (simp add: Uint64_def PutUint64_def bit_or_iff bit_byte_lane bit_byte_lane0
        del: bit_push_bit_iff bit_ucast_iff) linarith
qed

lemma length_4E:
  assumes "length (b :: 'a list) = 4"
  obtains b0 b1 b2 b3 where "b = [b0, b1, b2, b3]"
  using assms by (auto simp: numeral_eq_Suc length_Suc_conv)

lemma bit_byte_high: "8 \<le> n \<Longrightarrow> \<not> bit (b :: byte) n"
  by (auto dest: bit_imp_le_length)

lemma Put_Uint16 [be_simps]: "length b = 2 \<Longrightarrow> PutUint16 (Uint16 b) = b"
  by (auto simp: numeral_2_eq_2 length_Suc_conv PutUint16_def Uint16_def bit_simps bit_byte_high
      intro!: bit_word_eqI)

lemma Put_Uint32 [be_simps]:
  assumes "length b = 4"
  shows "PutUint32 (Uint32 b) = b"
proof -
  obtain b0 b1 b2 b3 where b: "b = [b0, b1, b2, b3]" using assms by (rule length_4E)
  show ?thesis
    by (auto simp: b PutUint32_def Uint32_def bit_simps bit_byte_high intro!: bit_word_eqI)
qed

lemma slice_PutUint32 [simp]:
  "slice 0 4 (PutUint32 a @ r) = PutUint32 a"
  "slice 4 8 (PutUint32 a @ r) = take 4 r"
  "slice 8 12 (PutUint32 a @ r) = slice 4 8 r"
  by (simp_all add: slice_def)

end
