(* ===== verification/Go_Map.thy ===== *)
theory Go_Map
  imports Go_Prelude
begin

text \<open>
  Go maps whose iteration matters. A \<open>map[K]V\<close> is an association list with distinct keys, read
  by \<open>map_of\<close> and changed by \<open>AList.update\<close> and \<open>AList.delete\<close>; a \<open>map[K]bool\<close> that only
  holds \<open>true\<close> is the list of its keys.

  The iteration order of \<open>range\<close> over a map is unspecified. It is modelled by sorting the keys
  with an arbitrary ranking \<open>\<omega>\<close>: every order of distinct keys is the order of some ranking, so
  a statement for all \<open>\<omega>\<close> is one for every order. In the same way the random source is an
  arbitrary function \<open>src\<close> and \<open>rand.IntN(n)\<close> is its value reduced below \<open>n\<close>.
\<close>

definition range_order :: "('k \<Rightarrow> nat) \<Rightarrow> 'k list \<Rightarrow> 'k list" where
  "range_order \<omega> ks = sort_key \<omega> ks"

definition IntN :: "(nat \<Rightarrow> nat) \<Rightarrow> nat \<Rightarrow> nat" where
  "IntN src n = src n mod n"

lemma set_range_order [simp]: "set (range_order \<omega> ks) = set ks"
  by (simp add: range_order_def)

lemma distinct_range_order [simp]: "distinct (range_order \<omega> ks) = distinct ks"
  by (simp add: range_order_def)

lemma mset_range_order [simp]: "mset (range_order \<omega> ks) = mset ks"
  by (simp add: range_order_def)

lemma length_range_order [simp]: "length (range_order \<omega> ks) = length ks"
  by (simp add: range_order_def)

lemma range_order_Nil [simp]: "range_order \<omega> [] = []"
  by (simp add: range_order_def)

lemma IntN_less: "0 < n \<Longrightarrow> IntN src n < n"
  by (simp add: IntN_def)

lemma IntN_1 [simp]: "IntN src 1 = 0" "IntN src (Suc 0) = 0"
  by (simp_all add: IntN_def)

text \<open>Every order of distinct keys is the order of some ranking.\<close>

lemma range_order_any:
  assumes "distinct xs" "mset xs = mset ks"
  shows "\<exists>\<omega>. range_order \<omega> ks = xs"
proof
  let ?\<omega> = "\<lambda>k. THE i. i < length xs \<and> xs ! i = k"
  have rank: "?\<omega> (xs ! i) = i" if "i < length xs" for i
    using that assms(1) by (auto simp: nth_eq_iff_index_eq)
  have "map ?\<omega> xs = [0..<length xs]"
    by (rule nth_equalityI) (simp_all add: rank)
  then have "sorted (map ?\<omega> xs)" "inj_on ?\<omega> (set xs)"
    by (simp_all, metis distinct_map distinct_upt)
  then show "range_order ?\<omega> ks = xs"
    unfolding range_order_def
    using assms(2) properties_for_sort_key [of xs ks ?\<omega>]
    by (metis (mono_tags, lifting) filter_cong inj_onD mset_eq_setD sort_key_inj_key_eq)
qed

text \<open>Lookup with Go's zero value for an absent key.\<close>

definition mget :: "'v \<Rightarrow> ('k \<times> 'v) list \<Rightarrow> 'k \<Rightarrow> 'v" where
  "mget z m k = (case map_of m k of None \<Rightarrow> z | Some v \<Rightarrow> v)"

lemma mget_update [simp]:
  "mget z (AList.update k v m) k' = (if k' = k then v else mget z m k')"
  by (simp add: mget_def update_conv')

lemma mget_delete [simp]:
  "mget z (AList.delete k m) k' = (if k' = k then z else mget z m k')"
  by (simp add: mget_def delete_conv')

lemma mget_Nil [simp]: "mget z [] k = z"
  by (simp add: mget_def)

lemma map_of_delete [simp]:
  "map_of (AList.delete k m) k' = (if k' = k then None else map_of m k')"
  by (simp add: delete_conv')

lemma map_of_update [simp]:
  "map_of (AList.update k v m) k' = (if k' = k then Some v else map_of m k')"
  by (simp add: update_conv')

lemma keys_update [simp]: "fst ` set (AList.update k v m) = insert k (fst ` set m)"
  by (induction m) auto

lemma keys_delete [simp]: "fst ` set (AList.delete k m) = fst ` set m - {k}"
  by (simp only: AList.delete_keys set_removeAll flip: set_map)

end
