(* ===== verification/Go_Io.thy ===== *)
theory Go_Io
  imports Go_Prelude
begin

text \<open>
  Byte streams. An \<open>io.Reader\<close> is the list of bytes that are still to come, a read returns
  what is left, and \<open>io.ReadFull\<close> fails with \<open>EOF\<close> on an exhausted stream and with
  \<open>ErrUnexpectedEOF\<close> on one that ends early. Writers return the bytes they write.

  The locale \<open>codec\<close> is the contract every framed format of the program meets: what was written
  can be read back and the rest of the stream is left alone. \<open>canonical_codec\<close> is the stronger
  contract of a format with one encoding per value. Their consequences (streams of several
  values, unique decoding, no value read from a cut-off encoding) are proved here once.
\<close>

datatype ioerror = EOF | ErrUnexpectedEOF

definition ReadFull :: "bytes \<Rightarrow> nat \<Rightarrow> ioerror + bytes \<times> bytes" where
  "ReadFull r n =
     (if n \<le> length r then Inr (take n r, drop n r)
      else if r = [] then Inl EOF else Inl ErrUnexpectedEOF)"

lemma ReadFull_append [simp]: "length b = n \<Longrightarrow> ReadFull (b @ r) n = Inr (b, r)"
  by (auto simp: ReadFull_def)

lemma ReadFull_Inr:
  "ReadFull r n = Inr (b, r') \<longleftrightarrow> r = b @ r' \<and> length b = n"
  by (auto simp: ReadFull_def)

text \<open>Reading several values in a row with one reading function.\<close>

fun read_seq :: "(bytes \<Rightarrow> 'e + 'a \<times> bytes) \<Rightarrow> nat \<Rightarrow> bytes \<Rightarrow> 'e + 'a list \<times> bytes" where
  "read_seq rd 0 s = Inr ([], s)"
| "read_seq rd (Suc n) s =
     (case rd s of
        Inl e \<Rightarrow> Inl e
      | Inr (x, s') \<Rightarrow>
          (case read_seq rd n s' of Inl e \<Rightarrow> Inl e | Inr (xs, s'') \<Rightarrow> Inr (x # xs, s'')))"

locale codec =
  fixes emit :: "'a \<Rightarrow> bytes"
    and read :: "bytes \<Rightarrow> 'e + 'a \<times> bytes"
    and ok :: "'a \<Rightarrow> bool"
  assumes read_write: "ok x \<Longrightarrow> read (emit x @ s) = Inr (x, s)"
begin

lemma read_seq_write:
  "\<forall>x\<in>set xs. ok x \<Longrightarrow> read_seq read (length xs) (concat (map emit xs) @ s) = Inr (xs, s)"
  by (induction xs) (simp_all add: read_write)

lemma unique_decoding:
  "ok x \<Longrightarrow> ok y \<Longrightarrow> emit x @ s = emit y @ t \<Longrightarrow> x = y \<and> s = t"
  by (metis read_write prod.inject sum.inject(2))

lemma write_inj: "inj_on emit {x. ok x}"
  using unique_decoding [of _ _ "[]" "[]"] by (auto simp: inj_on_def)

lemma write_seq_inj:
  assumes "\<forall>x\<in>set xs. ok x" "\<forall>y\<in>set ys. ok y" "length xs = length ys"
    and "concat (map emit xs) = concat (map emit ys)"
  shows "xs = ys"
  using read_seq_write [OF assms(1), of "[]"] read_seq_write [OF assms(2), of "[]"] assms(3,4)
  by simp

end

locale canonical_codec = codec +
  assumes read_canonical: "read s = Inr (x, r) \<Longrightarrow> ok x \<and> s = emit x @ r"
begin

lemma read_iff: "read s = Inr (x, r) \<longleftrightarrow> ok x \<and> s = emit x @ r"
  using read_write read_canonical by blast

lemma read_truncated:
  assumes "ok x" "k < length (emit x)"
  shows "\<exists>e. read (take k (emit x)) = Inl e"
proof (cases "read (take k (emit x))")
  case (Inr p)
  obtain y r where "p = (y, r)" by (cases p)
  with Inr have y: "ok y" "take k (emit x) = emit y @ r"
    using read_canonical by auto
  then have "emit x = emit y @ r @ drop k (emit x)"
    by (metis append.assoc append_take_drop_id)
  then have "r @ drop k (emit x) = []"
    using unique_decoding [of x y "[]"] assms(1) y(1) by (metis append_Nil2)
  with assms(2) show ?thesis by simp
qed blast

lemma read_seq_canonical:
  "read_seq read n s = Inr (xs, r) \<Longrightarrow>
     length xs = n \<and> (\<forall>x\<in>set xs. ok x) \<and> s = concat (map emit xs) @ r"
proof (induction n arbitrary: s xs)
  case (Suc n)
  obtain x s' ys where x: "read s = Inr (x, s')" and ys: "read_seq read n s' = Inr (ys, r)"
    and xs: "xs = x # ys"
    using Suc.prems by (auto split: sum.splits)
  show ?case using Suc.IH [OF ys] read_canonical [OF x] by (simp add: xs)
qed simp

end

end
