(* ===== verification/Peer_Wire.thy ===== *)
theory Peer_Wire
  imports Go_Io
begin

text \<open>
  The peer wire protocol of \<^verbatim>\<open>src/peer/message.go\<close> and \<^verbatim>\<open>src/peer/handshake.go\<close>: length-prefixed
  messages, the constructors and parsers of their payloads, the piece bitfield and the 68-byte
  handshake. A keep-alive, which \<open>ReadMessage\<close> returns as a nil message, is \<open>None\<close>.
\<close>

section \<open>Messages\<close>

definition MsgChoke :: byte where "MsgChoke = 0"
definition MsgUnchoke :: byte where "MsgUnchoke = 1"
definition MsgInterested :: byte where "MsgInterested = 2"
definition MsgNotInterested :: byte where "MsgNotInterested = 3"
definition MsgHave :: byte where "MsgHave = 4"
definition MsgBitfield :: byte where "MsgBitfield = 5"
definition MsgRequest :: byte where "MsgRequest = 6"
definition MsgPiece :: byte where "MsgPiece = 7"
definition MsgCancel :: byte where "MsgCancel = 8"
definition MsgSuggest :: byte where "MsgSuggest = 13"
definition MsgHaveAll :: byte where "MsgHaveAll = 14"
definition MsgHaveNone :: byte where "MsgHaveNone = 15"
definition MsgReject :: byte where "MsgReject = 16"
definition MsgAllowedFast :: byte where "MsgAllowedFast = 17"

lemmas msg_ids = MsgChoke_def MsgUnchoke_def MsgInterested_def MsgNotInterested_def MsgHave_def
  MsgBitfield_def MsgRequest_def MsgPiece_def MsgCancel_def MsgSuggest_def MsgHaveAll_def
  MsgHaveNone_def MsgReject_def MsgAllowedFast_def

record Message =
  ID :: byte
  Payload :: bytes

datatype perror =
    ReadErr ioerror
  | MessageTooLarge
  | PayloadTooShort
  | BadPayloadLength
  | UnexpectedPstrlen
  | UnexpectedProtocol

definition ReadMessage :: "bytes \<Rightarrow> perror + Message option \<times> bytes" where
  "ReadMessage r =
     (case ReadFull r 4 of
        Inl e \<Rightarrow> Inl (ReadErr e)
      | Inr (lenBuf, r1) \<Rightarrow>
          (let len = Uint32 lenBuf
           in if len = 0 then Inr (None, r1)
              else if len > 4 * 1024 * 1024 then Inl MessageTooLarge
              else (case ReadFull r1 (unat len) of
                      Inl e \<Rightarrow> Inl (ReadErr e)
                    | Inr (buf, r2) \<Rightarrow> Inr (Some \<lparr>ID = buf ! 0, Payload = drop 1 buf\<rparr>, r2))))"

definition Message_Write :: "Message \<Rightarrow> bytes" where
  "Message_Write m =
     (let len = 1 + length (Payload m)
      in PutUint32 (of_nat len) @ [ID m] @ Payload m)"

definition WriteKeepAlive :: bytes where
  "WriteKeepAlive = [0, 0, 0, 0]"

definition NewRequestMessage :: "32 word \<Rightarrow> 32 word \<Rightarrow> 32 word \<Rightarrow> Message" where
  "NewRequestMessage index begin len =
     \<lparr>ID = MsgRequest, Payload = PutUint32 index @ PutUint32 begin @ PutUint32 len\<rparr>"

definition NewHaveMessage :: "32 word \<Rightarrow> Message" where
  "NewHaveMessage index = \<lparr>ID = MsgHave, Payload = PutUint32 index\<rparr>"

definition NewPieceMessage :: "32 word \<Rightarrow> 32 word \<Rightarrow> bytes \<Rightarrow> Message" where
  "NewPieceMessage index begin block =
     \<lparr>ID = MsgPiece, Payload = PutUint32 index @ PutUint32 begin @ block\<rparr>"

definition NewCancelMessage :: "32 word \<Rightarrow> 32 word \<Rightarrow> 32 word \<Rightarrow> Message" where
  "NewCancelMessage index begin len =
     \<lparr>ID = MsgCancel, Payload = PutUint32 index @ PutUint32 begin @ PutUint32 len\<rparr>"

definition ParseRequest :: "bytes \<Rightarrow> perror + 32 word \<times> 32 word \<times> 32 word" where
  "ParseRequest payload =
     (if length payload < 12 then Inl PayloadTooShort
      else Inr (Uint32 (slice 0 4 payload), Uint32 (slice 4 8 payload), Uint32 (slice 8 12 payload)))"

definition ParsePiece :: "bytes \<Rightarrow> perror + 32 word \<times> 32 word \<times> bytes" where
  "ParsePiece payload =
     (if length payload < 8 then Inl PayloadTooShort
      else Inr (Uint32 (slice 0 4 payload), Uint32 (slice 4 8 payload), drop 8 payload))"

definition ParseHave :: "bytes \<Rightarrow> perror + 32 word" where
  "ParseHave payload =
     (if length payload \<noteq> 4 then Inl BadPayloadLength else Inr (Uint32 payload))"

definition NewRejectMessage :: "32 word \<Rightarrow> 32 word \<Rightarrow> 32 word \<Rightarrow> Message" where
  "NewRejectMessage index begin len =
     \<lparr>ID = MsgReject, Payload = PutUint32 index @ PutUint32 begin @ PutUint32 len\<rparr>"

definition ParseReject :: "bytes \<Rightarrow> perror + 32 word \<times> 32 word \<times> 32 word" where
  "ParseReject payload = ParseRequest payload"

definition NewAllowedFastMessage :: "32 word \<Rightarrow> Message" where
  "NewAllowedFastMessage index = \<lparr>ID = MsgAllowedFast, Payload = PutUint32 index\<rparr>"

definition ParseAllowedFast :: "bytes \<Rightarrow> perror + 32 word" where
  "ParseAllowedFast payload = ParseHave payload"

section \<open>Bitfields\<close>

type_synonym Bitfield = bytes

definition HasPiece :: "Bitfield \<Rightarrow> int \<Rightarrow> bool" where
  "HasPiece bf index =
     (if index < 0 then False
      else let byteIndex = nat (index div 8); offset = nat (index mod 8)
           in if byteIndex \<ge> length bf then False
              else drop_bit (7 - offset) (bf ! byteIndex) AND 1 \<noteq> 0)"

definition SetPiece :: "Bitfield \<Rightarrow> int \<Rightarrow> bool \<times> Bitfield" where
  "SetPiece bf index =
     (if index < 0 then (False, bf)
      else let byteIndex = nat (index div 8); offset = nat (index mod 8)
           in if byteIndex \<ge> length bf then (False, bf)
              else (True, bf[byteIndex := (bf ! byteIndex) OR push_bit (7 - offset) 1]))"

section \<open>Handshake\<close>

definition protocolID :: bytes where
  "protocolID = gostr ''BitTorrent protocol''"

record Handshake =
  InfoHash :: bytes
  PeerID :: bytes
  Extensions :: bool
  FastExtension :: bool

definition WriteHandshake :: "Handshake \<Rightarrow> bytes" where
  "WriteHandshake h =
     [19] @ protocolID
     @ [0, 0, 0, 0, 0, if Extensions h then 0x10 else 0, 0, if FastExtension h then 0x04 else 0]
     @ InfoHash h @ PeerID h"

definition ReadHandshake :: "bytes \<Rightarrow> perror + Handshake \<times> bytes" where
  "ReadHandshake r =
     (case ReadFull r 68 of
        Inl e \<Rightarrow> Inl (ReadErr e)
      | Inr (buf, r') \<Rightarrow>
          if buf ! 0 \<noteq> 19 then Inl UnexpectedPstrlen
          else if slice 1 20 buf \<noteq> protocolID then Inl UnexpectedProtocol
          else Inr (\<lparr>InfoHash = slice 28 48 buf, PeerID = slice 48 68 buf,
                     Extensions = buf ! 25 AND 0x10 \<noteq> 0,
                     FastExtension = buf ! 27 AND 0x04 \<noteq> 0\<rparr>, r'))"

section \<open>Framing\<close>

text \<open>Both writers as one encoding of what \<open>ReadMessage\<close> returns, and the messages under its cap.\<close>

definition WriteMessage :: "Message option \<Rightarrow> bytes" where
  "WriteMessage m = (case m of None \<Rightarrow> WriteKeepAlive | Some m \<Rightarrow> Message_Write m)"

definition message_ok :: "Message option \<Rightarrow> bool" where
  "message_ok m = (case m of None \<Rightarrow> True | Some m \<Rightarrow> length (Payload m) < 4 * 1024 * 1024)"

lemma PutUint32_0: "PutUint32 0 = [0, 0, 0, 0]"
  by (simp add: PutUint32_def)

lemma unat_message_length:
  "n < 4 * 1024 * 1024 \<Longrightarrow> unat (1 + of_nat n :: 32 word) = Suc n"
  using unat_of_nat [of "Suc n", where 'a = 32] by simp

interpretation wire: canonical_codec WriteMessage ReadMessage message_ok
proof
  fix x s assume ok: "message_ok x"
  show "ReadMessage (WriteMessage x @ s) = Inr (x, s)"
  proof (cases x)
    case None
    have "ReadFull (PutUint32 0 @ s) 4 = Inr (PutUint32 0, s)" by simp
    then show ?thesis
      by (simp add: None WriteMessage_def WriteKeepAlive_def ReadMessage_def flip: PutUint32_0)
  next
    case (Some m)
    let ?l = "1 + of_nat (length (Payload m)) :: 32 word"
    have l: "unat ?l = Suc (length (Payload m))"
      using ok unat_message_length by (simp add: Some message_ok_def)
    have "ReadFull (PutUint32 ?l @ r) 4 = Inr (PutUint32 ?l, r)" for r by simp
    moreover have "?l \<noteq> 0" using l by (metis nat.distinct(1) unat_0)
    moreover have "\<not> ?l > 4 * 1024 * 1024"
      using ok l by (simp add: word_less_nat_alt Some message_ok_def)
    moreover have "ReadFull (ID m # Payload m @ s) (unat ?l) = Inr (ID m # Payload m, s)"
      using l ReadFull_append [of "ID m # Payload m" "unat ?l" s] by simp
    ultimately show ?thesis
      by (simp add: Some WriteMessage_def Message_Write_def ReadMessage_def)
  qed
next
  fix s x r assume rd: "ReadMessage s = Inr (x, r)"
  then obtain b s1 where b: "s = b @ s1" "length b = 4"
    by (auto simp: ReadMessage_def ReadFull_Inr split: sum.splits)
  show "message_ok x \<and> s = WriteMessage x @ r"
  proof (cases "Uint32 b = 0")
    case True
    then have "PutUint32 0 = b" using Put_Uint32 [OF b(2)] by simp
    with True rd b show ?thesis
      by (auto simp: ReadMessage_def WriteMessage_def message_ok_def WriteKeepAlive_def PutUint32_0)
  next
    case False
    then obtain buf where buf: "s1 = buf @ r" "length buf = unat (Uint32 b)"
       "x = Some \<lparr>ID = buf ! 0, Payload = drop 1 buf\<rparr>" "\<not> Uint32 b > 4 * 1024 * 1024"
      using rd b by (auto simp: ReadMessage_def ReadFull_Inr Let_def split: sum.splits if_splits)
    then have "buf \<noteq> []" using False by (auto simp: unat_eq_0)
    then have cons: "buf = buf ! 0 # drop 1 buf" by (cases buf) auto
    have "Suc (length (drop 1 buf)) = unat (Uint32 b)" using buf(2) cons by (metis length_Cons)
    then have "of_nat (Suc (length (drop 1 buf))) = Uint32 b" by simp
    then show ?thesis
      using buf b cons \<open>buf \<noteq> []\<close> Put_Uint32 [OF b(2)]
      by (auto simp: WriteMessage_def Message_Write_def message_ok_def word_less_nat_alt not_less)
  qed
qed


section \<open>Payload round trips\<close>

lemma ParseRequest_New:
  "ParseRequest (Payload (NewRequestMessage i b l)) = Inr (i, b, l)"
  "ParseRequest (Payload (NewCancelMessage i b l)) = Inr (i, b, l)"
  "ParseReject (Payload (NewRejectMessage i b l)) = Inr (i, b, l)"
  by (simp_all add: ParseRequest_def ParseReject_def NewRequestMessage_def NewCancelMessage_def
      NewRejectMessage_def)

lemma length_Payload_New:
  "length (Payload (NewRequestMessage i b l)) = 12"
  "length (Payload (NewCancelMessage i b l)) = 12"
  "length (Payload (NewRejectMessage i b l)) = 12"
  "length (Payload (NewPieceMessage i b block)) = 8 + length block"
  "length (Payload (NewHaveMessage i)) = 4"
  "length (Payload (NewAllowedFastMessage i)) = 4"
  by (simp_all add: NewRequestMessage_def NewCancelMessage_def NewRejectMessage_def
      NewPieceMessage_def NewHaveMessage_def NewAllowedFastMessage_def)

lemma ParsePiece_New: "ParsePiece (Payload (NewPieceMessage i b block)) = Inr (i, b, block)"
  by (simp add: ParsePiece_def NewPieceMessage_def)

lemma ParseHave_New:
  "ParseHave (Payload (NewHaveMessage i)) = Inr i"
  "ParseAllowedFast (Payload (NewAllowedFastMessage i)) = Inr i"
  by (simp_all add: ParseHave_def ParseAllowedFast_def NewHaveMessage_def NewAllowedFastMessage_def)

section \<open>The bitfield as a set of piece indices\<close>

lemma bit_and_1: "drop_bit n (b :: 'a::len word) AND 1 \<noteq> 0 \<longleftrightarrow> bit b n"
  by (simp add: bit_iff_odd_drop_bit and_one_eq odd_iff_mod_2_eq_one)

lemma HasPiece_iff:
  "HasPiece bf i \<longleftrightarrow> 0 \<le> i \<and> i < 8 * int (length bf) \<and>
     bit (bf ! nat (i div 8)) (7 - nat (i mod 8))"
proof -
  have "0 \<le> i \<Longrightarrow> nat (i div 8) < length bf \<longleftrightarrow> i < 8 * int (length bf)"
    by linarith
  then show ?thesis by (auto simp: HasPiece_def Let_def bit_and_1 not_le)
qed

lemma length_SetPiece [simp]: "length (snd (SetPiece bf i)) = length bf"
  by (simp add: SetPiece_def Let_def)

lemma SetPiece_ok: "fst (SetPiece bf i) \<longleftrightarrow> 0 \<le> i \<and> i < 8 * int (length bf)"
proof -
  have "0 \<le> i \<Longrightarrow> nat (i div 8) < length bf \<longleftrightarrow> i < 8 * int (length bf)"
    by linarith
  then show ?thesis by (auto simp: SetPiece_def Let_def not_le)
qed

lemma piece_position:
  assumes "0 \<le> i" "0 \<le> (j :: int)"
  shows "nat (i div 8) = nat (j div 8) \<and> 7 - nat (i mod 8) = 7 - nat (j mod 8) \<longleftrightarrow> i = j"
proof
  assume "nat (i div 8) = nat (j div 8) \<and> 7 - nat (i mod 8) = 7 - nat (j mod 8)"
  then have d: "nat (i div 8) = nat (j div 8)" and m: "7 - nat (i mod 8) = 7 - nat (j mod 8)"
    by simp_all
  have "nat (i mod 8) < 8" "nat (j mod 8) < 8" by simp_all
  with m have "nat (i mod 8) = nat (j mod 8)" by linarith
  then have "i mod 8 = j mod 8" by (simp add: eq_nat_nat_iff)
  moreover have "i div 8 = j div 8"
    using d assms by (simp add: eq_nat_nat_iff pos_imp_zdiv_nonneg_iff)
  ultimately show "i = j" by (metis mult_div_mod_eq)
qed auto

lemma HasPiece_SetPiece:
  "HasPiece (snd (SetPiece bf i)) j \<longleftrightarrow>
     HasPiece bf j \<or> (j = i \<and> 0 \<le> i \<and> i < 8 * int (length bf))"
proof (cases "fst (SetPiece bf i)")
  case False
  then have "snd (SetPiece bf i) = bf" by (auto simp: SetPiece_def Let_def split: if_splits)
  with False show ?thesis by (auto simp: SetPiece_ok)
next
  case True
  then have i: "0 \<le> i" "i < 8 * int (length bf)" "nat (i div 8) < length bf"
    by (auto simp: SetPiece_ok)
  then have s: "snd (SetPiece bf i) =
      bf[nat (i div 8) := (bf ! nat (i div 8)) OR push_bit (7 - nat (i mod 8)) 1]"
    by (simp add: SetPiece_def Let_def not_le)
  have "bit (push_bit (7 - nat (i mod 8)) 1 :: byte) n \<longleftrightarrow> n = 7 - nat (i mod 8)" for n
    by (auto simp: bit_simps)
  then show ?thesis
    using i piece_position [of i j]
    by (auto simp: HasPiece_iff s nth_list_update bit_or_iff)
qed

locale bitset =
  fixes has :: "'b \<Rightarrow> int \<Rightarrow> bool"
    and put :: "'b \<Rightarrow> int \<Rightarrow> 'b"
    and cap :: "'b \<Rightarrow> int"
  assumes has_put: "has (put b i) j \<longleftrightarrow> has b j \<or> (j = i \<and> 0 \<le> i \<and> i < cap b)"
    and cap_put: "cap (put b i) = cap b"
    and has_range: "has b i \<Longrightarrow> 0 \<le> i \<and> i < cap b"
begin

lemma cap_fold: "cap (foldl put b is) = cap b"
  by (induction "is" arbitrary: b) (simp_all add: cap_put)

lemma has_fold: "has (foldl put b is) j \<longleftrightarrow> has b j \<or> (j \<in> set is \<and> 0 \<le> j \<and> j < cap b)"
  by (induction "is" arbitrary: b) (auto simp: has_put cap_put)

lemma finite_has: "finite {i. has b i}"
  by (rule finite_subset [of _ "{0..<cap b}"]) (auto dest: has_range)

end

interpretation bitfield: bitset HasPiece "\<lambda>b i. snd (SetPiece b i)" "\<lambda>b. 8 * int (length b)"
  by unfold_locales (simp_all only: HasPiece_SetPiece length_SetPiece, simp add: HasPiece_iff)

section \<open>Handshake round trip\<close>

definition handshake_ok :: "Handshake \<Rightarrow> bool" where
  "handshake_ok h \<longleftrightarrow> length (InfoHash h) = 20 \<and> length (PeerID h) = 20"

lemma length_protocolID [simp]: "length protocolID = 19"
  by (simp add: protocolID_def)

lemma length_WriteHandshake: "handshake_ok h \<Longrightarrow> length (WriteHandshake h) = 68"
  by (simp add: WriteHandshake_def handshake_ok_def)

interpretation handshake: codec WriteHandshake ReadHandshake handshake_ok
proof
  fix h s assume h: "handshake_ok h"
  then have len: "length (InfoHash h) = 20" "length (PeerID h) = 20"
    by (simp_all add: handshake_ok_def)
  let ?b = "WriteHandshake h"
  have "ReadFull (?b @ s) 68 = Inr (?b, s)" using length_WriteHandshake [OF h] by simp
  moreover have "?b ! 0 = 19" "slice 1 20 ?b = protocolID"
    "slice 28 48 ?b = InfoHash h" "slice 48 68 ?b = PeerID h"
    using len by (simp_all add: WriteHandshake_def slice_def)
  moreover have "?b ! 25 = (if Extensions h then 0x10 else 0)"
    "?b ! 27 = (if FastExtension h then 0x04 else 0)"
    by (simp_all add: WriteHandshake_def nth_append nth_Cons')
  ultimately show "ReadHandshake (?b @ s) = Inr (h, s)"
    by (simp add: ReadHandshake_def)
qed

section \<open>Properties\<close>

text \<open>
  C4: The framing is exact. Reading a message from a stream succeeds with message \<open>m\<close> (nothing for
  a keep-alive) and rest \<open>r\<close> exactly when \<open>m\<close> is within the 4 MiB cap and the stream starts with
  what the writers emit for \<open>m\<close>. So nothing but a complete frame is ever accepted, and a message
  cut off anywhere is an error and never a shorter message.
\<close>

theorem ReadMessage_exact:
  "ReadMessage s = Inr (m, r) \<longleftrightarrow> message_ok m \<and> s = WriteMessage m @ r"
  by (rule wire.read_iff)

text \<open>
  C5: A sequence of messages written one after the other is read back as that sequence, in order,
  leaving the rest of the stream, and a frame cut off at any byte is refused.
\<close>

theorem ReadMessage_stream:
  assumes "\<forall>m\<in>set ms. message_ok m"
  shows "read_seq ReadMessage (length ms) (concat (map WriteMessage ms) @ s) = Inr (ms, s) \<and>
    (\<forall>m\<in>set ms. \<forall>k<length (WriteMessage m). \<exists>e. ReadMessage (take k (WriteMessage m)) = Inl e)"
  using wire.read_seq_write [OF assms] wire.read_truncated assms by blast

theorem ReadMessage_stream_witness:
  "read_seq ReadMessage 2 (WriteMessage None @ WriteMessage (Some (NewHaveMessage 7)) @ [1, 2])
     = Inr ([None, Some (NewHaveMessage 7)], [1, 2])"
  using ReadMessage_stream [of "[None, Some (NewHaveMessage 7)]" "[1, 2]"]
  by (simp add: message_ok_def NewHaveMessage_def numeral_2_eq_2)

text \<open>
  C6: Every payload constructor is inverted by its parser after a trip over the wire: the receiver
  of a request, cancel, reject, piece, have or allowed-fast message gets the index, offset, length
  and block the sender put in, whatever follows on the stream, if the block leaves the message within the
  cap of 4 MiB; and the messages carry the identifiers of the protocol.
\<close>

definition received :: "Message \<Rightarrow> bytes \<Rightarrow> (bytes \<Rightarrow> perror + 'a) \<Rightarrow> 'a \<Rightarrow> bool" where
  "received m s parse x \<longleftrightarrow>
     ReadMessage (Message_Write m @ s) = Inr (Some m, s) \<and> parse (Payload m) = Inr x"

lemma ReadMessage_Write:
  "length (Payload m) < 4 * 1024 * 1024 \<Longrightarrow> ReadMessage (Message_Write m @ s) = Inr (Some m, s)"
  using wire.read_write [of "Some m" s] by (simp add: WriteMessage_def message_ok_def)

theorem payload_roundtrip:
  assumes "length block < 4 * 1024 * 1024 - 8"
  shows "received (NewRequestMessage i b l) s ParseRequest (i, b, l) \<and>
    received (NewCancelMessage i b l) s ParseRequest (i, b, l) \<and>
    received (NewRejectMessage i b l) s ParseReject (i, b, l) \<and>
    received (NewPieceMessage i b block) s ParsePiece (i, b, block) \<and>
    received (NewHaveMessage i) s ParseHave i \<and>
    received (NewAllowedFastMessage i) s ParseAllowedFast i \<and>
    map ID [NewRequestMessage i b l, NewCancelMessage i b l, NewRejectMessage i b l, NewPieceMessage i b block,
      NewHaveMessage i, NewAllowedFastMessage i] = [6, 8, 16, 7, 4, 17]"
  using assms
  by (simp add: received_def ReadMessage_Write length_Payload_New ParseRequest_New ParsePiece_New
      ParseHave_New)
    (simp add: NewRequestMessage_def NewCancelMessage_def NewRejectMessage_def NewPieceMessage_def NewHaveMessage_def
      NewAllowedFastMessage_def msg_ids)

theorem payload_roundtrip_witness:
  "received (NewPieceMessage 3 16384 [1, 2, 3]) [9] ParsePiece (3, 16384, [1, 2, 3])"
  using payload_roundtrip [of "[1, 2, 3]" 3 16384 0 "[9]"] by simp

text \<open>
  C7: A bitfield is a set of piece indices. \<open>SetPiece\<close> adds exactly the given index, keeps the
  length, and reports success exactly for the indices the bitfield has room for; an index out of
  range, negative ones included, leaves it unchanged, and \<open>HasPiece\<close> is false there.
\<close>

theorem SetPiece_refines_insert:
  "{j. HasPiece (snd (SetPiece bf i)) j} =
     (if fst (SetPiece bf i) then insert i {j. HasPiece bf j} else {j. HasPiece bf j}) \<and>
   fst (SetPiece bf i) = (0 \<le> i \<and> i < 8 * int (length bf)) \<and>
   length (snd (SetPiece bf i)) = length bf \<and>
   {j. HasPiece bf j} \<subseteq> {0..<8 * int (length bf)}"
  using bitfield.has_range [of bf] by (auto simp: HasPiece_SetPiece SetPiece_ok)

text \<open>
  C8: A handshake survives the wire: 68 bytes are written, and reading them, with anything after
  them, gives back the info hash, the peer id and both extension flags; a stream that announces
  another protocol is refused.
\<close>

theorem handshake_roundtrip:
  assumes "handshake_ok h"
  shows "length (WriteHandshake h) = 68 \<and> ReadHandshake (WriteHandshake h @ s) = Inr (h, s) \<and>
    (\<forall>b h' r. ReadHandshake b = Inr (h', r) \<longrightarrow>
       handshake_ok h' \<and> length b = 68 + length r \<and> take 20 b = take 20 (WriteHandshake h))"
proof -
  have "handshake_ok h' \<and> length b = 68 + length r \<and> take 20 b = 19 # protocolID"
    if "ReadHandshake b = Inr (h', r)" for b h' r
  proof -
    obtain buf where buf: "b = buf @ r" "length buf = 68" "buf ! 0 = 19" "slice 1 20 buf = protocolID"
      "h' = \<lparr>InfoHash = slice 28 48 buf, PeerID = slice 48 68 buf,
         Extensions = buf ! 25 AND 0x10 \<noteq> 0, FastExtension = buf ! 27 AND 0x04 \<noteq> 0\<rparr>"
      using \<open>ReadHandshake b = Inr (h', r)\<close>
      by (auto simp: ReadHandshake_def ReadFull_Inr split: sum.splits if_splits)
    then have "take 20 b = take 20 buf" by simp
    also have "\<dots> = 19 # protocolID"
      using buf(2-4) by (cases buf) (auto simp: slice_def)
    finally show ?thesis using buf by (simp add: handshake_ok_def)
  qed
  moreover have "take 20 (WriteHandshake h) = 19 # protocolID"
    by (simp add: WriteHandshake_def)
  ultimately show ?thesis
    using handshake.read_write [OF assms] length_WriteHandshake [OF assms] by simp
qed

theorem handshake_roundtrip_witness:
  "ReadHandshake (WriteHandshake \<lparr>InfoHash = replicate 20 1, PeerID = replicate 20 2,
       Extensions = True, FastExtension = False\<rparr> @ [7])
     = Inr (\<lparr>InfoHash = replicate 20 1, PeerID = replicate 20 2,
       Extensions = True, FastExtension = False\<rparr>, [7])"
  using handshake_roundtrip [of "\<lparr>InfoHash = replicate 20 1, PeerID = replicate 20 2,
       Extensions = True, FastExtension = False\<rparr>" "[7]"]
  by (simp add: handshake_ok_def)

end
