(* ===== verification/Step_Systems.thy ===== *)
theory Step_Systems
  imports Go_Prelude
begin

text \<open>
  Invariants of step relations. Every stateful component of the development is a step relation
  over its state; \<open>step_invariant\<close> is the contract "each step keeps the invariant", and its
  consequence for all reachable states is proved once. \<open>step_decreasing\<close> is the contract "no step
  increases the measure".
\<close>

locale step_invariant =
  fixes step :: "'s \<Rightarrow> 's \<Rightarrow> bool"
    and inv :: "'s \<Rightarrow> bool"
  assumes step_inv: "step s s' \<Longrightarrow> inv s \<Longrightarrow> inv s'"
begin

lemma reach_inv: "rtranclp step s s' \<Longrightarrow> inv s \<Longrightarrow> inv s'"
  by (induction rule: rtranclp_induct) (auto intro: step_inv)

lemma reach_inv_both: "rtranclp step s t \<Longrightarrow> rtranclp step t u \<Longrightarrow> inv s \<Longrightarrow> inv t \<and> inv u"
  by (blast intro: reach_inv)

end

text \<open>A measure that no step increases never grows along a run.\<close>

locale step_decreasing =
  fixes step :: "'s \<Rightarrow> 's \<Rightarrow> bool"
    and weight :: "'s \<Rightarrow> 'n::preorder"
  assumes step_weight: "step s s' \<Longrightarrow> weight s' \<le> weight s"
begin

lemma reach_weight: "rtranclp step s s' \<Longrightarrow> weight s' \<le> weight s"
  by (induction rule: rtranclp_induct) (auto intro: order_trans step_weight)

end

end
