(* ===== verification/Piece_Queue.thy ===== *)
theory Piece_Queue
  imports Go_Map Peer_Wire Step_Systems
begin

text \<open>
  The piece queue of \<^verbatim>\<open>src/download/piecequeue.go\<close>, which decides what every peer worker downloads
  next. Its methods run under one mutex, so a method is one function from state to state. The
  channel \<open>waitCh\<close> (capacity one) is the flag "a wake-up is buffered", \<open>cancelCh\<close> (capacity 64)
  the list of buffered indices; the sends after the unlock of \<open>Return\<close> and \<open>Complete\<close> are
  non-blocking and touch only these. \<open>\<omega>\<close> and \<open>src\<close> are the iteration order and the random
  source.
\<close>

section \<open>State and operations\<close>

record PieceWork =
  pw_Index :: int
  pw_Hash :: bytes
  pw_Length :: int

record PieceQueue =
  pieces :: "(int \<times> PieceWork) list"
  availability :: "(int \<times> int) list"
  pending :: "int set"
  done_pieces :: "int set"
  endgame :: bool
  totalPieces :: nat
  waitCh :: bool
  cancelCh :: "int list"
  buckets :: "(int \<times> int list) list"
  skipMask :: "Bitfield option"
  priority :: "int list option"
  sequential :: bool

definition zeroPieceWork :: PieceWork where
  "zeroPieceWork = \<lparr>pw_Index = 0, pw_Hash = replicate 20 0, pw_Length = 0\<rparr>"

definition masked :: "Bitfield option \<Rightarrow> int \<Rightarrow> bool" where
  "masked skip idx = (case skip of None \<Rightarrow> False | Some bf \<Rightarrow> HasPiece bf idx)"

definition NewPieceQueueWithOptions ::
  "PieceWork list \<Rightarrow> Bitfield option \<Rightarrow> int \<Rightarrow> bool \<Rightarrow> bool \<Rightarrow> PieceQueue" where
  "NewPieceQueueWithOptions pws skip numPieces prioritizeFirstLast seq =
     (let filtered = filter (\<lambda>pw. \<not> masked skip (pw_Index pw)) pws;
          ps = foldl (\<lambda>m pw. AList.update (pw_Index pw) pw m) [] filtered;
          bucket0 = foldl (\<lambda>b pw. List.insert (pw_Index pw) b) [] filtered;
          prio = (if prioritizeFirstLast \<and> numPieces > 0
                  then let p0 = (if map_of ps 0 \<noteq> None then [0] else []);
                           last = numPieces - 1
                       in Some (if last \<noteq> 0 \<and> map_of ps last \<noteq> None
                                then List.insert last p0 else p0)
                  else None)
      in \<lparr>pieces = ps, availability = [], pending = {}, done_pieces = {}, endgame = False,
          totalPieces = length filtered, waitCh = False, cancelCh = [],
          buckets = (if bucket0 \<noteq> [] then [(0, bucket0)] else []),
          skipMask = None, priority = prio, sequential = seq\<rparr>)"

definition NewPieceQueueWithSkip :: "PieceWork list \<Rightarrow> Bitfield option \<Rightarrow> PieceQueue" where
  "NewPieceQueueWithSkip pws skip = NewPieceQueueWithOptions pws skip 0 False False"

definition NewPieceQueue :: "PieceWork list \<Rightarrow> PieceQueue" where
  "NewPieceQueue pws = NewPieceQueueWithSkip pws None"

text \<open>Taking an index out of a bucket, and dropping the bucket when it is empty.\<close>

definition delBucket :: "int \<Rightarrow> int \<Rightarrow> (int \<times> int list) list \<Rightarrow> (int \<times> int list) list" where
  "delBucket idx avail bs =
     (case map_of bs avail of
        None \<Rightarrow> bs
      | Some b \<Rightarrow>
          let b' = removeAll idx b
          in if b' = [] then AList.delete avail bs else AList.update avail b' bs)"

definition moveBucket ::
  "int \<Rightarrow> int \<Rightarrow> int \<Rightarrow> (int \<times> int list) list \<Rightarrow> (int \<times> int list) list" where
  "moveBucket idx oldAvail newAvail bs =
     (let bs1 = delBucket idx oldAvail bs
      in AList.update newAvail (List.insert idx (mget [] bs1 newAvail)) bs1)"

definition signal :: "PieceQueue \<Rightarrow> PieceQueue" where
  "signal pq = pq\<lparr>waitCh := True\<rparr>"

text \<open>The four guards every candidate of \<open>Pick\<close> passes.\<close>

definition pickable :: "PieceQueue \<Rightarrow> (int \<Rightarrow> bool) \<Rightarrow> int \<Rightarrow> bool" where
  "pickable pq hasPiece idx \<longleftrightarrow>
     idx \<notin> done_pieces pq \<and> (endgame pq \<or> idx \<notin> pending pq) \<and>
     \<not> masked (skipMask pq) idx \<and> hasPiece idx"

fun reservoir :: "(nat \<Rightarrow> nat) \<Rightarrow> (int \<Rightarrow> bool) \<Rightarrow> int list \<Rightarrow> int \<Rightarrow> nat \<Rightarrow> int \<times> nat" where
  "reservoir src ok [] chosen cnt = (chosen, cnt)"
| "reservoir src ok (idx # idxs) chosen cnt =
     (if \<not> ok idx then reservoir src ok idxs chosen cnt
      else reservoir src ok idxs (if IntN src (cnt + 1) = 0 then idx else chosen) (cnt + 1))"

fun pickBuckets ::
  "(int \<Rightarrow> nat) \<Rightarrow> (nat \<Rightarrow> nat) \<Rightarrow> (int \<Rightarrow> bool) \<Rightarrow> (int \<times> int list) list \<Rightarrow> int list \<Rightarrow> int option"
where
  "pickBuckets \<omega> src ok bs [] = None"
| "pickBuckets \<omega> src ok bs (avail # avails) =
     (case reservoir src ok (range_order \<omega> (mget [] bs avail)) 0 0 of
        (chosen, cnt) \<Rightarrow>
          if cnt > 0 then Some chosen else pickBuckets \<omega> src ok bs avails)"

definition enterEndgame :: "PieceQueue \<Rightarrow> PieceQueue" where
  "enterEndgame pq =
     (if \<not> endgame pq
      then let remaining = length (pieces pq);
               threshold = totalPieces pq div 100;
               threshold = (if threshold < 5 then 5 else threshold)
           in if remaining > 0 \<and> remaining \<le> threshold then pq\<lparr>endgame := True\<rparr> else pq
      else pq)"

definition handOut :: "PieceQueue \<Rightarrow> int \<Rightarrow> PieceWork option \<times> PieceQueue" where
  "handOut pq idx =
     (Some (mget zeroPieceWork (pieces pq) idx), pq\<lparr>pending := insert idx (pending pq)\<rparr>)"

definition Pick ::
  "(int \<Rightarrow> nat) \<Rightarrow> (nat \<Rightarrow> nat) \<Rightarrow> PieceQueue \<Rightarrow> (int \<Rightarrow> bool) \<Rightarrow> PieceWork option \<times> PieceQueue"
where
  "Pick \<omega> src pq0 hasPiece =
     (let pq = enterEndgame pq0; ok = pickable pq hasPiece
      in if sequential pq
         then (case find ok (sort (range_order \<omega> (map fst (pieces pq)))) of
                 None \<Rightarrow> (None, pq)
               | Some idx \<Rightarrow> handOut pq idx)
         else
           (let prio = (case priority pq of None \<Rightarrow> [] | Some p \<Rightarrow> p);
                (chosen, cnt) = reservoir src ok (range_order \<omega> prio) 0 0
            in if cnt > 0 then handOut pq chosen
               else
                 (let avails = sort (map fst (filter (\<lambda>(a, b). b \<noteq> [])
                                 (range_order (\<omega> \<circ> fst) (buckets pq))))
                  in case pickBuckets \<omega> src ok (buckets pq) avails of
                       None \<Rightarrow> (None, pq)
                     | Some idx \<Rightarrow> handOut pq idx)))"

definition Return :: "PieceQueue \<Rightarrow> PieceWork \<Rightarrow> PieceQueue" where
  "Return pq pw = signal (pq\<lparr>pending := pending pq - {pw_Index pw}\<rparr>)"

definition Complete :: "PieceQueue \<Rightarrow> int \<Rightarrow> PieceQueue" where
  "Complete pq index =
     (let avail = mget 0 (availability pq) index;
          pq1 = pq\<lparr>pending := pending pq - {index},
                   buckets := delBucket index avail (buckets pq),
                   priority := map_option (removeAll index) (priority pq),
                   pieces := AList.delete index (pieces pq),
                   done_pieces := insert index (done_pieces pq)\<rparr>;
          pq2 = (if endgame pq1 \<and> length (cancelCh pq1) < 64
                 then pq1\<lparr>cancelCh := cancelCh pq1 @ [index]\<rparr> else pq1)
      in signal pq2)"

definition IsEndgame :: "PieceQueue \<Rightarrow> bool" where
  "IsEndgame pq = endgame pq"

definition IsDone :: "PieceQueue \<Rightarrow> int \<Rightarrow> bool" where
  "IsDone pq index = (index \<in> done_pieces pq)"

text \<open>A nil bitfield means "have all".\<close>

definition peerHas :: "Bitfield option \<Rightarrow> int \<Rightarrow> bool" where
  "peerHas bf idx = (case bf of None \<Rightarrow> True | Some b \<Rightarrow> HasPiece b idx)"

definition bumpAvail :: "int \<Rightarrow> PieceQueue \<Rightarrow> int \<Rightarrow> PieceQueue" where
  "bumpAvail d pq idx =
     (let old = mget 0 (availability pq) idx
      in pq\<lparr>availability := AList.update idx (old + d) (availability pq),
             buckets := moveBucket idx old (old + d) (buckets pq)\<rparr>)"

definition AddPeerBitfield :: "(int \<Rightarrow> nat) \<Rightarrow> PieceQueue \<Rightarrow> Bitfield option \<Rightarrow> PieceQueue" where
  "AddPeerBitfield \<omega> pq bf =
     signal (foldl (\<lambda>q idx. if peerHas bf idx then bumpAvail 1 q idx else q) pq
               (range_order \<omega> (map fst (pieces pq))))"

definition RemovePeerBitfield :: "(int \<Rightarrow> nat) \<Rightarrow> PieceQueue \<Rightarrow> Bitfield option \<Rightarrow> PieceQueue" where
  "RemovePeerBitfield \<omega> pq bf =
     foldl (\<lambda>q idx. if peerHas bf idx then bumpAvail (- 1) q idx else q) pq
       (range_order \<omega> (map fst (pieces pq)))"

definition PeerHave :: "PieceQueue \<Rightarrow> int \<Rightarrow> PieceQueue" where
  "PeerHave pq index =
     (let old = mget 0 (availability pq) index;
          pq1 = pq\<lparr>availability := AList.update index (old + 1) (availability pq)\<rparr>
      in signal (if map_of (pieces pq1) index \<noteq> None
                 then pq1\<lparr>buckets := moveBucket index old (old + 1) (buckets pq1)\<rparr> else pq1))"

definition maxPieceLen :: "PieceQueue \<Rightarrow> int" where
  "maxPieceLen pq =
     foldl (\<lambda>m (idx, pw). if pw_Length pw > m then pw_Length pw else m) 0 (pieces pq)"

definition Remaining :: "PieceQueue \<Rightarrow> nat" where
  "Remaining pq =
     (case skipMask pq of
        None \<Rightarrow> length (pieces pq)
      | Some bf \<Rightarrow> length (filter (\<lambda>idx. \<not> HasPiece bf idx) (map fst (pieces pq))))"

definition UpdateSkipMask :: "PieceQueue \<Rightarrow> Bitfield option \<Rightarrow> PieceQueue" where
  "UpdateSkipMask pq skip = signal (pq\<lparr>skipMask := skip\<rparr>)"

section \<open>Buckets\<close>

definition bset :: "(int \<times> int list) list \<Rightarrow> int \<Rightarrow> int set" where
  "bset bs a = set (mget [] bs a)"

definition buckets_ok :: "(int \<times> int list) list \<Rightarrow> bool" where
  "buckets_ok bs \<longleftrightarrow> distinct (map fst bs) \<and> (\<forall>(a, b)\<in>set bs. b \<noteq> [] \<and> distinct b)"

lemma buckets_ok_alt:
  "buckets_ok bs \<longleftrightarrow>
     distinct (map fst bs) \<and> (\<forall>a b. map_of bs a = Some b \<longrightarrow> b \<noteq> [] \<and> distinct b)"
  unfolding buckets_ok_def by (rule conj_cong) (simp_all add: map_of_eq_Some_iff Ball_def)

lemma bset_delBucket: "bset (delBucket idx av bs) a = (if a = av then bset bs a - {idx} else bset bs a)"
  by (auto simp: bset_def delBucket_def mget_def Let_def removeAll_filter_not_eq filter_empty_conv
      split: option.splits)

lemma buckets_ok_delBucket: "buckets_ok bs \<Longrightarrow> buckets_ok (delBucket idx av bs)"
  by (auto simp: buckets_ok_alt delBucket_def Let_def distinct_update distinct_delete distinct_removeAll
      split: option.splits if_splits)

lemma bset_moveBucket:
  "bset (moveBucket idx old new bs) a =
     (if a = old then bset bs a - {idx} else bset bs a) \<union> (if a = new then {idx} else {})"
  by (auto simp: moveBucket_def Let_def bset_def [of "AList.update _ _ _"] bset_delBucket simp flip: bset_def)

lemma buckets_ok_moveBucket: "buckets_ok bs \<Longrightarrow> buckets_ok (moveBucket idx old new bs)"
proof -
  assume "buckets_ok bs"
  then have ok: "buckets_ok (delBucket idx old bs)" by (rule buckets_ok_delBucket)
  have "distinct (mget [] (delBucket idx old bs) new)"
    using ok by (auto simp: mget_def buckets_ok_alt split: option.splits)
  moreover have "List.insert idx b \<noteq> []" for b
    by (metis empty_iff empty_set insertI1 set_insert)
  ultimately show ?thesis
    using ok by (simp add: moveBucket_def Let_def buckets_ok_alt distinct_update)
qed

lemma bset_nonempty: "buckets_ok bs \<Longrightarrow> bset bs a \<noteq> {} \<longleftrightarrow> a \<in> fst ` set bs"
proof -
  assume "buckets_ok bs"
  then have "bset bs a = {} \<longleftrightarrow> map_of bs a = None"
    by (cases "map_of bs a") (simp_all add: bset_def mget_def buckets_ok_alt)
  then show ?thesis by (metis map_of_eq_None_iff)
qed

section \<open>Reservoir sampling\<close>

lemma reservoir_count: "snd (reservoir src ok xs c n) = n + length (filter ok xs)"
  by (induction xs arbitrary: c n) auto

lemma reservoir_mem:
  "fst (reservoir src ok xs c n) \<in> insert c (set (filter ok xs))"
proof (induction xs arbitrary: c n)
  case (Cons x xs)
  show ?case
    using Cons.IH [of c n] Cons.IH [of "if IntN src (n + 1) = 0 then x else c" "n + 1"] by auto
qed simp

lemma reservoir_first:
  "filter ok xs \<noteq> [] \<Longrightarrow> fst (reservoir src ok xs c 0) \<in> set (filter ok xs)"
proof (induction xs arbitrary: c)
  case (Cons x xs)
  then show ?case
    using reservoir_mem [of src ok xs x 1] by (auto split: if_splits)
qed simp

lemma reservoir_range_order:
  assumes "reservoir src ok (range_order \<omega> xs) c 0 = (i, n)"
  shows "n > 0 \<longleftrightarrow> (\<exists>x\<in>set xs. ok x)" and "n > 0 \<Longrightarrow> i \<in> set xs \<and> ok i"
proof -
  have n: "n = length (filter ok (range_order \<omega> xs))"
    using reservoir_count [of src ok "range_order \<omega> xs" c 0] assms by simp
  then show "n > 0 \<longleftrightarrow> (\<exists>x\<in>set xs. ok x)" by (auto simp: filter_empty_conv)
  show "i \<in> set xs \<and> ok i" if "n > 0"
    using reservoir_first [of ok "range_order \<omega> xs" src c] n that assms by auto
qed

lemma pickBuckets_None:
  "pickBuckets \<omega> src ok bs as = None \<longleftrightarrow> (\<forall>a\<in>set as. \<forall>i\<in>bset bs a. \<not> ok i)"
proof (induction "as")
  case (Cons a as)
  obtain i n where r: "reservoir src ok (range_order \<omega> (mget [] bs a)) 0 0 = (i, n)" by fastforce
  show ?case using Cons reservoir_range_order [OF r] by (auto simp: r bset_def)
qed simp

lemma pickBuckets_Some:
  assumes "pickBuckets \<omega> src ok bs as = Some i" "sorted as"
  shows "\<exists>a\<in>set as. i \<in> bset bs a \<and> ok i \<and> (\<forall>a'\<in>set as. a' < a \<longrightarrow> (\<forall>j\<in>bset bs a'. \<not> ok j))"
  using assms
proof (induction "as")
  case (Cons a as)
  obtain j n where r: "reservoir src ok (range_order \<omega> (mget [] bs a)) 0 0 = (j, n)" by fastforce
  show ?case
  proof (cases "n > 0")
    case True
    then show ?thesis
      using Cons.prems reservoir_range_order [OF r] by (force simp: r bset_def)
  next
    case False
    then have none: "\<forall>x\<in>bset bs a. \<not> ok x" using reservoir_range_order(1) [OF r] by (auto simp: bset_def)
    have "\<exists>b\<in>set as. i \<in> bset bs b \<and> ok i \<and> (\<forall>a'\<in>set as. a' < b \<longrightarrow> (\<forall>j\<in>bset bs a'. \<not> ok j))"
      using Cons False by (simp add: r)
    with none show ?thesis by auto
  qed
qed simp

section \<open>Invariant\<close>

definition keys :: "PieceQueue \<Rightarrow> int set" where
  "keys pq = fst ` set (pieces pq)"

definition avail :: "PieceQueue \<Rightarrow> int \<Rightarrow> int" where
  "avail pq idx = mget 0 (availability pq) idx"

definition prio :: "PieceQueue \<Rightarrow> int set" where
  "prio pq = (case priority pq of None \<Rightarrow> {} | Some p \<Rightarrow> set p)"

definition pq_inv :: "PieceQueue \<Rightarrow> bool" where
  "pq_inv pq \<longleftrightarrow>
     distinct (map fst (pieces pq)) \<and> (\<forall>(i, pw)\<in>set (pieces pq). pw_Index pw = i) \<and>
     buckets_ok (buckets pq) \<and>
     (\<forall>a. bset (buckets pq) a = {i \<in> keys pq. avail pq i = a}) \<and>
     done_pieces pq \<inter> keys pq = {} \<and> pending pq \<subseteq> keys pq \<and> prio pq \<subseteq> keys pq \<and>
     length (cancelCh pq) \<le> 64"

lemma pq_invD:
  assumes "pq_inv pq"
  shows "distinct (map fst (pieces pq))" "buckets_ok (buckets pq)"
    "bset (buckets pq) a = {i \<in> keys pq. avail pq i = a}"
    "done_pieces pq \<inter> keys pq = {}" "pending pq \<subseteq> keys pq" "prio pq \<subseteq> keys pq"
    "length (cancelCh pq) \<le> 64"
  using assms unfolding pq_inv_def by blast+

lemma pq_inv_pw:
  assumes "pq_inv pq" "i \<in> keys pq"
  shows "map_of (pieces pq) i = Some (mget zeroPieceWork (pieces pq) i)"
    "pw_Index (mget zeroPieceWork (pieces pq) i) = i"
proof -
  obtain pw where pw: "map_of (pieces pq) i = Some pw"
    using assms(2) by (auto simp: keys_def dest: weak_map_of_SomeI)
  then have "pw_Index pw = i"
    using assms(1) by (auto simp: pq_inv_def dest: map_of_SomeD)
  with pw show "map_of (pieces pq) i = Some (mget zeroPieceWork (pieces pq) i)"
    "pw_Index (mget zeroPieceWork (pieces pq) i) = i"
    by (simp_all add: mget_def)
qed

lemma finite_keys [simp]: "finite (keys pq)"
  by (simp add: keys_def)

lemma keys_iff: "i \<in> keys pq \<longleftrightarrow> map_of (pieces pq) i \<noteq> None"
  by (metis keys_def map_of_eq_None_iff)

lemmas pq_view_defs = keys_def avail_def prio_def

lemma pq_views [simp]:
  "keys (signal pq) = keys pq" "avail (signal pq) = avail pq" "prio (signal pq) = prio pq"
  "pq_inv (signal pq) = pq_inv pq"
  by (simp_all add: signal_def pq_view_defs pq_inv_def fun_eq_iff)

lemma pq_views_endgame [simp]:
  "keys (enterEndgame pq) = keys pq" "avail (enterEndgame pq) = avail pq"
  "prio (enterEndgame pq) = prio pq" "pieces (enterEndgame pq) = pieces pq"
  "pending (enterEndgame pq) = pending pq" "done_pieces (enterEndgame pq) = done_pieces pq"
  "skipMask (enterEndgame pq) = skipMask pq" "sequential (enterEndgame pq) = sequential pq"
  "buckets (enterEndgame pq) = buckets pq" "priority (enterEndgame pq) = priority pq"
  "cancelCh (enterEndgame pq) = cancelCh pq" "totalPieces (enterEndgame pq) = totalPieces pq"
  "availability (enterEndgame pq) = availability pq"
  by (simp_all add: enterEndgame_def pq_view_defs Let_def fun_eq_iff)

lemma pq_inv_enterEndgame [simp]: "pq_inv (enterEndgame pq) = pq_inv pq"
  by (simp add: pq_inv_def)

lemma pq_inv_pending:
  "pq_inv pq \<Longrightarrow> P \<subseteq> keys pq \<Longrightarrow> pq_inv (pq\<lparr>pending := P\<rparr>)"
  by (simp add: pq_inv_def pq_view_defs)

lemma pq_inv_Return: "pq_inv pq \<Longrightarrow> pq_inv (Return pq pw)"
  unfolding Return_def by (simp, rule pq_inv_pending) (auto dest: pq_invD(5))

lemma pq_inv_UpdateSkipMask: "pq_inv pq \<Longrightarrow> pq_inv (UpdateSkipMask pq m)"
  by (simp add: UpdateSkipMask_def signal_def pq_inv_def pq_view_defs)

lemma Complete_views:
  "keys (Complete pq i) = keys pq - {i}" "avail (Complete pq i) = avail pq"
  "prio (Complete pq i) = prio pq - {i}" "pending (Complete pq i) = pending pq - {i}"
  "done_pieces (Complete pq i) = insert i (done_pieces pq)"
  "endgame (Complete pq i) = endgame pq" "skipMask (Complete pq i) = skipMask pq"
  "buckets (Complete pq i) = delBucket i (avail pq i) (buckets pq)"
  "pieces (Complete pq i) = AList.delete i (pieces pq)" "waitCh (Complete pq i)"
  by (simp_all add: Complete_def Let_def signal_def pq_view_defs fun_eq_iff split: option.splits)

lemma pq_inv_Complete:
  assumes inv: "pq_inv pq"
  shows "pq_inv (Complete pq i)"
proof -
  have "length (cancelCh (Complete pq i)) \<le> 64"
    using pq_invD(7) [OF inv] by (simp add: Complete_def Let_def signal_def)
  moreover have "bset (delBucket i (avail pq i) (buckets pq)) a
      = {j \<in> keys pq - {i}. avail pq j = a}" for a
    using pq_invD(3) [OF inv] by (auto simp: bset_delBucket)
  moreover have "\<forall>(j, pw)\<in>set (AList.delete i (pieces pq)). pw_Index pw = j"
    using inv by (auto simp: pq_inv_def AList.delete_eq)
  ultimately show ?thesis
    using pq_invD [OF inv]
    by (auto simp: pq_inv_def Complete_views buckets_ok_delBucket distinct_delete)
qed

lemma bumpAvail_views:
  "keys (bumpAvail d pq i) = keys pq" "prio (bumpAvail d pq i) = prio pq"
  "avail (bumpAvail d pq i) = (avail pq)(i := avail pq i + d)"
  "pieces (bumpAvail d pq i) = pieces pq" "pending (bumpAvail d pq i) = pending pq"
  "done_pieces (bumpAvail d pq i) = done_pieces pq" "cancelCh (bumpAvail d pq i) = cancelCh pq"
  "buckets (bumpAvail d pq i) = moveBucket i (avail pq i) (avail pq i + d) (buckets pq)"
  by (auto simp: bumpAvail_def Let_def pq_view_defs)

lemma pq_inv_bumpAvail:
  assumes inv: "pq_inv pq" and "i \<in> keys pq"
  shows "pq_inv (bumpAvail d pq i)"
proof -
  have "bset (moveBucket i (avail pq i) (avail pq i + d) (buckets pq)) a
      = {j \<in> keys pq. ((avail pq)(i := avail pq i + d)) j = a}" for a
    using pq_invD(3) [OF inv] \<open>i \<in> keys pq\<close> by (auto simp: bset_moveBucket)
  with inv show ?thesis
    unfolding pq_inv_def by (simp add: bumpAvail_views buckets_ok_moveBucket)
qed

definition bumpAll :: "int \<Rightarrow> Bitfield option \<Rightarrow> PieceQueue \<Rightarrow> int list \<Rightarrow> PieceQueue" where
  "bumpAll d bf = foldl (\<lambda>q idx. if peerHas bf idx then bumpAvail d q idx else q)"

lemma bumpAll_frame: "\<exists>av bs. bumpAll d bf pq xs = pq\<lparr>availability := av, buckets := bs\<rparr>"
proof (induction xs arbitrary: pq)
  case Nil
  show ?case
    by (rule exI [of _ "availability pq"], rule exI [of _ "buckets pq"]) (simp add: bumpAll_def)
next
  case (Cons x xs)
  show ?case using Cons [of pq] Cons [of "bumpAvail d pq x"]
    by (auto simp: bumpAll_def bumpAvail_def Let_def)
qed

lemma bumpAll_avail:
  "distinct xs \<Longrightarrow> avail (bumpAll d bf pq xs) i =
     avail pq i + (if i \<in> set xs \<and> peerHas bf i then d else 0)"
  by (induction xs arbitrary: pq) (auto simp: bumpAll_def bumpAvail_views)

lemma pq_inv_bumpAll: "pq_inv pq \<Longrightarrow> set xs \<subseteq> keys pq \<Longrightarrow> pq_inv (bumpAll d bf pq xs)"
  by (induction xs arbitrary: pq) (auto simp: bumpAll_def bumpAvail_views pq_inv_bumpAvail)


lemma Add_bumpAll:
  "AddPeerBitfield \<omega> pq bf = signal (bumpAll 1 bf pq (range_order \<omega> (map fst (pieces pq))))"
  "RemovePeerBitfield \<omega> pq bf = bumpAll (- 1) bf pq (range_order \<omega> (map fst (pieces pq)))"
  by (simp_all add: AddPeerBitfield_def RemovePeerBitfield_def bumpAll_def)

lemma peer_bitfield_frame:
  "\<exists>av bs. AddPeerBitfield \<omega> pq bf = pq\<lparr>availability := av, buckets := bs, waitCh := True\<rparr>"
  "\<exists>av bs. RemovePeerBitfield \<omega> pq bf = pq\<lparr>availability := av, buckets := bs\<rparr>"
  using bumpAll_frame [of 1 bf pq] bumpAll_frame [of "- 1" bf pq]
  by (auto simp: Add_bumpAll signal_def) (metis PieceQueue.update_convs)+

lemma peer_bitfield_keys [simp]:
  "keys (AddPeerBitfield \<omega> pq bf) = keys pq" "keys (RemovePeerBitfield \<omega> pq bf) = keys pq"
  "endgame (AddPeerBitfield \<omega> pq bf) = endgame pq"
  "endgame (RemovePeerBitfield \<omega> pq bf) = endgame pq"
  "pending (AddPeerBitfield \<omega> pq bf) = pending pq"
  "pending (RemovePeerBitfield \<omega> pq bf) = pending pq"
  "done_pieces (AddPeerBitfield \<omega> pq bf) = done_pieces pq"
  "done_pieces (RemovePeerBitfield \<omega> pq bf) = done_pieces pq"
  using peer_bitfield_frame [of \<omega> pq bf] by (auto simp: keys_def)

lemma peer_bitfield_avail:
  assumes "pq_inv pq"
  shows "avail (AddPeerBitfield \<omega> pq bf) i =
      avail pq i + (if i \<in> keys pq \<and> peerHas bf i then 1 else 0)"
    "avail (RemovePeerBitfield \<omega> pq bf) i =
      avail pq i - (if i \<in> keys pq \<and> peerHas bf i then 1 else 0)"
  using pq_invD(1) [OF assms] by (simp_all add: Add_bumpAll bumpAll_avail keys_def)

lemma pq_inv_peer_bitfield:
  assumes "pq_inv pq"
  shows "pq_inv (AddPeerBitfield \<omega> pq bf)" "pq_inv (RemovePeerBitfield \<omega> pq bf)"
  using assms by (simp_all add: Add_bumpAll pq_inv_bumpAll keys_def)

lemma PeerHave_views:
  "keys (PeerHave pq i) = keys pq" "prio (PeerHave pq i) = prio pq"
  "avail (PeerHave pq i) = (avail pq)(i := avail pq i + 1)"
  "endgame (PeerHave pq i) = endgame pq" "pending (PeerHave pq i) = pending pq"
  by (auto simp: PeerHave_def Let_def signal_def pq_view_defs)

lemma pq_inv_PeerHave:
  assumes inv: "pq_inv pq"
  shows "pq_inv (PeerHave pq i)"
proof (cases "i \<in> keys pq")
  case True
  then have "PeerHave pq i = signal (bumpAvail 1 pq i)"
    by (simp add: PeerHave_def bumpAvail_def Let_def keys_iff)
  then show ?thesis using pq_inv_bumpAvail [OF inv True] by simp
next
  case False
  let ?q = "pq\<lparr>availability := AList.update i (avail pq i + 1) (availability pq)\<rparr>"
  have eq: "PeerHave pq i = signal ?q"
    using False by (simp add: PeerHave_def Let_def keys_iff avail_def)
  have views: "keys ?q = keys pq" "prio ?q = prio pq" "avail ?q = (avail pq)(i := avail pq i + 1)"
    by (auto simp: pq_view_defs)
  have "{j \<in> keys pq. ((avail pq)(i := avail pq i + 1)) j = a} = {j \<in> keys pq. avail pq j = a}" for a
    using False by auto
  with inv have "pq_inv ?q" by (simp add: pq_inv_def views)
  then show ?thesis by (simp add: eq)
qed

section \<open>Construction\<close>

lemma foldl_update_pieces:
  assumes "distinct (map fst m)" "\<forall>(i, pw)\<in>set m. pw_Index pw = i"
  shows "distinct (map fst (foldl (\<lambda>m pw. AList.update (pw_Index pw) pw m) m pws)) \<and>
    (\<forall>(i, pw)\<in>set (foldl (\<lambda>m pw. AList.update (pw_Index pw) pw m) m pws). pw_Index pw = i) \<and>
    fst ` set (foldl (\<lambda>m pw. AList.update (pw_Index pw) pw m) m pws) = fst ` set m \<union> pw_Index ` set pws"
  using assms
proof (induction pws arbitrary: m)
  case (Cons pw pws)
  have "\<forall>(i, pw')\<in>set (AList.update (pw_Index pw) pw m). pw_Index pw' = i"
    using Cons.prems(2) by (induction m) auto
  then show ?case using Cons.IH [of "AList.update (pw_Index pw) pw m"] Cons.prems
    by (simp add: distinct_update)
qed simp

lemma foldl_insert_indices:
  "distinct b \<Longrightarrow> distinct (foldl (\<lambda>b pw. List.insert (f pw) b) b pws) \<and>
     set (foldl (\<lambda>b pw. List.insert (f pw) b) b pws) = set b \<union> f ` set pws"
  by (induction pws arbitrary: b) auto

lemma New_views:
  fixes pws skip n fl sq
  defines "pq \<equiv> NewPieceQueueWithOptions pws skip n fl sq"
  shows "keys pq = {i \<in> pw_Index ` set pws. \<not> masked skip i}"
    "avail pq i = 0" "pending pq = {}" "done_pieces pq = {}" "\<not> endgame pq" "sequential pq = sq"
    "prio pq = (if fl \<and> 0 < n then keys pq \<inter> {0, n - 1} else {})"
    "pq_inv pq"
proof -
  let ?f = "filter (\<lambda>pw. \<not> masked skip (pw_Index pw)) pws"
  let ?ps = "foldl (\<lambda>m pw. AList.update (pw_Index pw) pw m) [] ?f"
  let ?b = "foldl (\<lambda>b pw. List.insert (pw_Index pw) b) [] ?f"
  note ps = foldl_update_pieces [of "[]" ?f, simplified]
  note b = foldl_insert_indices [of "[]" pw_Index ?f, simplified]
  have keys: "keys pq = pw_Index ` set ?f"
    using ps by (simp add: keys_def pq_def NewPieceQueueWithOptions_def Let_def)
  then show k: "keys pq = {i \<in> pw_Index ` set pws. \<not> masked skip i}" by auto
  show av: "avail pq i = 0" for i
    by (simp add: avail_def pq_def NewPieceQueueWithOptions_def Let_def)
  show fields: "pending pq = {}" "done_pieces pq = {}" "\<not> endgame pq" "sequential pq = sq"
    by (simp_all add: pq_def NewPieceQueueWithOptions_def Let_def)
  have mem: "i \<in> keys pq \<longleftrightarrow> map_of ?ps i \<noteq> None" for i
    by (simp add: keys_iff pq_def NewPieceQueueWithOptions_def Let_def)
  have pr: "priority pq =
      (if fl \<and> n > 0
       then Some (if n - 1 \<noteq> 0 \<and> n - 1 \<in> keys pq
                  then List.insert (n - 1) (if 0 \<in> keys pq then [0] else [])
                  else (if 0 \<in> keys pq then [0] else []))
       else None)"
    unfolding mem by (simp add: pq_def NewPieceQueueWithOptions_def Let_def)
  show p: "prio pq = (if fl \<and> 0 < n then keys pq \<inter> {0, n - 1} else {})"
    unfolding prio_def pr by auto
  have fields2: "pieces pq = ?ps" "cancelCh pq = []" "buckets pq = (if ?b \<noteq> [] then [(0, ?b)] else [])"
    by (simp_all add: pq_def NewPieceQueueWithOptions_def Let_def)
  have bs: "bset (buckets pq) a = (if a = 0 then keys pq else {})" for a
    using b by (auto simp: fields2 bset_def mget_def keys)
  show "pq_inv pq"
    unfolding pq_inv_def bs av
    using ps b by (auto simp: fields fields2 p buckets_ok_def)
qed

text \<open>Which candidate the code prefers.\<close>

definition preferred :: "PieceQueue \<Rightarrow> (int \<Rightarrow> bool) \<Rightarrow> int \<Rightarrow> bool" where
  "preferred pq ok i \<longleftrightarrow>
     (if sequential pq then \<forall>j\<in>keys pq. ok j \<longrightarrow> i \<le> j
      else if \<exists>j\<in>prio pq. ok j then i \<in> prio pq
      else \<forall>j\<in>keys pq. ok j \<longrightarrow> avail pq i \<le> avail pq j)"

lemma find_sorted_Some:
  assumes "find P xs = Some x" "sorted xs"
  shows "x \<in> set xs \<and> P x \<and> (\<forall>y\<in>set xs. P y \<longrightarrow> x \<le> y)"
  using assms by (induction xs) (auto split: if_splits)

lemma Pick_choice:
  assumes inv: "pq_inv pq0"
  defines "pq \<equiv> enterEndgame pq0"
  shows "(Pick \<omega> src pq0 has = (None, pq) \<and> (\<forall>i\<in>keys pq. \<not> pickable pq has i)) \<or>
    (\<exists>i. Pick \<omega> src pq0 has = handOut pq i \<and> i \<in> keys pq \<and> pickable pq has i \<and>
       preferred pq (pickable pq has) i)"
proof (cases "sequential pq")
  case True
  let ?xs = "sort (range_order \<omega> (map fst (pieces pq)))"
  show ?thesis
  proof (cases "find (pickable pq has) ?xs")
    case None
    then have "\<forall>i\<in>keys pq. \<not> pickable pq has i"
      by (simp add: find_None_iff keys_def)
    then show ?thesis using True None by (simp add: Pick_def Let_def flip: pq_def)
  next
    case (Some i)
    then show ?thesis
      using True find_sorted_Some [OF Some]
      by (auto simp: Pick_def Let_def preferred_def keys_def simp flip: pq_def)
  qed
next
  case False
  let ?ok = "pickable pq has"
  let ?pr = "case priority pq of None \<Rightarrow> [] | Some p \<Rightarrow> p"
  have pr: "set ?pr = prio pq" by (simp add: prio_def split: option.splits)
  obtain i n where r: "reservoir src ?ok (range_order \<omega> ?pr) 0 0 = (i, n)" by fastforce
  note R = reservoir_range_order [OF r, unfolded pr]
  show ?thesis
  proof (cases "n > 0")
    case True
    then have "Pick \<omega> src pq0 has = handOut pq i"
      using False r by (simp add: Pick_def Let_def flip: pq_def)
    moreover have "i \<in> keys pq" "?ok i" "i \<in> prio pq"
      using R True pq_invD(6) [of pq] inv by (auto simp: pq_def)
    ultimately show ?thesis using False by (auto simp: preferred_def)
  next
    case n: False
    let ?as = "sort (map fst (filter (\<lambda>(a, b). b \<noteq> []) (range_order (\<omega> \<circ> fst) (buckets pq))))"
    have eq: "Pick \<omega> src pq0 has =
        (case pickBuckets \<omega> src ?ok (buckets pq) ?as of None \<Rightarrow> (None, pq) | Some idx \<Rightarrow> handOut pq idx)"
      using False r n by (simp add: Pick_def Let_def flip: pq_def)
    have bs: "buckets_ok (buckets pq)" "\<And>a. bset (buckets pq) a = {i \<in> keys pq. avail pq i = a}"
      using pq_invD(2,3) [of pq] inv by (simp_all add: pq_def)
    have "set ?as = fst ` set (buckets pq)"
      using bs(1) by (force simp: buckets_ok_def)
    then have as: "a \<in> set ?as \<longleftrightarrow> {i \<in> keys pq. avail pq i = a} \<noteq> {}" for a
      using bset_nonempty [OF bs(1), of a] bs(2) by simp
    show ?thesis
    proof (cases "pickBuckets \<omega> src ?ok (buckets pq) ?as")
      case None
      then have "\<forall>i\<in>keys pq. \<not> ?ok i"
        using as unfolding pickBuckets_None bs(2) by blast
      then show ?thesis using eq None by simp
    next
      case (Some j)
      obtain a where a: "a \<in> set ?as" "j \<in> keys pq" "avail pq j = a" "?ok j"
        "\<forall>a'\<in>set ?as. a' < a \<longrightarrow> (\<forall>k\<in>bset (buckets pq) a'. \<not> ?ok k)"
        using pickBuckets_Some [OF Some] bs(2) by auto
      have "\<forall>k\<in>keys pq. ?ok k \<longrightarrow> avail pq j \<le> avail pq k"
        using a(3,5) as unfolding bs(2) by (metis (mono_tags, lifting) empty_iff mem_Collect_eq not_le)
      then have "preferred pq ?ok j" using False n R(1) by (simp add: preferred_def)
      then show ?thesis using eq Some a by auto
    qed
  qed
qed

section \<open>The queue under its workers\<close>

text \<open>
  What \<open>runWorkers\<close> does with the queue, one rule per critical section of a worker. The state is the
  queue, the pieces the workers hold (with multiplicity) and the rest of the swarm: the connected
  peers, the pieces held by workers that have passed the second \<open>IsDone\<close> check and not yet called
  \<open>Complete\<close>, the results they have produced, and the peers that have left.

  A worker registers the bitfield of its peer and unregisters the same slice when it leaves. In
  between \<open>Have\<close> messages change the slice in place (\<open>safeBitfieldSet\<close>), so a peer has two bitfields: the one that
  was counted and the current one, which is taken off in the end. \<open>PeerHave\<close> is called nowhere.
  The workers for web seeds take the same steps except for the registration. A result is recorded
  when its piece is completed; a worker cancelled at that point does not get to hand it over.
\<close>

definition safeBitfieldSet :: "bool \<Rightarrow> Bitfield option \<Rightarrow> int \<Rightarrow> Bitfield option" where
  "safeBitfieldSet haveAll bitfield index =
     (if haveAll then bitfield
      else case bitfield of None \<Rightarrow> None | Some bf \<Rightarrow> Some (snd (SetPiece bf index)))"

record connPeer =
  cp_registered :: "Bitfield option"
  cp_bitfield :: "Bitfield option"
  cp_haveAll :: bool

record swarm =
  sw_peers :: "connPeer multiset"
  sw_checked :: "int multiset"
  sw_results :: "int list"
  sw_gone :: "connPeer multiset"

definition newSwarm :: swarm where
  "newSwarm = \<lparr>sw_peers = {#}, sw_checked = {#}, sw_results = [], sw_gone = {#}\<rparr>"

type_synonym pq_state = "PieceQueue \<times> int multiset \<times> swarm"

inductive pq_step :: "pq_state \<Rightarrow> pq_state \<Rightarrow> bool" where
  join: "p = \<lparr>cp_registered = bf, cp_bitfield = bf, cp_haveAll = h\<rparr> \<Longrightarrow>
    pq_step (pq, held, sw) (AddPeerBitfield \<omega> pq bf, held, sw\<lparr>sw_peers := add_mset p (sw_peers sw)\<rparr>)"
| have_msg: "p \<in># sw_peers sw \<Longrightarrow> p' = p\<lparr>cp_bitfield := safeBitfieldSet (cp_haveAll p) (cp_bitfield p) i\<rparr> \<Longrightarrow>
    pq_step (pq, held, sw) (pq, held, sw\<lparr>sw_peers := add_mset p' (sw_peers sw - {#p#})\<rparr>)"
| leave: "p \<in># sw_peers sw \<Longrightarrow>
    pq_step (pq, held, sw) (RemovePeerBitfield \<omega> pq (cp_bitfield p), held,
      sw\<lparr>sw_peers := sw_peers sw - {#p#}, sw_gone := add_mset p (sw_gone sw)\<rparr>)"
| pick: "Pick \<omega> src pq has = (Some pw, pq') \<Longrightarrow>
    pq_step (pq, held, sw) (pq', add_mset (pw_Index pw) held, sw)"
| idle: "Pick \<omega> src pq has = (None, pq') \<Longrightarrow> pq_step (pq, held, sw) (pq', held, sw)"
| giveback: "pw_Index pw \<in># held - sw_checked sw \<Longrightarrow>
    pq_step (pq, held, sw) (Return pq pw, held - {#pw_Index pw#}, sw)"
| abandon: "i \<in># held - sw_checked sw \<Longrightarrow> IsDone pq i \<Longrightarrow> pq_step (pq, held, sw) (pq, held - {#i#}, sw)"
| check: "i \<in># held - sw_checked sw \<Longrightarrow> \<not> IsDone pq i \<Longrightarrow>
    pq_step (pq, held, sw) (pq, held, sw\<lparr>sw_checked := add_mset i (sw_checked sw)\<rparr>)"
| complete: "i \<in># sw_checked sw \<Longrightarrow>
    pq_step (pq, held, sw) (Complete pq i, held - {#i#},
      sw\<lparr>sw_checked := sw_checked sw - {#i#}, sw_results := sw_results sw @ [i]\<rparr>)"
| skip: "pq_step (pq, held, sw) (UpdateSkipMask pq m, held, sw)"

text \<open>
  The peers that were counted for a piece, and those that left after they had announced it with a
  \<open>Have\<close> message and were taken off without having been counted.
\<close>

definition countedWith :: "connPeer multiset \<Rightarrow> int \<Rightarrow> int" where
  "countedWith peers i = int (size (filter_mset (\<lambda>p. peerHas (cp_registered p) i) peers))"

definition uncountedWith :: "connPeer multiset \<Rightarrow> int \<Rightarrow> int" where
  "uncountedWith peers i = int (size (filter_mset (\<lambda>p. peerHas (cp_bitfield p) i \<and> \<not> peerHas (cp_registered p) i) peers))"

definition grown :: "connPeer \<Rightarrow> bool" where
  "grown p \<longleftrightarrow> (\<forall>i. peerHas (cp_registered p) i \<longrightarrow> peerHas (cp_bitfield p) i)"

definition run_inv :: "int set \<Rightarrow> pq_state \<Rightarrow> bool" where
  "run_inv K s = (case s of (pq, held, sw) \<Rightarrow>
     pq_inv pq \<and> keys pq \<union> done_pieces pq = K \<and> set_mset held \<subseteq> K \<and> sw_checked sw \<subseteq># held \<and>
     set (sw_results sw) = done_pieces pq \<and>
     (\<forall>p\<in>#sw_peers sw. grown p) \<and>
     (\<forall>i\<in>keys pq. avail pq i = countedWith (sw_peers sw) i - uncountedWith (sw_gone sw) i) \<and>
     (\<not> endgame pq \<longrightarrow> held = mset_set (pending pq) \<and> distinct (sw_results sw)))"

lemma handOut_views:
  "handOut pq i = (Some pw, q) \<Longrightarrow>
     pw = mget zeroPieceWork (pieces pq) i \<and> q = pq\<lparr>pending := insert i (pending pq)\<rparr>"
  by (auto simp: handOut_def)

lemma Pick_Some:
  assumes inv: "pq_inv pq" and pick: "Pick \<omega> src pq has = (Some pw, q)"
  defines "e \<equiv> enterEndgame pq"
  shows "pw_Index pw \<in> keys pq" "map_of (pieces pq) (pw_Index pw) = Some pw"
    "pickable e has (pw_Index pw)" "preferred e (pickable e has) (pw_Index pw)"
    "q = e\<lparr>pending := insert (pw_Index pw) (pending pq)\<rparr>"
proof -
  obtain i where h: "handOut e i = (Some pw, q)" and i: "i \<in> keys pq" "pickable e has i"
    "preferred e (pickable e has) i"
    using Pick_choice [OF inv, of \<omega> src has] pick by (auto simp: e_def)
  have "pw = mget zeroPieceWork (pieces pq) i" "q = e\<lparr>pending := insert i (pending pq)\<rparr>"
    using handOut_views [OF h] by (simp_all add: e_def)
  with i pq_inv_pw [OF inv i(1)]
  show "pw_Index pw \<in> keys pq" "map_of (pieces pq) (pw_Index pw) = Some pw"
    "pickable e has (pw_Index pw)" "preferred e (pickable e has) (pw_Index pw)"
    "q = e\<lparr>pending := insert (pw_Index pw) (pending pq)\<rparr>"
    by simp_all
qed

lemma Pick_None:
  assumes inv: "pq_inv pq" and pick: "Pick \<omega> src pq has = (None, q)"
  shows "q = enterEndgame pq" "\<forall>i\<in>keys pq. \<not> pickable (enterEndgame pq) has i"
  using Pick_choice [OF inv, of \<omega> src has] pick by (auto simp: handOut_def)

lemma endgame_enter: "\<not> endgame (enterEndgame pq) \<Longrightarrow> \<not> endgame pq"
  by (auto simp: enterEndgame_def)

lemma counted_add:
  "countedWith (add_mset p peers) i = countedWith peers i + (if peerHas (cp_registered p) i then 1 else 0)"
  "uncountedWith (add_mset p peers) i =
     uncountedWith peers i + (if peerHas (cp_bitfield p) i \<and> \<not> peerHas (cp_registered p) i then 1 else 0)"
  by (simp_all add: countedWith_def uncountedWith_def)

lemma counted_remove:
  "p \<in># peers \<Longrightarrow> countedWith (peers - {#p#}) i = countedWith peers i - (if peerHas (cp_registered p) i then 1 else 0)"
  using counted_add(1) [of p "peers - {#p#}" i] by simp

lemma grown_have: "grown p \<Longrightarrow> grown (p\<lparr>cp_bitfield := safeBitfieldSet (cp_haveAll p) (cp_bitfield p) j\<rparr>)"
  by (auto simp: grown_def safeBitfieldSet_def peerHas_def HasPiece_SetPiece split: option.splits)

lemma mset_set_remove1: "finite A \<Longrightarrow> mset_set A - {#i#} = mset_set (A - {i})"
  by (cases "i \<in> A") (simp_all add: mset_set.remove)

lemma finite_pending: "pq_inv pq \<Longrightarrow> finite (pending pq)"
  using pq_invD(5) finite_subset finite_keys by blast

lemma run_inv_start: "pq_inv pq \<Longrightarrow> done_pieces pq = {} \<Longrightarrow> pending pq = {} \<Longrightarrow> (\<And>i. avail pq i = 0) \<Longrightarrow>
  run_inv (keys pq) (pq, {#}, newSwarm)"
  by (simp add: run_inv_def newSwarm_def countedWith_def uncountedWith_def)


lemma run_inv_pick:
  assumes run: "run_inv K (pq, held, sw)" and pick: "Pick \<omega> src pq has = (Some pw, pq')"
  shows "run_inv K (pq', add_mset (pw_Index pw) held, sw)"
proof -
  have inv: "pq_inv pq" and sub: "sw_checked sw \<subseteq># held" using run by (simp_all add: run_inv_def)
  note P = Pick_Some [OF inv pick]
  have "pq_inv pq'" unfolding P(5)
    by (rule pq_inv_pending) (use inv P(1) pq_invD(5) [OF inv] in auto)
  moreover have "keys pq' = keys pq" "done_pieces pq' = done_pieces pq" "avail pq' = avail pq"
    "endgame pq' = endgame (enterEndgame pq)" "pending pq' = insert (pw_Index pw) (pending pq)"
    by (auto simp: P(5) pq_view_defs)
  moreover have "pw_Index pw \<notin> pending pq" if "\<not> endgame pq'"
    using P(3) that by (simp add: P(5) pickable_def)
  moreover have "sw_checked sw \<subseteq># add_mset (pw_Index pw) held"
    using sub by (auto simp: subseteq_mset_def le_SucI)
  ultimately show ?thesis
    using run P(1) finite_pending [OF inv] endgame_enter [of pq] by (auto simp: run_inv_def)
qed

lemma run_inv_idle:
  assumes run: "run_inv K (pq, held, sw)" and pick: "Pick \<omega> src pq has = (None, pq')"
  shows "run_inv K (pq', held, sw)"
proof -
  have inv: "pq_inv pq" using run by (simp add: run_inv_def)
  show ?thesis
    using run endgame_enter [of pq] by (auto simp: run_inv_def Pick_None(1) [OF inv pick])
qed

lemma drop_unchecked: "i \<in># held - C \<Longrightarrow> C \<subseteq># held \<Longrightarrow> C \<subseteq># held - {#i#}"
  by (auto simp: subseteq_mset_def in_diff_count)

lemma run_inv_Return:
  assumes run: "run_inv K (pq, held, sw)" and i: "pw_Index pw \<in># held - sw_checked sw"
  shows "run_inv K (Return pq pw, held - {#pw_Index pw#}, sw)"
proof -
  have inv: "pq_inv pq" and sub: "sw_checked sw \<subseteq># held" using run by (simp_all add: run_inv_def)
  have "keys (Return pq pw) = keys pq" "done_pieces (Return pq pw) = done_pieces pq"
    "avail (Return pq pw) = avail pq" "endgame (Return pq pw) = endgame pq"
    "pending (Return pq pw) = pending pq - {pw_Index pw}"
    by (auto simp: Return_def signal_def pq_view_defs)
  then show ?thesis
    using run pq_inv_Return [OF inv, of pw] drop_unchecked [OF i sub]
    by (auto simp: run_inv_def mset_set_remove1 [OF finite_pending [OF inv]] dest: in_diffD)
qed

lemma run_inv_abandon:
  assumes run: "run_inv K (pq, held, sw)" and "IsDone pq i" and i: "i \<in># held - sw_checked sw"
  shows "run_inv K (pq, held - {#i#}, sw)"
proof -
  have inv: "pq_inv pq" and sub: "sw_checked sw \<subseteq># held" using run by (simp_all add: run_inv_def)
  have "i \<notin> pending pq" using \<open>IsDone pq i\<close> pq_invD(4,5) [OF inv] by (auto simp: IsDone_def)
  then show ?thesis
    using run drop_unchecked [OF i sub]
    by (auto simp: run_inv_def mset_set_remove1 [OF finite_pending [OF inv]] dest: in_diffD)
qed

lemma run_inv_check:
  assumes "run_inv K (pq, held, sw)" and i: "i \<in># held - sw_checked sw"
  shows "run_inv K (pq, held, sw\<lparr>sw_checked := add_mset i (sw_checked sw)\<rparr>)"
proof -
  have "add_mset i (sw_checked sw) \<subseteq># held"
    using assms by (auto simp: run_inv_def subseteq_mset_def in_diff_count Suc_le_eq)
  then show ?thesis using assms(1) by (simp add: run_inv_def)
qed

lemma run_inv_Complete:
  assumes run: "run_inv K (pq, held, sw)" and i: "i \<in># sw_checked sw"
  shows "run_inv K (Complete pq i, held - {#i#}, sw\<lparr>sw_checked := sw_checked sw - {#i#}, sw_results := sw_results sw @ [i]\<rparr>)"
proof -
  have inv: "pq_inv pq" and sub: "sw_checked sw \<subseteq># held" using run by (simp_all add: run_inv_def)
  have h: "i \<in># held" using i sub by (rule mset_subset_eqD [rotated])
  have "sw_checked sw - {#i#} \<subseteq># held - {#i#}" using sub by (auto simp: subseteq_mset_def diff_le_mono)
  moreover have "i \<notin> done_pieces pq" if "\<not> endgame pq"
    using run h that pq_invD(4,5) [OF inv] finite_pending [OF inv] by (auto simp: run_inv_def)
  ultimately show ?thesis
    using run h pq_inv_Complete [OF inv, of i]
    by (auto simp: run_inv_def Complete_views mset_set_remove1 [OF finite_pending [OF inv]]
        dest: in_diffD)
qed

lemma run_inv_UpdateSkipMask:
  assumes "run_inv K (pq, held, sw)"
  shows "run_inv K (UpdateSkipMask pq m, held, sw)"
proof -
  have "keys (UpdateSkipMask pq m) = keys pq" "avail (UpdateSkipMask pq m) = avail pq"
    "done_pieces (UpdateSkipMask pq m) = done_pieces pq"
    "pending (UpdateSkipMask pq m) = pending pq" "endgame (UpdateSkipMask pq m) = endgame pq"
    by (auto simp: UpdateSkipMask_def signal_def pq_view_defs)
  with assms show ?thesis by (simp add: run_inv_def pq_inv_UpdateSkipMask)
qed

lemma run_inv_join:
  assumes "run_inv K (pq, held, sw)" "p = \<lparr>cp_registered = bf, cp_bitfield = bf, cp_haveAll = h\<rparr>"
  shows "run_inv K (AddPeerBitfield \<omega> pq bf, held, sw\<lparr>sw_peers := add_mset p (sw_peers sw)\<rparr>)"
  using assms by (auto simp: run_inv_def pq_inv_peer_bitfield peer_bitfield_avail counted_add grown_def)

lemma run_inv_have:
  assumes "run_inv K (pq, held, sw)" "p \<in># sw_peers sw"
    and "p' = p\<lparr>cp_bitfield := safeBitfieldSet (cp_haveAll p) (cp_bitfield p) i\<rparr>"
  shows "run_inv K (pq, held, sw\<lparr>sw_peers := add_mset p' (sw_peers sw - {#p#})\<rparr>)"
proof -
  have "grown p'" using assms by (simp add: run_inv_def grown_have)
  moreover have "countedWith (add_mset p' (sw_peers sw - {#p#})) j = countedWith (sw_peers sw) j" for j
    using assms(2,3) by (simp add: counted_add counted_remove)
  ultimately show ?thesis using assms(1) by (auto simp: run_inv_def dest: in_diffD)
qed

lemma run_inv_leave:
  assumes "run_inv K (pq, held, sw)" "p \<in># sw_peers sw"
  shows "run_inv K (RemovePeerBitfield \<omega> pq (cp_bitfield p), held,
    sw\<lparr>sw_peers := sw_peers sw - {#p#}, sw_gone := add_mset p (sw_gone sw)\<rparr>)"
proof -
  have "grown p" using assms by (simp add: run_inv_def)
  then have "(if peerHas (cp_bitfield p) i then 1 else 0) = (if peerHas (cp_registered p) i then 1 else 0 :: int) +
      (if peerHas (cp_bitfield p) i \<and> \<not> peerHas (cp_registered p) i then 1 else 0)" for i
    by (auto simp: grown_def)
  then show ?thesis
    using assms by (auto simp: run_inv_def pq_inv_peer_bitfield peer_bitfield_avail counted_add counted_remove dest: in_diffD)
qed

interpretation queue_run: step_invariant pq_step "run_inv K" for K
proof
  fix s s' assume "pq_step s s'" "run_inv K s"
  then show "run_inv K s'"
    by cases (auto intro: run_inv_pick run_inv_idle run_inv_Return run_inv_abandon run_inv_check run_inv_Complete
        run_inv_UpdateSkipMask run_inv_join run_inv_have run_inv_leave)
qed

lemma run_inv_reachable:
  assumes "rtranclp pq_step (NewPieceQueueWithOptions pws skip n fl sq, {#}, newSwarm) s"
  shows "run_inv {i \<in> pw_Index ` set pws. \<not> masked skip i} s"
  using queue_run.reach_inv [OF assms] run_inv_start [OF New_views(8,4,3,2)]
  by (simp add: New_views(1))

text \<open>What one peer with every piece, a web seed for example, makes of the queue.\<close>

fun drain :: "(int \<Rightarrow> nat) \<Rightarrow> (nat \<Rightarrow> nat) \<Rightarrow> nat \<Rightarrow> PieceQueue \<Rightarrow> PieceQueue" where
  "drain \<omega> src 0 pq = pq"
| "drain \<omega> src (Suc k) pq =
     (case Pick \<omega> src pq (\<lambda>_. True) of
        (None, q) \<Rightarrow> q
      | (Some pw, q) \<Rightarrow> drain \<omega> src k (Complete q (pw_Index pw)))"

lemma drain_empty:
  assumes "pq_inv pq" "pending pq = {}" "skipMask pq = None"
  shows "keys (drain \<omega> src (card (keys pq)) pq) = {} \<and>
    done_pieces (drain \<omega> src (card (keys pq)) pq) = keys pq \<union> done_pieces pq"
  using assms
proof (induction "card (keys pq)" arbitrary: pq)
  case 0
  then show ?case by simp
next
  case (Suc k)
  note inv = \<open>pq_inv pq\<close>
  have ok: "\<forall>i\<in>keys pq. pickable (enterEndgame pq) (\<lambda>_. True) i"
    using Suc.prems pq_invD(4) [OF inv] by (auto simp: pickable_def masked_def)
  have "keys pq \<noteq> {}" using Suc.hyps(2) by auto
  obtain r q where r: "Pick \<omega> src pq (\<lambda>_. True) = (r, q)" by fastforce
  obtain pw where pw: "Pick \<omega> src pq (\<lambda>_. True) = (Some pw, q)"
    using Pick_None(2) [OF inv] r ok \<open>keys pq \<noteq> {}\<close> by (cases r) auto
  note P = Pick_Some [OF inv pw]
  let ?c = "Complete q (pw_Index pw)"
  have q: "pq_inv q" unfolding P(5)
    by (rule pq_inv_pending) (use inv P(1) Suc.prems(2) in auto)
  have k: "keys ?c = keys pq - {pw_Index pw}" "done_pieces ?c = insert (pw_Index pw) (done_pieces pq)"
    "pending ?c = {}" "skipMask ?c = None"
    using Suc.prems by (auto simp: Complete_views P(5) keys_def)
  have c: "k = card (keys ?c)" using Suc.hyps(2) P(1) by (simp add: k(1))
  have "drain \<omega> src (card (keys pq)) pq = drain \<omega> src k ?c"
    unfolding Suc.hyps(2) [symmetric] by (simp add: pw)
  moreover have "keys (drain \<omega> src k ?c) = {} \<and> done_pieces (drain \<omega> src k ?c) = keys ?c \<union> done_pieces ?c"
    using Suc.hyps(1) [OF c pq_inv_Complete [OF q] k(3,4)] unfolding c [symmetric] .
  ultimately show ?case using P(1) by (auto simp: k)
qed


lemma Pick_pieces: "Pick \<omega> src pq has = (r, q) \<Longrightarrow> pieces q = pieces pq"
  by (auto simp: Pick_def Let_def handOut_def split: prod.splits option.splits if_splits)

lemma keys_ops:
  "keys (Return pq pw) = keys pq" "keys (UpdateSkipMask pq m) = keys pq"
  "Pick \<omega> src pq has = (r, q) \<Longrightarrow> keys q = keys pq"
  by (simp_all add: Return_def UpdateSkipMask_def signal_def keys_def Pick_pieces)

interpretation queue_shrinks: step_decreasing pq_step "\<lambda>(pq, held, sw). keys pq"
proof
  fix s s' assume "pq_step s s'"
  then show "(case s' of (pq, held, sw) \<Rightarrow> keys pq) \<le> (case s of (pq, held, sw) \<Rightarrow> keys pq)"
    by cases (auto simp: Complete_views keys_ops)
qed

lemma Remaining_card:
  assumes "pq_inv pq"
  shows "Remaining pq = card {i \<in> keys pq. \<not> masked (skipMask pq) i}"
proof -
  have d: "distinct (map fst (pieces pq))" by (rule pq_invD(1) [OF assms])
  have "{i \<in> keys pq. \<not> masked (skipMask pq) i} =
      set (filter (\<lambda>i. \<not> masked (skipMask pq) i) (map fst (pieces pq)))"
    by (auto simp: keys_def)
  also have "card \<dots> = length (filter (\<lambda>i. \<not> masked (skipMask pq) i) (map fst (pieces pq)))"
    using d by (intro distinct_card) simp
  also have "\<dots> = Remaining pq"
    by (auto simp: Remaining_def masked_def split: option.splits)
  finally show ?thesis by simp
qed

section \<open>Properties\<close>

abbreviation pq_reachable ::
  "PieceWork list \<Rightarrow> Bitfield option \<Rightarrow> int \<Rightarrow> bool \<Rightarrow> bool \<Rightarrow> pq_state \<Rightarrow> bool" where
  "pq_reachable pws skip n fl sq s \<equiv>
     rtranclp pq_step (NewPieceQueueWithOptions pws skip n fl sq, {#}, newSwarm) s"

text \<open>
  C9: What \<open>Pick\<close> hands out. In every state the workers can bring the queue to, whatever the
  iteration order and the random choices: \<open>Pick\<close> finds nothing only when no piece of the queue is
  eligible for the peer; otherwise it returns the work item of an eligible piece and marks exactly
  that piece as pending. The piece is the lowest index in sequential mode; otherwise one of the
  first and last pieces if one is eligible and they are prioritised; otherwise one with the lowest
  availability.
\<close>

theorem Pick_correct:
  assumes "pq_reachable pws skip n fl sq (pq, held, sw)"
  defines "e \<equiv> enterEndgame pq"
  shows "case Pick \<omega> src pq has of
      (None, q) \<Rightarrow> q = e \<and> (\<forall>i\<in>keys pq. \<not> pickable e has i)
    | (Some pw, q) \<Rightarrow>
        map_of (pieces pq) (pw_Index pw) = Some pw \<and> pickable e has (pw_Index pw) \<and>
        preferred e (pickable e has) (pw_Index pw) \<and>
        q = e\<lparr>pending := insert (pw_Index pw) (pending pq)\<rparr>"
proof -
  have inv: "pq_inv pq" using run_inv_reachable [OF assms(1)] by (simp add: run_inv_def)
  show ?thesis
    using Pick_Some [OF inv, of \<omega> src has] Pick_None [OF inv, of \<omega> src has]
    by (auto simp: e_def split: prod.split option.split)
qed

definition demo_pieces :: "PieceWork list" where
  "demo_pieces = [\<lparr>pw_Index = 0, pw_Hash = [], pw_Length = 5\<rparr>, \<lparr>pw_Index = 1, pw_Hash = [], pw_Length = 3\<rparr>]"

lemma demo_keys:
  "{i \<in> pw_Index ` set demo_pieces. \<not> masked None i} = {0, 1}"
  "keys (NewPieceQueueWithOptions demo_pieces None 2 fl sq) = {0, 1}"
  by (auto simp: New_views(1) demo_pieces_def masked_def)

theorem Pick_correct_witness:
  "\<exists>q. Pick (\<lambda>_. 0) (\<lambda>_. 0) (NewPieceQueueWithOptions demo_pieces None 2 False True) (\<lambda>i. i = 1)
     = (Some \<lparr>pw_Index = 1, pw_Hash = [], pw_Length = 3\<rparr>, q) \<and> pending q = {1}"
  using Pick_correct [of demo_pieces None 2 False True
      "NewPieceQueueWithOptions demo_pieces None 2 False True" "{#}" newSwarm,
      where \<omega> = "\<lambda>_. 0" and src = "\<lambda>_. 0" and has = "\<lambda>i. i = 1"]
  by (auto simp: demo_pieces_def NewPieceQueueWithOptions_def masked_def Let_def pickable_def
      enterEndgame_def keys_def split: prod.splits option.splits if_splits)

text \<open>
  C10: No piece is lost. In every reachable state the remaining and the completed pieces partition the
  pieces the queue was built from (those not skipped), the workers have produced results for exactly
  the completed pieces and hold only pieces of the queue, \<open>Remaining\<close> counts the remaining pieces outside the runtime skip
  mask, and along a run remaining pieces only leave and completed ones stay completed.
\<close>

theorem pieces_conserved:
  assumes "pq_reachable pws skip n fl sq (pq, held, sw)"
    and "rtranclp pq_step (pq, held, sw) (pq', held', sw')"
  defines "K \<equiv> {i \<in> pw_Index ` set pws. \<not> masked skip i}"
  shows "keys pq \<union> done_pieces pq = K \<and> keys pq \<inter> done_pieces pq = {} \<and> set_mset held \<subseteq> K \<and> set (sw_results sw) = done_pieces pq \<and>
    Remaining pq = card {i \<in> K - done_pieces pq. \<not> masked (skipMask pq) i} \<and>
    keys pq' \<subseteq> keys pq \<and> done_pieces pq \<subseteq> done_pieces pq'"
proof -
  have r: "run_inv K (pq, held, sw)" "run_inv K (pq', held', sw')"
    using run_inv_reachable [OF assms(1)] run_inv_reachable [OF rtranclp_trans [OF assms(1,2)]]
    by (simp_all add: K_def)
  have sub: "keys pq' \<subseteq> keys pq" using queue_shrinks.reach_weight [OF assms(2)] by simp
  have dis: "keys pq \<inter> done_pieces pq = {}" and K: "keys pq \<union> done_pieces pq = K"
    using r pq_invD(4) [of pq] by (auto simp: run_inv_def)
  then have "{i \<in> K - done_pieces pq. \<not> masked (skipMask pq) i} =
      {i \<in> keys pq. \<not> masked (skipMask pq) i}" by auto
  then show ?thesis
    using r sub dis K Remaining_card [of pq] by (auto simp: run_inv_def)
qed

theorem pieces_conserved_witness:
  "Remaining (NewPieceQueueWithOptions demo_pieces None 2 False False) = 2"
proof -
  let ?q = "NewPieceQueueWithOptions demo_pieces None 2 False False"
  have "{i \<in> {0, 1} - done_pieces ?q. \<not> masked (skipMask ?q) i} = {0, 1}"
    by (auto simp: NewPieceQueueWithOptions_def masked_def Let_def)
  then show ?thesis
    using pieces_conserved [of demo_pieces None 2 False False ?q "{#}" newSwarm ?q "{#}" newSwarm]
    by (simp add: demo_keys)
qed

text \<open>
  C11: Before endgame no piece is downloaded by two workers. As long as the queue is not in endgame
  mode, the pieces held by workers are exactly the pending ones, each held once, and no piece has
  been completed twice; and endgame starts only when a \<open>Pick\<close> sees at most \<open>max 5 (total / 100)\<close> remaining pieces.
\<close>

theorem exclusive_before_endgame:
  assumes "pq_reachable pws skip n fl sq (pq, held, sw)"
  shows "(\<not> endgame pq \<longrightarrow> held = mset_set (pending pq) \<and> (\<forall>i. count held i \<le> 1) \<and> distinct (sw_results sw)) \<and>
    (endgame (enterEndgame pq) \<longleftrightarrow>
       endgame pq \<or> (keys pq \<noteq> {} \<and> card (keys pq) \<le> max 5 (totalPieces pq div 100)))"
proof -
  have r: "run_inv {i \<in> pw_Index ` set pws. \<not> masked skip i} (pq, held, sw)"
    by (rule run_inv_reachable [OF assms])
  then have inv: "pq_inv pq" by (simp add: run_inv_def)
  have "card (keys pq) = length (pieces pq)"
    using distinct_card [OF pq_invD(1) [OF inv]] by (simp add: keys_def)
  moreover have "keys pq \<noteq> {} \<longleftrightarrow> pieces pq \<noteq> []" by (auto simp: keys_def)
  ultimately have "endgame (enterEndgame pq) \<longleftrightarrow>
       endgame pq \<or> (keys pq \<noteq> {} \<and> card (keys pq) \<le> max 5 (totalPieces pq div 100))"
    by (auto simp: enterEndgame_def Let_def)
  with r show ?thesis by (auto simp: run_inv_def count_mset_set')
qed

theorem exclusive_before_endgame_witness:
  "endgame (enterEndgame (NewPieceQueueWithOptions demo_pieces None 2 False False))"
  using exclusive_before_endgame [of demo_pieces None 2 False False
      "NewPieceQueueWithOptions demo_pieces None 2 False False" "{#}" newSwarm]
  by (simp add: demo_keys max_def)

text \<open>
  In endgame the check \<open>IsDone\<close> and \<open>Complete\<close> are separate critical sections, so two workers can both
  complete the same piece and both produce a result, while another piece is still missing.
\<close>

lemma endgame_double_completion:
  "\<exists>pq sw. pq_reachable demo_pieces None 2 False True (pq, {#}, sw) \<and> sw_results sw = [0, 0] \<and> keys pq = {1}"
proof -
  let ?new = "NewPieceQueueWithOptions demo_pieces None 2 False True"
  let ?pick = "\<lambda>q. Pick (\<lambda>_. 0) (\<lambda>_. 0) q (\<lambda>_. True)"
  let ?q = "?new\<lparr>endgame := True, pending := {0}\<rparr>"
  let ?pw = "\<lparr>pw_Index = 0, pw_Hash = [], pw_Length = 5\<rparr>"
  have eval: "?pick ?new = (Some ?pw, ?q)" "?pick ?q = (Some ?pw, ?q)" "\<not> IsDone ?q 0"
    by (simp_all add: demo_pieces_def NewPieceQueueWithOptions_def masked_def Let_def Pick_def enterEndgame_def pickable_def
        range_order_def handOut_def mget_def IsDone_def)
  let ?c = "Complete ?q 0"
  note step = rtranclp.rtrancl_into_rtrancl
  have "pq_reachable demo_pieces None 2 False True (?q, {#0#}, newSwarm)"
    using pq_step.pick [OF eval(1), of "{#}" newSwarm] by (intro r_into_rtranclp) simp
  from step [OF this pq_step.pick [OF eval(2)]]
  have "pq_reachable demo_pieces None 2 False True (?q, {#0, 0#}, newSwarm)" by simp
  from step [OF this pq_step.check [of 0]] eval(3)
  have "pq_reachable demo_pieces None 2 False True (?q, {#0, 0#}, newSwarm\<lparr>sw_checked := {#0#}\<rparr>)" by (simp add: newSwarm_def)
  from step [OF this pq_step.check [of 0]] eval(3)
  have "pq_reachable demo_pieces None 2 False True (?q, {#0, 0#}, newSwarm\<lparr>sw_checked := {#0, 0#}\<rparr>)" by (simp add: newSwarm_def)
  from step [OF this pq_step.complete [of 0]]
  have "pq_reachable demo_pieces None 2 False True (?c, {#0#}, newSwarm\<lparr>sw_checked := {#0#}, sw_results := [0]\<rparr>)"
    by (simp add: newSwarm_def)
  from step [OF this pq_step.complete [of 0]]
  have "pq_reachable demo_pieces None 2 False True (Complete ?c 0, {#}, newSwarm\<lparr>sw_results := [0, 0]\<rparr>)"
    by (simp add: newSwarm_def)
  moreover have "keys (Complete ?c 0) = {1}"
    using demo_keys(2) [of False True] by (auto simp: Complete_views keys_def)
  ultimately show ?thesis by (intro exI [of _ "Complete ?c 0"] exI [of _ "newSwarm\<lparr>sw_results := [0, 0]\<rparr>"]) simp
qed

text \<open>
  C12: What availability counts. In every reachable state the availability of a remaining piece is the
  number of connected peers whose bitfield had it when they were registered (a nil bitfield counts
  as having all), less the number of peers that have left after announcing the piece with a \<open>Have\<close>
  message in between: these are taken off although they were never added. So it is the number of
  registered peers with the piece as long as no such peer has left, and may be negative otherwise.
  The buckets sort exactly the remaining pieces by availability, with no empty bucket.
\<close>

theorem availability_bookkeeping:
  assumes "pq_reachable pws skip n fl sq (pq, held, sw)" "i \<in> keys pq"
  shows "avail pq i = countedWith (sw_peers sw) i - uncountedWith (sw_gone sw) i \<and>
    (\<forall>p\<in>#sw_peers sw. peerHas (cp_registered p) i \<longrightarrow> peerHas (cp_bitfield p) i) \<and>
    (\<forall>a. i \<in> bset (buckets pq) a \<longleftrightarrow> a = avail pq i) \<and> (\<forall>(a, b)\<in>set (buckets pq). b \<noteq> [])"
proof -
  have r: "run_inv {i \<in> pw_Index ` set pws. \<not> masked skip i} (pq, held, sw)"
    by (rule run_inv_reachable [OF assms(1)])
  then have inv: "pq_inv pq" by (simp add: run_inv_def)
  show ?thesis
    using r assms(2) pq_invD(2,3) [OF inv]
    by (auto simp: run_inv_def grown_def buckets_ok_def)
qed

theorem availability_bookkeeping_witness:
  "\<exists>pq sw. pq_reachable demo_pieces None 2 False False (pq, {#}, sw) \<and> sw_peers sw = {#} \<and> avail pq 1 = - 1"
proof -
  let ?q0 = "NewPieceQueueWithOptions demo_pieces None 2 False False"
  let ?q1 = "AddPeerBitfield (\<lambda>_. 0) ?q0 (Some [0])" and ?q2 = "\<lambda>q. RemovePeerBitfield (\<lambda>_. 0) q (Some [64])"
  let ?p = "\<lambda>bf. \<lparr>cp_registered = Some [0], cp_bitfield = Some bf, cp_haveAll = False\<rparr>"
  let ?sw = "newSwarm\<lparr>sw_gone := {#?p [64]#}\<rparr>"
  note step = rtranclp.rtrancl_into_rtrancl
  have "pq_reachable demo_pieces None 2 False False (?q1, {#}, newSwarm\<lparr>sw_peers := {#?p [0]#}\<rparr>)"
    using pq_step.join [of "?p [0]" "Some [0]" False ?q0 "{#}" newSwarm] by (intro r_into_rtranclp) (simp add: newSwarm_def)
  from step [OF this pq_step.have_msg [of "?p [0]" _ _ 1]]
  have "pq_reachable demo_pieces None 2 False False (?q1, {#}, newSwarm\<lparr>sw_peers := {#?p [64]#}\<rparr>)"
    by (simp add: newSwarm_def safeBitfieldSet_def SetPiece_def)
  from step [OF this pq_step.leave [of "?p [64]"]]
  have r: "pq_reachable demo_pieces None 2 False False (?q2 ?q1, {#}, ?sw)" by (simp add: newSwarm_def)
  have "1 \<in> keys (?q2 ?q1)" by (simp add: demo_keys)
  from availability_bookkeeping [OF r this] have "avail (?q2 ?q1) 1 = - 1"
    by (simp add: newSwarm_def countedWith_def uncountedWith_def peerHas_def HasPiece_def)
  with r show ?thesis by (intro exI [of _ "?q2 ?q1"] exI [of _ ?sw]) (simp add: newSwarm_def)
qed

text \<open>
  C13: The queue can be emptied. One peer that has every piece, picking and completing in turn,
  completes all pieces of a fresh queue in as many rounds as there are pieces, whatever the mode,
  iteration order and random choices: \<open>Pick\<close> never comes back empty-handed on the way.
\<close>

theorem queue_drains:
  fixes pws skip n fl sq
  defines "pq \<equiv> NewPieceQueueWithOptions pws skip n fl sq"
  defines "K \<equiv> {i \<in> pw_Index ` set pws. \<not> masked skip i}"
  shows "Remaining (drain \<omega> src (card K) pq) = 0 \<and> done_pieces (drain \<omega> src (card K) pq) = K"
proof -
  have "pq_inv pq" "pending pq = {}" "skipMask pq = None" "keys pq = K" "done_pieces pq = {}"
    using New_views(1,3,4,8) [of pws skip n fl sq]
    by (simp_all add: pq_def K_def) (simp add: NewPieceQueueWithOptions_def Let_def)
  then have d: "keys (drain \<omega> src (card K) pq) = {}" "done_pieces (drain \<omega> src (card K) pq) = K"
    using drain_empty [of pq \<omega> src] by simp_all
  then have "pieces (drain \<omega> src (card K) pq) = []" by (simp add: keys_def)
  with d show ?thesis by (simp add: Remaining_def split: option.split)
qed

end
