(* ===== verification/Go_Strconv.thy ===== *)
theory Go_Strconv
  imports Go_Prelude
begin

text \<open>
  The \<open>strconv\<close> conversions the bencode codec uses: \<open>AppendInt\<close> (decimal, base 10) and
  \<open>ParseInt(s, 10, 64)\<close>, of which \<open>Atoi\<close> is the same function on a 64-bit platform. The main
  facts are that printing never emits a leading zero and that parsing inverts printing on the
  whole \<open>int64\<close> range.
\<close>

section \<open>Decimal digits\<close>

definition is_digit :: "byte \<Rightarrow> bool" where
  "is_digit b \<longleftrightarrow> 48 \<le> b \<and> b \<le> 57"

definition digit_val :: "byte \<Rightarrow> nat" where
  "digit_val b = unat b - 48"

definition digit_byte :: "nat \<Rightarrow> byte" where
  "digit_byte d = of_nat (48 + d)"

fun fmt_nat :: "nat \<Rightarrow> bytes" where
  "fmt_nat n = (if n < 10 then [digit_byte n] else fmt_nat (n div 10) @ [digit_byte (n mod 10)])"

declare fmt_nat.simps [simp del]

definition dec_val :: "bytes \<Rightarrow> nat" where
  "dec_val ds = foldl (\<lambda>acc d. 10 * acc + digit_val d) 0 ds"

definition FormatInt :: "int \<Rightarrow> bytes" where
  "FormatInt n = (if n < 0 then 45 # fmt_nat (nat (- n)) else fmt_nat (nat n))"

definition ParseInt :: "bytes \<Rightarrow> int option" where
  "ParseInt s =
     (case s of
        [] \<Rightarrow> None
      | c # cs \<Rightarrow>
          (let neg = (c = 45); ds = (if c = 43 \<or> c = 45 then cs else s)
           in if ds = [] \<or> \<not> list_all is_digit ds then None
              else let un = int (dec_val ds)
                   in if neg then (if un > 9223372036854775808 then None else Some (- un))
                      else (if un \<ge> 9223372036854775808 then None else Some un)))"

section \<open>Printing\<close>

lemma unat_digit_byte: "d < 10 \<Longrightarrow> unat (digit_byte d) = 48 + d"
  unfolding digit_byte_def by (simp add: unat_of_nat del: of_nat_add)

lemma digit_val_byte [simp]: "d < 10 \<Longrightarrow> digit_val (digit_byte d) = d"
  by (simp add: digit_val_def unat_digit_byte)

lemma is_digit_byte [simp]: "d < 10 \<Longrightarrow> is_digit (digit_byte d)"
  by (simp add: is_digit_def word_le_nat_alt unat_digit_byte)

lemma digit_byte_eq_0: "d < 10 \<Longrightarrow> digit_byte d = 48 \<longleftrightarrow> d = 0"
  by (simp add: word_unat_eq_iff unat_digit_byte)

lemma fmt_nat_digits: "list_all is_digit (fmt_nat n)"
proof (induction n rule: fmt_nat.induct)
  case (1 n)
  then show ?case by (cases "n < 10") (simp_all add: fmt_nat.simps [of n])
qed

lemma fmt_nat_nonempty [simp]: "fmt_nat n \<noteq> []"
  by (subst fmt_nat.simps) simp

lemma dec_val_fmt_nat [simp]: "dec_val (fmt_nat n) = n"
proof (induction n rule: fmt_nat.induct)
  case (1 n)
  show ?case
  proof (cases "n < 10")
    case True
    then show ?thesis by (simp add: fmt_nat.simps [of n] dec_val_def)
  next
    case False
    with 1 show ?thesis by (simp add: fmt_nat.simps [of n] dec_val_def)
  qed
qed

lemma fmt_nat_leading_zero: "hd (fmt_nat n) = 48 \<longleftrightarrow> n = 0"
proof (induction n rule: fmt_nat.induct)
  case (1 n)
  show ?case
  proof (cases "n < 10")
    case True
    then show ?thesis by (simp add: fmt_nat.simps [of n] digit_byte_eq_0)
  next
    case False
    then have "hd (fmt_nat n) = hd (fmt_nat (n div 10))"
      by (simp add: fmt_nat.simps [of n])
    with 1 False show ?thesis by simp
  qed
qed

lemma fmt_nat_0 [simp]: "fmt_nat 0 = [48]"
  by (subst fmt_nat.simps) (simp add: digit_byte_def)

lemma fmt_nat_hd_digit: "is_digit (hd (fmt_nat n))"
  using fmt_nat_digits [of n] by (cases "fmt_nat n") auto

section \<open>Parsing inverts printing\<close>

lemma ParseInt_fmt_nat:
  assumes "int n \<le> max_int64"
  shows "ParseInt (fmt_nat n) = Some (int n)"
proof -
  obtain c cs where c: "fmt_nat n = c # cs"
    by (cases "fmt_nat n") auto
  have "is_digit c" using fmt_nat_hd_digit [of n] c by simp
  then have "c \<noteq> 43" "c \<noteq> 45" by (auto simp: is_digit_def)
  moreover have "dec_val (c # cs) = n" "list_all is_digit (c # cs)"
    using dec_val_fmt_nat [of n] fmt_nat_digits [of n] by (simp_all add: c)
  ultimately show ?thesis
    using assms by (simp add: ParseInt_def c max_int64_def)
qed

lemma ParseInt_FormatInt:
  assumes "in_int64 n"
  shows "ParseInt (FormatInt n) = Some n"
proof (cases "n < 0")
  case True
  then show ?thesis
    using assms fmt_nat_digits [of "nat (- n)"]
    by (simp add: FormatInt_def ParseInt_def in_int64_def min_int64_def)
next
  case False
  then show ?thesis
    using assms ParseInt_fmt_nat [of "nat n"]
    by (simp add: FormatInt_def in_int64_def)
qed

lemma ParseInt_range: "ParseInt s = Some n \<Longrightarrow> in_int64 n"
  by (auto simp: ParseInt_def in_int64_def max_int64_def min_int64_def Let_def
      split: list.splits if_splits)

lemma ParseInt_digits_nonneg:
  "list_all is_digit s \<Longrightarrow> ParseInt s = Some n \<Longrightarrow> 0 \<le> n"
  by (cases s) (auto simp: ParseInt_def is_digit_def Let_def split: if_splits)

end
