(* ===== verification/Bencode.thy ===== *)
theory Bencode
  imports Go_Strconv Go_Io
begin

text \<open>
  The bencode codec, \<^verbatim>\<open>src/bencode/decode.go\<close> and \<^verbatim>\<open>src/bencode/encode.go\<close>.

  A Go value of type \<open>any\<close> that the codec meets is a \<open>bval\<close>: the four results of the decoder
  (\<open>BStr\<close>, \<open>BInt\<close> for \<open>int64\<close>, \<open>BList\<close>, \<open>BDict\<close>), the two further types the encoder accepts
  (\<open>BBytes\<close> for \<open>[]byte\<close>, \<open>BGoInt\<close> for \<open>int\<close>) and \<open>BOther\<close> for every type it refuses. A
  \<open>map[string]any\<close> is the association list of its entries in ascending key order without
  repeated keys, so that equal maps are equal lists.

  The decoder threads the rest of the input and the counter \<open>totalItems\<close>; the two loops of
  \<open>decodeList\<close> and \<open>decodeDict\<close> are recursive functions, and all three functions end on every
  input. Error messages are reduced to the two sentinel errors callers can test for.
\<close>

section \<open>Values, errors, limits\<close>

datatype bval =
    BStr bytes
  | BBytes bytes
  | BInt int
  | BGoInt int
  | BList "bval list"
  | BDict "(bytes \<times> bval) list"
  | BOther

type_synonym dict = "(bytes \<times> bval) list"

datatype berror = ErrUnexpectedEnd | ErrInvalidFormat | ErrUnsupportedType

definition MaxStringLength :: nat where "MaxStringLength = 67108864"
definition MaxCollectionSize :: nat where "MaxCollectionSize = 1000000"
definition MaxDecodeDepth :: nat where "MaxDecodeDepth = 100"
definition MaxTotalItems :: nat where "MaxTotalItems = 2000000"

text \<open>Assignment \<open>dict[key] = val\<close> on the sorted representation.\<close>

fun dict_put :: "bytes \<Rightarrow> 'v \<Rightarrow> (bytes \<times> 'v) list \<Rightarrow> (bytes \<times> 'v) list" where
  "dict_put k v [] = [(k, v)]"
| "dict_put k v ((k', v') # d) =
     (if k = k' then (k, v) # d
      else if k < k' then (k, v) # (k', v') # d
      else (k', v') # dict_put k v d)"

definition dict_ok :: "(bytes \<times> 'v) list \<Rightarrow> bool" where
  "dict_ok d \<longleftrightarrow> sorted_wrt (<) (map fst d)"

text \<open>The type assertions \<open>v.(string)\<close>, \<open>v.(int64)\<close>, \<open>v.([]any)\<close> and \<open>v.(map[string]any)\<close> on an entry.\<close>

definition asString :: "bval option \<Rightarrow> bytes option" where
  "asString v = (case v of Some (BStr s) \<Rightarrow> Some s | _ \<Rightarrow> None)"

definition asInt64 :: "bval option \<Rightarrow> int option" where
  "asInt64 v = (case v of Some (BInt n) \<Rightarrow> Some n | _ \<Rightarrow> None)"

definition asList :: "bval option \<Rightarrow> bval list option" where
  "asList v = (case v of Some (BList l) \<Rightarrow> Some l | _ \<Rightarrow> None)"

definition asDict :: "bval option \<Rightarrow> dict option" where
  "asDict v = (case v of Some (BDict d) \<Rightarrow> Some d | _ \<Rightarrow> None)"

lemma as_simps [simp]:
  "asString None = None" "asString (Some (BStr s)) = Some s"
  "asInt64 None = None" "asInt64 (Some (BInt n)) = Some n"
  "asList None = None" "asList (Some (BList l)) = Some l"
  "asDict None = None" "asDict (Some (BDict d)) = Some d"
  by (simp_all add: asString_def asInt64_def asList_def asDict_def)

lemma as_Some:
  "asString v = Some s \<longleftrightarrow> v = Some (BStr s)" "asInt64 v = Some n \<longleftrightarrow> v = Some (BInt n)"
  "asList v = Some l \<longleftrightarrow> v = Some (BList l)" "asDict v = Some d \<longleftrightarrow> v = Some (BDict d)"
  by (auto simp: asString_def asInt64_def asList_def asDict_def split: option.splits bval.splits)

section \<open>The decoder\<close>

text \<open>The scan for the colon that ends a string's length.\<close>

fun scanColon :: "bytes \<Rightarrow> nat \<Rightarrow> berror + nat" where
  "scanColon [] i = Inl ErrInvalidFormat"
| "scanColon (b # bs) i =
     (if b = 58 then Inr i
      else if b < 48 \<or> b > 57 then Inl ErrInvalidFormat
      else scanColon bs (Suc i))"

definition decodeString :: "bytes \<Rightarrow> berror + bytes \<times> bytes" where
  "decodeString data =
     (case scanColon data 0 of
        Inl e \<Rightarrow> Inl e
      | Inr colonIdx \<Rightarrow>
          (case ParseInt (take colonIdx data) of
             None \<Rightarrow> Inl ErrInvalidFormat
           | Some len \<Rightarrow>
               if len < 0 then Inl ErrInvalidFormat
               else if len > int MaxStringLength then Inl ErrInvalidFormat
               else (let start = colonIdx + 1; stop = start + nat len
                     in if stop > length data then Inl ErrUnexpectedEnd
                        else Inr (slice start stop data, drop stop data))))"

text \<open>The scan for the \<open>e\<close> that ends an integer, from index 1.\<close>

fun scanEnd :: "bytes \<Rightarrow> nat \<Rightarrow> nat option" where
  "scanEnd [] i = None"
| "scanEnd (b # bs) i = (if b = 101 then Some i else scanEnd bs (Suc i))"

definition decodeInt :: "bytes \<Rightarrow> berror + int \<times> bytes" where
  "decodeInt data =
     (case scanEnd (drop 1 data) 1 of
        None \<Rightarrow> Inl ErrUnexpectedEnd
      | Some endIdx \<Rightarrow>
          (let numStr = slice 1 endIdx data
           in if numStr = [] then Inl ErrInvalidFormat
              else if length numStr > 1 \<and> numStr ! 0 = 48 then Inl ErrInvalidFormat
              else if numStr = gostr ''-0'' then Inl ErrInvalidFormat
              else if length numStr > 2 \<and> numStr ! 0 = 45 \<and> numStr ! 1 = 48
                then Inl ErrInvalidFormat
              else (case ParseInt numStr of
                      None \<Rightarrow> Inl ErrInvalidFormat
                    | Some n \<Rightarrow> Inr (n, drop (endIdx + 1) data))))"

lemma scanColon_bound: "scanColon bs i = Inr j \<Longrightarrow> i \<le> j \<and> j < i + length bs"
  by (induction bs i rule: scanColon.induct) (auto split: if_splits)

lemma scanEnd_bound: "scanEnd bs i = Some j \<Longrightarrow> i \<le> j \<and> j < i + length bs"
  by (induction bs i rule: scanEnd.induct) (auto split: if_splits)

lemma decodeString_shrinks:
  "decodeString data = Inr (s, rest) \<Longrightarrow> length rest < length data"
  by (auto simp: decodeString_def Let_def split: sum.splits option.splits if_splits
      dest: scanColon_bound)

lemma decodeInt_shrinks:
  "decodeInt data = Inr (n, rest) \<Longrightarrow> length rest < length data"
  by (auto simp: decodeInt_def Let_def split: option.splits if_splits dest!: scanEnd_bound)

function decodeValue :: "bytes \<Rightarrow> nat \<Rightarrow> nat \<Rightarrow> berror + bval \<times> bytes \<times> nat"
  and decodeList :: "bytes \<Rightarrow> bval list \<Rightarrow> nat \<Rightarrow> nat \<Rightarrow> berror + bval \<times> bytes \<times> nat"
  and decodeDict :: "bytes \<Rightarrow> dict \<Rightarrow> bytes \<Rightarrow> nat \<Rightarrow> nat \<Rightarrow> berror + bval \<times> bytes \<times> nat"
where
  "decodeValue data depth totalItems =
     (case data of
        [] \<Rightarrow> Inl ErrUnexpectedEnd
      | b # rest \<Rightarrow>
          if depth > MaxDecodeDepth then Inl ErrInvalidFormat
          else if b = 105 then
            (case decodeInt data of
               Inl e \<Rightarrow> Inl e
             | Inr (n, r) \<Rightarrow> Inr (BInt n, r, totalItems))
          else if b = 108 then decodeList rest [] depth totalItems
          else if b = 100 then decodeDict rest [] [] depth totalItems
          else if b \<ge> 48 \<and> b \<le> 57 then
            (case decodeString data of
               Inl e \<Rightarrow> Inl e
             | Inr (s, r) \<Rightarrow> Inr (BStr s, r, totalItems))
          else Inl ErrInvalidFormat)"
| "decodeList rest list depth totalItems =
     (case rest of
        [] \<Rightarrow> Inl ErrUnexpectedEnd
      | b # r \<Rightarrow>
          if b = 101 then Inr (BList list, r, totalItems)
          else if length list \<ge> MaxCollectionSize then Inl ErrInvalidFormat
          else if totalItems + 1 > MaxTotalItems then Inl ErrInvalidFormat
          else (case decodeValue rest (depth + 1) (totalItems + 1) of
                  Inl e \<Rightarrow> Inl e
                | Inr (val, remaining, t) \<Rightarrow> decodeList remaining (list @ [val]) depth t))"
| "decodeDict rest dict prevKey depth totalItems =
     (case rest of
        [] \<Rightarrow> Inl ErrUnexpectedEnd
      | b # r \<Rightarrow>
          if b = 101 then Inr (BDict dict, r, totalItems)
          else if length dict \<ge> MaxCollectionSize then Inl ErrInvalidFormat
          else if totalItems + 1 > MaxTotalItems then Inl ErrInvalidFormat
          else if b < 48 \<or> b > 57 then Inl ErrInvalidFormat
          else (case decodeString rest of
                  Inl e \<Rightarrow> Inl e
                | Inr (key, remaining) \<Rightarrow>
                    if dict \<noteq> [] \<and> key < prevKey then Inl ErrInvalidFormat
                    else if remaining = [] then Inl ErrUnexpectedEnd
                    else (case decodeValue remaining (depth + 1) (totalItems + 1) of
                            Inl e \<Rightarrow> Inl e
                          | Inr (val, remaining2, t) \<Rightarrow>
                              decodeDict remaining2 (dict_put key val dict) key depth t)))"
  by pat_completeness auto

termination
proof -
  have shrinks:
    "decodeValue_decodeList_decodeDict_dom (Inl (data, depth, t)) \<Longrightarrow>
       decodeValue data depth t = Inr (v, r, t') \<Longrightarrow> length r < length data"
    "decodeValue_decodeList_decodeDict_dom (Inr (Inl (rest, list, depth, t))) \<Longrightarrow>
       decodeList rest list depth t = Inr (v, r, t') \<Longrightarrow> length r < length rest"
    "decodeValue_decodeList_decodeDict_dom (Inr (Inr (rest, dict, prevKey, depth, t))) \<Longrightarrow>
       decodeDict rest dict prevKey depth t = Inr (v, r, t') \<Longrightarrow> length r < length rest"
    for data depth t v r t' rest list dict prevKey
  proof (induction data depth t and rest list depth t and rest dict prevKey depth t
      arbitrary: v r t' and v r t' and v r t'
      rule: decodeValue_decodeList_decodeDict.pinduct)
    case (1 data depth t)
    then show ?case
      by (fastforce simp: decodeValue.psimps split: list.splits if_splits sum.splits prod.splits
          dest: decodeInt_shrinks decodeString_shrinks)
  next
    case (2 rest list depth t)
    then show ?case
      by (fastforce simp: decodeList.psimps split: list.splits if_splits sum.splits prod.splits)
  next
    case (3 rest dict prevKey depth t)
    then show ?case
      by (fastforce simp: decodeDict.psimps split: list.splits if_splits sum.splits prod.splits
          dest: decodeString_shrinks)
  qed
  show ?thesis
  proof (relation "measure (\<lambda>x. case x of
        Inl (data, _, _) \<Rightarrow> 2 * length data
      | Inr (Inl (rest, _, _, _)) \<Rightarrow> 2 * length rest + 1
      | Inr (Inr (rest, _, _, _, _)) \<Rightarrow> 2 * length rest + 1)", goal_cases)
    case (5 rest list depth t b r x val remaining y t')
    then show ?case using shrinks(1) [of rest "depth + 1" "t + 1"] by fastforce
  next
    case (6 rest dict prevKey depth t b r x key remaining)
    then show ?case using decodeString_shrinks [of rest] by fastforce
  next
    case (7 rest dict prevKey depth t b r x key remaining y val z remaining2 t')
    then show ?case
      using shrinks(1) [of remaining "depth + 1" "t + 1"] decodeString_shrinks [of rest]
      by fastforce
  qed auto
qed

declare decodeValue.simps [simp del] decodeList.simps [simp del] decodeDict.simps [simp del]

lemmas decode_simps = decodeValue.simps decodeList.simps decodeDict.simps
lemmas decode_induct = decodeValue_decodeList_decodeDict.induct

definition Decode :: "bytes \<Rightarrow> berror + bval" where
  "Decode data =
     (case decodeValue data 0 0 of
        Inl e \<Rightarrow> Inl e
      | Inr (val, rest, _) \<Rightarrow> Inr val)"

definition DecodeBytes :: "bytes \<Rightarrow> berror + bval \<times> nat" where
  "DecodeBytes data =
     (case decodeValue data 0 0 of
        Inl e \<Rightarrow> Inl e
      | Inr (val, rest, _) \<Rightarrow> Inr (val, length data - length rest))"

section \<open>The encoder\<close>

definition encodeString :: "bytes \<Rightarrow> bytes \<Rightarrow> bytes" where
  "encodeString buf s = ((buf @ FormatInt (int (length s))) @ [58]) @ s"

definition encodeBytes :: "bytes \<Rightarrow> bytes \<Rightarrow> bytes" where
  "encodeBytes buf b = ((buf @ FormatInt (int (length b))) @ [58]) @ b"

definition encodeInt :: "bytes \<Rightarrow> int \<Rightarrow> bytes" where
  "encodeInt buf n = ((buf @ [105]) @ FormatInt n) @ [101]"

lemma size_list_sort_key [simp]: "size_list f (sort_key g xs) = size_list f xs"
proof -
  have "size_list f ys = sum_mset (image_mset f (mset ys)) + size (mset ys)" for ys :: "'a list"
    by (induction ys) auto
  then show ?thesis by (simp only: mset_sort)
qed

text \<open>
  \<open>encodeDict\<close> sorts the keys and then looks each one up; on a map, sorting the entries by key is
  the same.
\<close>

function (sequential) encodeValue :: "bytes \<Rightarrow> bval \<Rightarrow> berror + bytes"
  and encodeList :: "bytes \<Rightarrow> bval list \<Rightarrow> berror + bytes"
  and encodeDict :: "bytes \<Rightarrow> dict \<Rightarrow> berror + bytes"
where
  "encodeValue buf (BStr s) = Inr (encodeString buf s)"
| "encodeValue buf (BBytes b) = Inr (encodeBytes buf b)"
| "encodeValue buf (BInt n) = Inr (encodeInt buf n)"
| "encodeValue buf (BGoInt n) = Inr (encodeInt buf n)"
| "encodeValue buf (BList l) = encodeList (buf @ [108]) l"
| "encodeValue buf (BDict d) = encodeDict (buf @ [100]) (sort_key fst d)"
| "encodeValue buf BOther = Inl ErrUnsupportedType"
| "encodeList buf [] = Inr (buf @ [101])"
| "encodeList buf (v # vs) =
     (case encodeValue buf v of Inl e \<Rightarrow> Inl e | Inr buf' \<Rightarrow> encodeList buf' vs)"
| "encodeDict buf [] = Inr (buf @ [101])"
| "encodeDict buf ((k, v) # kvs) =
     (case encodeValue (encodeString buf k) v of
        Inl e \<Rightarrow> Inl e
      | Inr buf' \<Rightarrow> encodeDict buf' kvs)"
  by pat_completeness auto

termination
  by (relation "measure (\<lambda>x. case x of
      Inl (_, v) \<Rightarrow> size v
    | Inr (Inl (_, vs)) \<Rightarrow> size_list size vs
    | Inr (Inr (_, kvs)) \<Rightarrow> size_list (size_prod (\<lambda>_. 0) size) kvs)") auto

definition Encode :: "bval \<Rightarrow> berror + bytes" where
  "Encode v = encodeValue [] v"

section \<open>Reference encoding and well-formed values\<close>

text \<open>
  \<open>enc\<close> is the bencoding of a value without buffers or errors. \<open>items\<close> counts the entries of all
  collections in a value, \<open>height\<close> its nesting, and \<open>wf_val\<close> says that it is one the decoder can
  return: no foreign Go types, \<open>int64\<close> integers, strings and collections within the limits,
  dictionaries in canonical form.
\<close>

definition enc_str :: "bytes \<Rightarrow> bytes" where
  "enc_str s = fmt_nat (length s) @ [58] @ s"

fun enc :: "bval \<Rightarrow> bytes" where
  "enc (BStr s) = enc_str s"
| "enc (BInt n) = [105] @ FormatInt n @ [101]"
| "enc (BList vs) = [108] @ concat (map enc vs) @ [101]"
| "enc (BDict d) = [100] @ concat (map (\<lambda>(k, v). enc_str k @ enc v) d) @ [101]"
| "enc _ = []"

fun items :: "bval \<Rightarrow> nat" where
  "items (BList vs) = sum_list (map (\<lambda>v. Suc (items v)) vs)"
| "items (BDict d) = sum_list (map (\<lambda>(k, v). Suc (items v)) d)"
| "items _ = 0"

fun height :: "bval \<Rightarrow> nat" where
  "height (BList vs) = foldr (\<lambda>v. max (Suc (height v))) vs 0"
| "height (BDict d) = foldr (\<lambda>(k, v). max (Suc (height v))) d 0"
| "height _ = 0"

fun wf_val :: "bval \<Rightarrow> bool" where
  "wf_val (BStr s) \<longleftrightarrow> length s \<le> MaxStringLength"
| "wf_val (BInt n) \<longleftrightarrow> in_int64 n"
| "wf_val (BList vs) \<longleftrightarrow> length vs \<le> MaxCollectionSize \<and> list_all wf_val vs"
| "wf_val (BDict d) \<longleftrightarrow> length d \<le> MaxCollectionSize \<and> dict_ok d
     \<and> list_all (\<lambda>(k, v). length k \<le> MaxStringLength \<and> wf_val v) d"
| "wf_val _ \<longleftrightarrow> False"

section \<open>Sorted dictionaries\<close>

lemma dict_ok_Nil [dict_simps, simp]: "dict_ok []"
  by (simp add: dict_ok_def)

lemma dict_ok_Cons [dict_simps, simp]:
  "dict_ok ((k, v) # d) \<longleftrightarrow> (\<forall>k' \<in> fst ` set d. k < k') \<and> dict_ok d"
  by (auto simp: dict_ok_def)

lemma keys_dict_put [simp]: "fst ` set (dict_put k v d) = insert k (fst ` set d)"
  by (induction d) force+

lemma dict_ok_put [simp]: "dict_ok d \<Longrightarrow> dict_ok (dict_put k v d)"
  by (induction d) (force intro: less_trans simp: not_less_iff_gr_or_eq)+

lemma map_of_dict_put [dict_simps, simp]:
  "map_of (dict_put k v d) = (map_of d)(k \<mapsto> v)"
  by (induction d) auto

lemma length_dict_put: "length (dict_put k v d) \<le> Suc (length d)"
  by (induction d) auto

lemma dict_put_append:
  "\<forall>k' \<in> fst ` set d. k' < k \<Longrightarrow> dict_put k v d = d @ [(k, v)]"
  by (induction d) auto

lemma dict_ok_sort_key [simp]: "dict_ok d \<Longrightarrow> sort_key fst d = d"
  by (rule sort_key_id_if_sorted) (auto simp: dict_ok_def elim: sorted_wrt_mono_rel [rotated])

lemma dict_ok_distinct: "dict_ok d \<Longrightarrow> distinct (map fst d)"
  by (auto simp: dict_ok_def strict_sorted_iff)

lemma set_dict_put: "set (dict_put k v d) \<subseteq> insert (k, v) (set d)"
  by (induction d) (auto split: if_splits)

section \<open>The encoder writes the reference encoding\<close>

lemma encodeString_enc [simp]: "encodeString buf s = buf @ enc_str s"
  by (simp add: encodeString_def enc_str_def FormatInt_def)

lemma encode_enc:
  "wf_val v \<Longrightarrow> encodeValue buf v = Inr (buf @ enc v)"
  "list_all wf_val vs \<Longrightarrow> encodeList buf vs = Inr (buf @ concat (map enc vs) @ [101])"
  "list_all (\<lambda>(k, v). wf_val v) kvs \<Longrightarrow>
     encodeDict buf kvs = Inr (buf @ concat (map (\<lambda>(k, v). enc_str k @ enc v) kvs) @ [101])"
proof (induction buf v and buf vs and buf kvs rule: encodeValue_encodeList_encodeDict.induct)
  case (6 buf d)
  then show ?case by (auto simp: list_all_iff)
qed (auto simp: encodeInt_def)


section \<open>Decoding what the encoder wrote\<close>

lemma scanColon_digits:
  "list_all is_digit ds \<Longrightarrow> scanColon (ds @ 58 # xs) i = Inr (i + length ds)"
  by (induction ds arbitrary: i) (auto simp: is_digit_def)

lemma scanEnd_skip: "101 \<notin> set ds \<Longrightarrow> scanEnd (ds @ 101 # xs) i = Some (i + length ds)"
  by (induction ds arbitrary: i) auto

lemma decodeString_enc:
  assumes "length s \<le> MaxStringLength"
  shows "decodeString (enc_str s @ rest) = Inr (s, rest)"
proof -
  have scan: "scanColon (fmt_nat (length s) @ 58 # s @ rest) 0 = Inr (length (fmt_nat (length s)))"
    using scanColon_digits [OF fmt_nat_digits, of "length s" "s @ rest" 0] by simp
  have "ParseInt (fmt_nat (length s)) = Some (int (length s))"
    using assms by (intro ParseInt_fmt_nat) (simp add: MaxStringLength_def max_int64_def)
  then show ?thesis
    using assms scan by (simp add: decodeString_def enc_str_def slice_def)
qed

lemma FormatInt_no_e: "101 \<notin> set (FormatInt n)"
proof -
  have "101 \<notin> set (fmt_nat m)" for m
    using fmt_nat_digits [of m] by (auto simp: list_all_iff is_digit_def)
  then show ?thesis by (simp add: FormatInt_def)
qed

lemma FormatInt_canonical:
  "FormatInt n \<noteq> []"
  "\<not> (length (FormatInt n) > 1 \<and> FormatInt n ! 0 = 48)"
  "FormatInt n \<noteq> gostr ''-0''"
  "\<not> (length (FormatInt n) > 2 \<and> FormatInt n ! 0 = 45 \<and> FormatInt n ! 1 = 48)"
proof -
  have hd0: "fmt_nat m ! 0 = 48 \<longleftrightarrow> m = 0" for m
    using fmt_nat_leading_zero [of m] by (simp add: hd_conv_nth)
  have dig: "is_digit (fmt_nat m ! 0)" for m
    using fmt_nat_hd_digit [of m] by (simp add: hd_conv_nth)
  show "FormatInt n \<noteq> []" by (simp add: FormatInt_def)
  show "\<not> (length (FormatInt n) > 1 \<and> FormatInt n ! 0 = 48)"
    by (cases "n = 0") (auto simp: FormatInt_def hd0 nth_Cons')
  show "FormatInt n \<noteq> gostr ''-0''"
  proof (cases "n < 0")
    case True
    then have "fmt_nat (nat (- n)) ! 0 \<noteq> 48" by (simp add: hd0)
    then show ?thesis using True by (auto simp: FormatInt_def gostr_def)
  next
    case False
    then show ?thesis using dig [of "nat n"] by (auto simp: FormatInt_def gostr_def is_digit_def)
  qed
  show "\<not> (length (FormatInt n) > 2 \<and> FormatInt n ! 0 = 45 \<and> FormatInt n ! 1 = 48)"
    using dig [of "nat n"] hd0 [of "nat (- n)"] by (auto simp: FormatInt_def is_digit_def)
qed

lemma decodeInt_enc:
  assumes "in_int64 n"
  shows "decodeInt (105 # FormatInt n @ 101 # rest) = Inr (n, rest)"
proof -
  have "scanEnd (FormatInt n @ 101 # rest) 1 = Some (1 + length (FormatInt n))"
    by (rule scanEnd_skip [OF FormatInt_no_e])
  moreover have "slice 1 (1 + length (FormatInt n)) (105 # FormatInt n @ 101 # rest) = FormatInt n"
    by (simp add: slice_def)
  ultimately show ?thesis
    using FormatInt_canonical [of n] ParseInt_FormatInt [OF assms]
    by (simp add: decodeInt_def Let_def)
qed

lemma enc_str_hd: "\<exists>b bs. enc_str s = b # bs \<and> 48 \<le> b \<and> b \<le> 57"
proof -
  obtain b bs where b: "fmt_nat (length s) = b # bs"
    by (cases "fmt_nat (length s)") auto
  then have "is_digit b" using fmt_nat_hd_digit [of "length s"] by simp
  then show ?thesis using b by (simp add: enc_str_def is_digit_def)
qed

lemma enc_hd: "wf_val v \<Longrightarrow> \<exists>b bs. enc v = b # bs \<and> b \<noteq> 101"
  using enc_str_hd by (cases v) fastforce+

text \<open>The value is read back wherever its encoding starts, within the decoder's limits.\<close>

definition decodes_back :: "bval \<Rightarrow> bool" where
  "decodes_back v \<longleftrightarrow> (\<forall>depth t rest. depth + height v \<le> MaxDecodeDepth \<longrightarrow> t + items v \<le> MaxTotalItems \<longrightarrow>
      decodeValue (enc v @ rest) depth t = Inr (v, rest, t + items v))"

lemma decodeList_enc:
  assumes "\<And>v. v \<in> set vs \<Longrightarrow> wf_val v \<and> decodes_back v \<and> depth + 1 + height v \<le> MaxDecodeDepth"
    and "length acc + length vs \<le> MaxCollectionSize"
    and "t + items (BList vs) \<le> MaxTotalItems"
  shows "decodeList (concat (map enc vs) @ 101 # rest) acc depth t
    = Inr (BList (acc @ vs), rest, t + items (BList vs))"
  using assms
proof (induction vs arbitrary: acc t)
  case Nil
  then show ?case by (simp add: decodeList.simps)
next
  case (Cons v vs)
  obtain b bs where hd: "enc v = b # bs" "b \<noteq> 101"
    using enc_hd [of v] Cons.prems(1) by auto
  have "decodeValue (enc v @ concat (map enc vs) @ 101 # rest) (depth + 1) (t + 1)
      = Inr (v, concat (map enc vs) @ 101 # rest, t + 1 + items v)"
    using Cons.prems(1) [of v] Cons.prems(3) by (simp add: decodes_back_def)
  moreover have "decodeList (concat (map enc vs) @ 101 # rest) (acc @ [v]) depth (t + 1 + items v)
      = Inr (BList ((acc @ [v]) @ vs), rest, t + 1 + items v + items (BList vs))"
    using Cons.prems by (intro Cons.IH) auto
  ultimately show ?case
    using Cons.prems(2,3) hd by (simp add: decodeList.simps [of "b # bs @ _"])
qed

lemma decodeDict_enc:
  assumes "\<And>k v. (k, v) \<in> set kvs \<Longrightarrow>
        length k \<le> MaxStringLength \<and> wf_val v \<and> decodes_back v \<and> depth + 1 + height v \<le> MaxDecodeDepth"
    and "length acc + length kvs \<le> MaxCollectionSize"
    and "t + items (BDict kvs) \<le> MaxTotalItems"
    and "dict_ok (acc @ kvs)"
    and "acc = [] \<or> prev = fst (last acc)"
  shows "decodeDict (concat (map (\<lambda>(k, v). enc_str k @ enc v) kvs) @ 101 # rest) acc prev depth t
    = Inr (BDict (acc @ kvs), rest, t + items (BDict kvs))"
  using assms
proof (induction kvs arbitrary: acc prev t)
  case Nil
  then show ?case by (simp add: decodeDict.simps)
next
  case (Cons kv kvs)
  obtain k v where kv: "kv = (k, v)" by (cases kv)
  let ?tail = "concat (map (\<lambda>(k, v). enc_str k @ enc v) kvs) @ 101 # rest"
  obtain b bs where hd: "enc_str k = b # bs" "48 \<le> b" "b \<le> 57"
    using enc_str_hd [of k] by auto
  then have b: "\<not> b < 48" "\<not> 57 < b" "b \<noteq> 101" by auto
  have below: "\<forall>k' \<in> fst ` set acc. k' < k"
    using Cons.prems(4) kv by (auto simp: dict_ok_def sorted_wrt_append)
  then have notless: "\<not> (acc \<noteq> [] \<and> k < prev)"
    using Cons.prems(5) by (metis image_eqI last_in_set less_asym)
  have str: "decodeString (b # bs @ enc v @ ?tail) = Inr (k, enc v @ ?tail)"
    using decodeString_enc [of k "enc v @ ?tail"] Cons.prems(1) [of k v] kv hd by simp
  have nonempty: "enc v @ ?tail \<noteq> []" by simp
  have val: "decodeValue (enc v @ ?tail) (depth + 1) (t + 1) = Inr (v, ?tail, t + 1 + items v)"
    using Cons.prems(1) [of k v] Cons.prems(3) kv by (simp add: decodes_back_def)
  have "decodeDict ?tail (acc @ [(k, v)]) k depth (t + 1 + items v)
      = Inr (BDict ((acc @ [(k, v)]) @ kvs), rest, t + 1 + items v + items (BDict kvs))"
    using Cons.prems kv by (intro Cons.IH) auto
  moreover have "dict_put k v acc = acc @ [(k, v)]"
    using below by (rule dict_put_append)
  ultimately show ?case
    using Cons.prems(2,3) hd(1) b str val nonempty notless
    by (simp add: decodeDict.simps [of "b # bs @ _"] kv)
qed

lemma height_list_mem: "v \<in> set vs \<Longrightarrow> Suc (height v) \<le> height (BList vs)"
  by (induction vs) auto

lemma height_dict_mem: "(k, v) \<in> set d \<Longrightarrow> Suc (height v) \<le> height (BDict d)"
  by (induction d) auto

lemma decodeValue_enc: "wf_val v \<Longrightarrow> decodes_back v"
proof (induction v)
  case (BStr s)
  obtain b bs where hd: "enc_str s = b # bs" "48 \<le> b" "b \<le> 57"
    using enc_str_hd [of s] by auto
  then have "b \<noteq> 105" "b \<noteq> 108" "b \<noteq> 100" by auto
  moreover have "decodeString (b # bs @ rest) = Inr (s, rest)" for rest
    using decodeString_enc [of s rest] BStr hd by simp
  ultimately show ?case
    using hd by (simp add: decodes_back_def decodeValue.simps)
next
  case (BInt n)
  then show ?case by (simp add: decodes_back_def decodeValue.simps decodeInt_enc)
next
  case (BList vs)
  show ?case unfolding decodes_back_def
  proof (intro allI impI)
    fix depth t rest
    assume *: "depth + height (BList vs) \<le> MaxDecodeDepth" "t + items (BList vs) \<le> MaxTotalItems"
    have "decodeList (concat (map enc vs) @ 101 # rest) [] depth t
        = Inr (BList ([] @ vs), rest, t + items (BList vs))"
      using BList * height_list_mem [of _ vs] by (intro decodeList_enc) (force simp: list_all_iff)+
    then show "decodeValue (enc (BList vs) @ rest) depth t
        = Inr (BList vs, rest, t + items (BList vs))"
      using * by (simp add: decodeValue.simps)
  qed
next
  case (BDict d)
  show ?case unfolding decodes_back_def
  proof (intro allI impI)
    fix depth t rest
    assume *: "depth + height (BDict d) \<le> MaxDecodeDepth" "t + items (BDict d) \<le> MaxTotalItems"
    have "decodeDict (concat (map (\<lambda>(k, v). enc_str k @ enc v) d) @ 101 # rest) [] [] depth t
        = Inr (BDict ([] @ d), rest, t + items (BDict d))"
      using BDict * height_dict_mem [of _ _ d] by (intro decodeDict_enc) (force simp: list_all_iff)+
    then show "decodeValue (enc (BDict d) @ rest) depth t
        = Inr (BDict d, rest, t + items (BDict d))"
      using * by (simp add: decodeValue.simps)
  qed
qed auto


section \<open>What the decoder returns\<close>

lemma decodeString_local:
  assumes "decodeString data = Inr (s, rest)"
  shows "\<exists>pre. data = pre @ rest \<and> (\<forall>rest'. decodeString (pre @ rest') = Inr (s, rest'))
    \<and> length s \<le> MaxStringLength"
proof -
  obtain ci len where ci: "scanColon data 0 = Inr ci" and len: "ParseInt (take ci data) = Some len"
    and "0 \<le> len" "len \<le> int MaxStringLength" and stop: "ci + 1 + nat len \<le> length data"
    and s: "s = slice (ci + 1) (ci + 1 + nat len) data" and rest: "rest = drop (ci + 1 + nat len) data"
    using assms by (auto simp: decodeString_def Let_def split: sum.splits option.splits if_splits)
  let ?pre = "take (ci + 1 + nat len) data"
  have scan: "scanColon (take n xs @ ys) i = Inr j" if "scanColon xs i = Inr j" "j - i < n"
    for n xs ys i j
    using that
  proof (induction xs i arbitrary: n rule: scanColon.induct)
    case (2 b bs i)
    then show ?case
      using scanColon_bound [of bs "Suc i" j] by (cases n) (auto split: if_splits)
  qed auto
  have "decodeString (?pre @ rest') = Inr (s, rest')" for rest'
  proof -
    have "scanColon (?pre @ rest') 0 = Inr ci"
      using ci by (rule scan) simp
    then show ?thesis
      using len stop \<open>0 \<le> len\<close> \<open>len \<le> int MaxStringLength\<close>
      by (simp add: decodeString_def s slice_def drop_take)
  qed
  moreover have "length s \<le> MaxStringLength"
    using s stop \<open>len \<le> int MaxStringLength\<close> by simp
  moreover have "data = ?pre @ rest"
    using rest by simp
  ultimately show ?thesis by blast
qed

lemma decodeInt_local:
  assumes "decodeInt data = Inr (n, rest)" "data \<noteq> []"
  shows "\<exists>pre. data = pre @ rest \<and> pre \<noteq> [] \<and> hd pre = hd data
    \<and> (\<forall>rest'. decodeInt (pre @ rest') = Inr (n, rest')) \<and> in_int64 n"
proof -
  obtain ei where ei: "scanEnd (drop 1 data) 1 = Some ei" and rest: "rest = drop (ei + 1) data"
    and p: "ParseInt (slice 1 ei data) = Some n"
    using assms(1) by (auto simp: decodeInt_def Let_def split: option.splits if_splits)
  let ?pre = "take (ei + 1) data"
  have bound: "1 \<le> ei" "ei < length data"
    using scanEnd_bound [OF ei] by auto
  have scan: "scanEnd (take n xs @ ys) i = Some j" if "scanEnd xs i = Some j" "j - i < n"
    for n xs ys i j
    using that
  proof (induction xs i arbitrary: n rule: scanEnd.induct)
    case (2 b bs i)
    then show ?case
      using scanEnd_bound [of bs "Suc i" j] by (cases n) (auto split: if_splits)
  qed auto
  have "decodeInt (?pre @ rest') = Inr (n, rest')" for rest'
  proof -
    have "scanEnd (take ei (drop 1 data) @ rest') 1 = Some ei"
      using ei bound by (intro scan) auto
    moreover have "drop 1 (?pre @ rest') = take ei (drop 1 data) @ rest'"
      using bound by (simp add: drop_take)
    moreover have "slice 1 ei (?pre @ rest') = slice 1 ei data"
      using bound slice_append_left [of ei ?pre 1 rest'] by (simp add: slice_def drop_take)
    ultimately show ?thesis
      using assms(1) ei bound by (simp add: decodeInt_def Let_def split: if_splits option.splits)
  qed
  moreover have "data = ?pre @ rest" "?pre \<noteq> []" "hd ?pre = hd data"
    using rest bound assms(2) by (auto simp: hd_take)
  ultimately show ?thesis using ParseInt_range [OF p] by blast
qed


text \<open>
  A successful decode uses a prefix of its input only, and what it returns is well-formed.
\<close>

definition dlocal :: "(bytes \<Rightarrow> berror + bval \<times> bytes \<times> nat) \<Rightarrow> bytes \<Rightarrow> bval \<Rightarrow> bytes \<Rightarrow> nat \<Rightarrow> bool" where
  "dlocal f data v rest t' \<longleftrightarrow>
     (\<exists>pre. data = pre @ rest \<and> pre \<noteq> [] \<and> (\<forall>rest'. f (pre @ rest') = Inr (v, rest', t')))"

lemma decodeList_step:
  assumes "decodeList (b # bs) list depth t = Inr (v, r, t')" "b \<noteq> 101"
  obtains val rem t1 where "\<not> length list \<ge> MaxCollectionSize" "\<not> t + 1 > MaxTotalItems"
    and "decodeValue (b # bs) (depth + 1) (t + 1) = Inr (val, rem, t1)"
    and "decodeList rem (list @ [val]) depth t1 = Inr (v, r, t')"
  using assms by (auto simp: decodeList.simps [of "b # bs"] split: sum.splits if_splits)

lemma decodeDict_step:
  assumes "decodeDict (b # bs) dict prevKey depth t = Inr (v, r, t')" "b \<noteq> 101"
  obtains key rem val rem2 t1 where "\<not> length dict \<ge> MaxCollectionSize" "\<not> t + 1 > MaxTotalItems"
    and "\<not> (b < 48 \<or> b > 57)" "\<not> (dict \<noteq> [] \<and> key < prevKey)" "rem \<noteq> []"
    and "decodeString (b # bs) = Inr (key, rem)"
    and "decodeValue rem (depth + 1) (t + 1) = Inr (val, rem2, t1)"
    and "decodeDict rem2 (dict_put key val dict) key depth t1 = Inr (v, r, t')"
proof -
  obtain key rem where g: "\<not> length dict \<ge> MaxCollectionSize" "\<not> t + 1 > MaxTotalItems"
    "\<not> (b < 48 \<or> b > 57)" "\<not> (dict \<noteq> [] \<and> key < prevKey)" "rem \<noteq> []"
    and s: "decodeString (b # bs) = Inr (key, rem)"
    using assms
    by (cases "decodeString (b # bs)") (auto simp: decodeDict.simps [of "b # bs"] split: if_splits)
  moreover obtain val rem2 t1 where "decodeValue rem (depth + 1) (t + 1) = Inr (val, rem2, t1)"
    "decodeDict rem2 (dict_put key val dict) key depth t1 = Inr (v, r, t')"
    using assms g s
    by (cases "decodeValue rem (depth + 1) (t + 1)")
      (auto simp: decodeDict.simps [of "b # bs"] split: if_splits)
  ultimately show thesis by (rule that)
qed

lemma dlocal_decodeValue:
  "decodeValue data depth t = Inr (v, r, t') \<Longrightarrow>
     dlocal (\<lambda>d. decodeValue d depth t) data v r t'"
  "decodeList rest list depth t = Inr (v, r, t') \<Longrightarrow>
     dlocal (\<lambda>d. decodeList d list depth t) rest v r t'"
  "decodeDict rest dict prevKey depth t = Inr (v, r, t') \<Longrightarrow>
     dlocal (\<lambda>d. decodeDict d dict prevKey depth t) rest v r t'"
proof (induction data depth t and rest list depth t and rest dict prevKey depth t
    arbitrary: v r t' and v r t' and v r t' rule: decode_induct)
  case (1 data depth t)
  obtain b bs where data: "data = b # bs" and depth: "\<not> depth > MaxDecodeDepth"
    using "1.prems" by (auto simp: decodeValue.simps split: list.splits if_splits)
  show ?case
  proof (cases "b = 105")
    case True
    then obtain n where n: "decodeInt data = Inr (n, r)" "v = BInt n" "t' = t"
      using "1.prems" data depth
      by (auto simp: decodeValue.simps split: sum.splits if_splits)
    obtain pre where "data = pre @ r" "pre \<noteq> []" "hd pre = b" "\<forall>rest'. decodeInt (pre @ rest') = Inr (n, rest')"
      using decodeInt_local [OF n(1)] data by auto
    then show ?thesis
      using True n depth
      by (auto simp: dlocal_def decodeValue.simps neq_Nil_conv intro!: exI [of _ pre])
  next
    case ni: False
    show ?thesis
    proof (cases "b = 108 \<or> b = 100")
      case True
      then show ?thesis
        using 1 data depth ni unfolding dlocal_def
        by (fastforce simp: decodeValue.simps intro: exI [of _ "b # _"])
    next
      case False
      then obtain s where s: "decodeString data = Inr (s, r)" "v = BStr s" "t' = t" "b \<ge> 48" "b \<le> 57"
        using "1.prems" data depth ni
        by (auto simp: decodeValue.simps split: sum.splits if_splits)
      obtain pre where pre: "data = pre @ r" "\<forall>rest'. decodeString (pre @ rest') = Inr (s, rest')"
        using decodeString_local [OF s(1)] by auto
      moreover have "pre \<noteq> []"
        using decodeString_shrinks [OF s(1)] pre by auto
      ultimately show ?thesis
        using ni False s depth data
        by (auto simp: dlocal_def decodeValue.simps neq_Nil_conv intro!: exI [of _ pre])
    qed
  qed
next
  case (2 rest list depth t)
  obtain b bs where rest: "rest = b # bs"
    using "2.prems" by (auto simp: decodeList.simps split: list.splits)
  show ?case
  proof (cases "b = 101")
    case True
    then show ?thesis
      using "2.prems" rest
      by (auto simp: dlocal_def decodeList.simps intro!: exI [of _ "[101]"])
  next
    case False
    then obtain val rem t1 where
      guards: "\<not> length list \<ge> MaxCollectionSize" "\<not> t + 1 > MaxTotalItems"
      and dv: "decodeValue rest (depth + 1) (t + 1) = Inr (val, rem, t1)"
      and dl: "decodeList rem (list @ [val]) depth t1 = Inr (v, r, t')"
      using decodeList_step "2.prems"(1) rest by metis
    have "dlocal (\<lambda>d. decodeValue d (depth + 1) (t + 1)) rest val rem t1"
      using "2.IH"(1) dv rest False guards by simp
    moreover have "dlocal (\<lambda>d. decodeList d (list @ [val]) depth t1) rem v r t'"
      using "2.IH"(2) dv dl rest False guards by simp
    ultimately obtain pre1 pre2 where
      1: "rest = pre1 @ rem" "pre1 \<noteq> []"
         "\<And>rest'. decodeValue (pre1 @ rest') (depth + 1) (t + 1) = Inr (val, rest', t1)" and
      2: "rem = pre2 @ r" "\<And>rest'. decodeList (pre2 @ rest') (list @ [val]) depth t1 = Inr (v, rest', t')"
      unfolding dlocal_def by auto
    obtain ps where ps: "pre1 = b # ps" using 1 rest by (cases pre1) auto
    have "decodeList (pre1 @ pre2 @ rest') list depth t = Inr (v, rest', t')" for rest'
      using False guards 1(3) [of "pre2 @ rest'"] 2(2) [of rest'] ps
      by (simp add: decodeList.simps [of "b # _"])
    then show ?thesis
      unfolding dlocal_def using 1 2 by (intro exI [of _ "pre1 @ pre2"]) simp
  qed
next
  case (3 rest dict prevKey depth t)
  obtain b bs where rest: "rest = b # bs"
    using "3.prems" by (auto simp: decodeDict.simps split: list.splits)
  show ?case
  proof (cases "b = 101")
    case True
    then show ?thesis
      using "3.prems" rest
      by (auto simp: dlocal_def decodeDict.simps intro!: exI [of _ "[101]"])
  next
    case False
    then obtain key rem val rem2 t1 where
      guards: "\<not> length dict \<ge> MaxCollectionSize" "\<not> t + 1 > MaxTotalItems"
        "\<not> (b < 48 \<or> b > 57)" "\<not> (dict \<noteq> [] \<and> key < prevKey)" "rem \<noteq> []"
      and ds: "decodeString rest = Inr (key, rem)"
      and dv: "decodeValue rem (depth + 1) (t + 1) = Inr (val, rem2, t1)"
      and dd: "decodeDict rem2 (dict_put key val dict) key depth t1 = Inr (v, r, t')"
      using decodeDict_step "3.prems"(1) rest by metis
    have "dlocal (\<lambda>d. decodeValue d (depth + 1) (t + 1)) rem val rem2 t1"
      using "3.IH"(1) ds dv rest False guards by simp
    moreover have "dlocal (\<lambda>d. decodeDict d (dict_put key val dict) key depth t1) rem2 v r t'"
      using "3.IH"(2) ds dv dd rest False guards by simp
    ultimately obtain pre1 pre2 where
      1: "rem = pre1 @ rem2" "pre1 \<noteq> []"
         "\<And>rest'. decodeValue (pre1 @ rest') (depth + 1) (t + 1) = Inr (val, rest', t1)" and
      2: "rem2 = pre2 @ r"
         "\<And>rest'. decodeDict (pre2 @ rest') (dict_put key val dict) key depth t1 = Inr (v, rest', t')"
      unfolding dlocal_def by auto
    obtain pre0 where 0: "rest = pre0 @ rem" "\<And>rest'. decodeString (pre0 @ rest') = Inr (key, rest')"
      using decodeString_local [OF ds] by auto
    then obtain ps where ps: "pre0 = b # ps"
      using decodeString_shrinks [OF ds] rest by (cases pre0) auto
    have "decodeDict (pre0 @ pre1 @ pre2 @ rest') dict prevKey depth t = Inr (v, rest', t')" for rest'
      using False guards 0(2) [of "pre1 @ pre2 @ rest'"] 1(2) 1(3) [of "pre2 @ rest'"] 2(2) [of rest'] ps
      by (simp add: decodeDict.simps [of "b # _"])
    then show ?thesis
      unfolding dlocal_def using 0 1 2 by (intro exI [of _ "pre0 @ pre1 @ pre2"]) simp
  qed
qed

lemma height_list_le: "height (BList vs) \<le> n \<longleftrightarrow> (\<forall>v \<in> set vs. Suc (height v) \<le> n)"
  by (induction vs) auto

lemma height_dict_le: "height (BDict d) \<le> n \<longleftrightarrow> (\<forall>(k, v) \<in> set d. Suc (height v) \<le> n)"
  by (induction d) auto

lemma items_dict_put: "items (BDict (dict_put k v d)) \<le> items (BDict d) + Suc (items v)"
  by (induction d) auto

lemma decodeInt_wf: "decodeInt data = Inr (n, r) \<Longrightarrow> in_int64 n"
  by (auto simp: decodeInt_def Let_def split: option.splits if_splits dest: ParseInt_range)

lemma decodeString_wf: "decodeString data = Inr (s, r) \<Longrightarrow> length s \<le> MaxStringLength"
  by (auto dest: decodeString_local)

lemma decode_wf:
  "decodeValue data depth t = Inr (v, r, t') \<Longrightarrow>
     wf_val v \<and> depth + height v \<le> MaxDecodeDepth \<and> t + items v \<le> t' \<and> (t' = t \<or> t' \<le> MaxTotalItems)"
  "decodeList rest list depth t = Inr (v, r, t') \<Longrightarrow> depth \<le> MaxDecodeDepth \<Longrightarrow>
     wf_val (BList list) \<Longrightarrow> depth + height (BList list) \<le> MaxDecodeDepth \<Longrightarrow>
     wf_val v \<and> depth + height v \<le> MaxDecodeDepth
       \<and> t + items v \<le> t' + items (BList list) \<and> (t' = t \<or> t' \<le> MaxTotalItems)"
  "decodeDict rest dict prevKey depth t = Inr (v, r, t') \<Longrightarrow> depth \<le> MaxDecodeDepth \<Longrightarrow>
     wf_val (BDict dict) \<Longrightarrow> depth + height (BDict dict) \<le> MaxDecodeDepth \<Longrightarrow>
     wf_val v \<and> depth + height v \<le> MaxDecodeDepth
       \<and> t + items v \<le> t' + items (BDict dict) \<and> (t' = t \<or> t' \<le> MaxTotalItems)"
proof (induction data depth t and rest list depth t and rest dict prevKey depth t
    arbitrary: v r t' and v r t' and v r t' rule: decode_induct)
  case (1 data depth t)
  obtain b bs where data: "data = b # bs" and depth: "\<not> depth > MaxDecodeDepth"
    using "1.prems" by (auto simp: decodeValue.simps split: list.splits if_splits)
  consider "b = 105" | "b = 108" | "b = 100" | "b \<noteq> 105" "b \<noteq> 108" "b \<noteq> 100" by blast
  then show ?case
  proof cases
    case 1
    then show ?thesis
      using "1.prems" data depth
      by (auto simp: decodeValue.simps split: sum.splits if_splits dest: decodeInt_wf)
  next
    case 2
    then show ?thesis
      using "1.prems" "1.IH"(1) [of b bs v r t'] data depth by (simp add: decodeValue.simps)
  next
    case 3
    then show ?thesis
      using "1.prems" "1.IH"(2) [of b bs v r t'] data depth by (simp add: decodeValue.simps)
  next
    case 4
    then show ?thesis
      using "1.prems" data depth
      by (auto simp: decodeValue.simps split: sum.splits if_splits dest: decodeString_wf)
  qed
next
  case (2 rest list depth t)
  obtain b bs where rest: "rest = b # bs"
    using "2.prems" by (auto simp: decodeList.simps split: list.splits)
  show ?case
  proof (cases "b = 101")
    case True
    then show ?thesis using "2.prems" rest by (auto simp: decodeList.simps)
  next
    case False
    then obtain val rem t1 where
      guards: "\<not> length list \<ge> MaxCollectionSize" "\<not> t + 1 > MaxTotalItems"
      and dv: "decodeValue rest (depth + 1) (t + 1) = Inr (val, rem, t1)"
      and dl: "decodeList rem (list @ [val]) depth t1 = Inr (v, r, t')"
      using decodeList_step "2.prems"(1) rest by metis
    have 1: "wf_val val" "depth + 1 + height val \<le> MaxDecodeDepth" "t + 1 + items val \<le> t1"
      "t1 = t + 1 \<or> t1 \<le> MaxTotalItems"
      using "2.IH"(1) [OF rest False guards dv] by auto
    have "wf_val (BList (list @ [val]))" "depth + height (BList (list @ [val])) \<le> MaxDecodeDepth"
      using "2.prems" guards 1 height_list_le [of list "MaxDecodeDepth - depth"]
        height_list_le [of "list @ [val]" "MaxDecodeDepth - depth"] by auto
    then show ?thesis
      using "2.IH"(2) [OF rest False guards dv refl refl dl] "2.prems"(2) guards 1 by auto
  qed
next
  case (3 rest dict prevKey depth t)
  obtain b bs where rest: "rest = b # bs"
    using "3.prems" by (auto simp: decodeDict.simps split: list.splits)
  show ?case
  proof (cases "b = 101")
    case True
    then show ?thesis using "3.prems" rest by (auto simp: decodeDict.simps)
  next
    case False
    then obtain key rem val rem2 t1 where
      guards: "\<not> length dict \<ge> MaxCollectionSize" "\<not> t + 1 > MaxTotalItems"
        "\<not> (b < 48 \<or> b > 57)" "\<not> (dict \<noteq> [] \<and> key < prevKey)" "rem \<noteq> []"
      and ds: "decodeString rest = Inr (key, rem)"
      and dv: "decodeValue rem (depth + 1) (t + 1) = Inr (val, rem2, t1)"
      and dd: "decodeDict rem2 (dict_put key val dict) key depth t1 = Inr (v, r, t')"
      using decodeDict_step "3.prems"(1) rest by metis
    note IH = "3.IH"(1) [OF rest False guards(1-3) ds refl guards(4) guards(5) dv]
      "3.IH"(2) [OF rest False guards(1-3) ds refl guards(4) guards(5) dv refl refl dd]
    have 1: "wf_val val" "depth + 1 + height val \<le> MaxDecodeDepth" "t + 1 + items val \<le> t1"
      "t1 = t + 1 \<or> t1 \<le> MaxTotalItems"
      using IH(1) guards by auto
    have "wf_val (BDict (dict_put key val dict))"
      using "3.prems"(3) guards 1 decodeString_wf [OF ds] length_dict_put [of key val dict]
        set_dict_put [of key val dict] by (fastforce simp: list_all_iff)
    moreover have "depth + height (BDict (dict_put key val dict)) \<le> MaxDecodeDepth"
      using "3.prems"(2,4) 1 set_dict_put [of key val dict]
        height_dict_le [of dict "MaxDecodeDepth - depth"]
        height_dict_le [of "dict_put key val dict" "MaxDecodeDepth - depth"] by fastforce
    ultimately show ?thesis
      using IH(2) "3.prems"(2) guards 1 items_dict_put [of key val dict] by auto
  qed
qed

section \<open>What the other components use\<close>

text \<open>
  The values the decoder can return, the round trip on them, and the codec contract with the
  decoder as the stream reader.
\<close>

definition encodable :: "bval \<Rightarrow> bool" where
  "encodable v \<longleftrightarrow> wf_val v \<and> height v \<le> MaxDecodeDepth \<and> items v \<le> MaxTotalItems"

lemma Encode_enc: "wf_val v \<Longrightarrow> Encode v = Inr (enc v)"
  using encode_enc(1) [of v "[]"] by (simp add: Encode_def)

lemma decodeValue_encodable: "encodable v \<Longrightarrow> decodeValue (enc v @ rest) 0 0 = Inr (v, rest, items v)"
  using decodeValue_enc [of v] unfolding encodable_def decodes_back_def by (metis add_0)

lemma Decode_enc: "encodable v \<Longrightarrow> Decode (enc v) = Inr v"
  using decodeValue_encodable [of v "[]"] by (simp add: Decode_def)

lemma Decode_encodable: "Decode data = Inr v \<Longrightarrow> encodable v"
  by (auto simp: Decode_def encodable_def split: sum.splits dest!: decode_wf(1))

interpretation bencoded: codec enc
  "\<lambda>s. map_sum id (\<lambda>(v, r, t). (v, r)) (decodeValue s 0 0)" encodable
  by unfold_locales (simp add: decodeValue_encodable)

text \<open>Dictionaries built by a sequence of assignments.\<close>

definition dict_of :: "(bytes \<times> bval) list \<Rightarrow> dict" where
  "dict_of kvs = foldl (\<lambda>d (k, v). dict_put k v d) [] kvs"

lemma dict_of_Nil [simp]: "dict_of [] = []"
  by (simp add: dict_of_def)

lemma dict_of_snoc [simp]: "dict_of (kvs @ [(k, v)]) = dict_put k v (dict_of kvs)"
  by (simp add: dict_of_def)

lemma dict_ok_dict_of [simp]: "dict_ok (dict_of kvs)"
  by (induction kvs rule: rev_induct) auto

lemma map_of_dict_of [simp]: "map_of (dict_of kvs) k = map_of (rev kvs) k"
  by (induction kvs rule: rev_induct) auto

lemma set_dict_of: "set (dict_of kvs) \<subseteq> set kvs"
proof (induction kvs rule: rev_induct)
  case (snoc kv kvs)
  then show ?case using set_dict_put [of "fst kv" "snd kv" "dict_of kvs"] by (cases kv) auto
qed simp

lemma length_dict_of: "length (dict_of kvs) \<le> length kvs"
proof (induction kvs rule: rev_induct)
  case (snoc kv kvs)
  then show ?case using length_dict_put [of "fst kv" "snd kv" "dict_of kvs"] by (cases kv) auto
qed simp

lemma items_dict_of: "items (BDict (dict_of kvs)) \<le> items (BDict kvs)"
proof (induction kvs rule: rev_induct)
  case (snoc kv kvs)
  then show ?case
    using items_dict_put [of "fst kv" "snd kv" "dict_of kvs"] by (cases kv) auto
qed simp

lemma encodable_dict_of:
  assumes "\<And>k v. (k, v) \<in> set kvs \<Longrightarrow> length k \<le> MaxStringLength \<and> wf_val v \<and> height v < MaxDecodeDepth"
    and "length kvs \<le> MaxCollectionSize" "items (BDict kvs) \<le> MaxTotalItems"
  shows "encodable (BDict (dict_of kvs))"
proof -
  have "\<forall>(k, v)\<in>set (dict_of kvs). length k \<le> MaxStringLength \<and> wf_val v \<and> height v < MaxDecodeDepth"
    using assms(1) set_dict_of [of kvs] by blast
  then show ?thesis
    using assms(2,3) length_dict_of [of kvs] items_dict_of [of kvs]
    unfolding encodable_def height_dict_le
    by (auto simp: list_all_iff Suc_le_eq simp del: items.simps)
qed

lemma dict_of_sorted: "dict_ok d \<Longrightarrow> dict_of d = d"
proof (induction d rule: rev_induct)
  case (snoc kv d)
  obtain k v where kv: "kv = (k, v)" by (cases kv)
  have "dict_ok d" "\<forall>k'\<in>fst ` set d. k' < k"
    using snoc.prems by (auto simp: kv dict_ok_def sorted_wrt_append)
  then show ?case using snoc.IH by (simp add: kv dict_put_append)
qed simp

lemma dict_by_lookup: "distinct (map fst d) \<Longrightarrow> map (\<lambda>k. (k, the (map_of d k))) (map fst d) = d"
proof (induction d)
  case (Cons kv d)
  have "map (\<lambda>k. (k, the (map_of (kv # d) k))) (map fst d) = map (\<lambda>k. (k, the (map_of d k))) (map fst d)"
    using Cons.prems by (auto simp: image_iff)
  with Cons show ?case by (cases kv) simp
qed simp

lemma dict_ext:
  assumes "dict_ok d" "dict_ok e" "map_of d = map_of e"
  shows "d = e"
proof -
  have "set (map fst d) = set (map fst e)"
    using assms(3) by (metis dom_map_of_conv_image_fst set_map)
  then have "map fst d = map fst e"
    using assms(1,2) by (intro strict_sorted_equal) (simp_all add: dict_ok_def)
  then show ?thesis
    using assms dict_by_lookup dict_ok_distinct by metis
qed

section \<open>Properties of the codec\<close>

text \<open>The equations that evaluate the decoder on a concrete input.\<close>

lemmas decode_eval = Decode_def DecodeBytes_def decode_simps decodeString_def decodeInt_def
  ParseInt_def dec_val_def digit_val_def is_digit_def slice_def gostr_def
  MaxStringLength_def MaxCollectionSize_def MaxDecodeDepth_def MaxTotalItems_def

text \<open>
  C1: encoding a well-formed value within the decoder's limits succeeds, and decoding the result,
  alone or followed by any bytes, gives the value back and consumes exactly the encoding.
\<close>

theorem bencode_roundtrip:
  assumes "wf_val v" "height v \<le> MaxDecodeDepth" "items v \<le> MaxTotalItems"
  shows "\<exists>bs. Encode v = Inr bs \<and> Decode bs = Inr v
    \<and> (\<forall>rest. DecodeBytes (bs @ rest) = Inr (v, length bs))"
proof -
  have v: "encodable v" using assms by (simp add: encodable_def)
  show ?thesis
    using Encode_enc [OF assms(1)] Decode_enc [OF v] decodeValue_encodable [OF v]
    by (simp add: DecodeBytes_def)
qed

theorem bencode_roundtrip_witness:
  "\<exists>bs. Encode (BDict [(gostr ''a'', BInt (- 3)), (gostr ''b'', BList [BStr []])]) = Inr bs
    \<and> Decode bs = Inr (BDict [(gostr ''a'', BInt (- 3)), (gostr ''b'', BList [BStr []])])
    \<and> (\<forall>rest. DecodeBytes (bs @ rest)
        = Inr (BDict [(gostr ''a'', BInt (- 3)), (gostr ''b'', BList [BStr []])], length bs))"
  by (rule bencode_roundtrip)
    (simp_all add: gostr_def MaxStringLength_def MaxCollectionSize_def MaxDecodeDepth_def
      MaxTotalItems_def in_int64_def min_int64_def max_int64_def)

text \<open>
  C2: whatever input the decoder accepts, the value is well-formed and within all four resource
  limits, and re-encoding it gives a canonical form that decodes to the same value.
\<close>

theorem Decode_sound:
  assumes "Decode data = Inr v"
  shows "wf_val v \<and> height v \<le> MaxDecodeDepth \<and> items v \<le> MaxTotalItems
    \<and> (\<exists>bs. Encode v = Inr bs \<and> Decode bs = Inr v)"
  using Decode_encodable [OF assms] Encode_enc [of v] Decode_enc [of v]
  by (simp add: encodable_def)

theorem Decode_sound_witness:
  "Decode (gostr ''d1:bi+7e1:bl02:xyee'') = Inr (BDict [(gostr ''b'', BList [BStr (gostr ''xy'')])])
   \<and> wf_val (BDict [(gostr ''b'', BList [BStr (gostr ''xy'')])])
   \<and> (\<exists>bs. Encode (BDict [(gostr ''b'', BList [BStr (gostr ''xy'')])]) = Inr bs
       \<and> Decode bs = Inr (BDict [(gostr ''b'', BList [BStr (gostr ''xy'')])]))"
proof -
  have "Decode (gostr ''d1:bi+7e1:bl02:xyee'')
      = Inr (BDict [(gostr ''b'', BList [BStr (gostr ''xy'')])])"
    by (simp add: decode_eval)
  then show ?thesis using Decode_sound by blast
qed

text \<open>
  C3: \<open>DecodeBytes\<close> looks at the bytes it reports as consumed and at no others: it consumes at
  least one and at most all of the input, and any continuation of that prefix decodes to the same
  value with the same count.
\<close>

theorem DecodeBytes_local:
  assumes "DecodeBytes data = Inr (v, n)"
  shows "0 < n \<and> n \<le> length data \<and> (\<forall>rest. DecodeBytes (take n data @ rest) = Inr (v, n))"
proof -
  obtain r t where dv: "decodeValue data 0 0 = Inr (v, r, t)" and n: "n = length data - length r"
    using assms by (auto simp: DecodeBytes_def split: sum.splits)
  obtain pre where pre: "data = pre @ r" "pre \<noteq> []"
    "\<And>rest'. decodeValue (pre @ rest') 0 0 = Inr (v, rest', t)"
    using dlocal_decodeValue(1) [OF dv] by (auto simp: dlocal_def)
  then have "n = length pre" "take n data = pre" using n by auto
  then show ?thesis using pre by (simp add: DecodeBytes_def)
qed

theorem DecodeBytes_local_witness:
  "DecodeBytes (gostr ''i42eXYZ'') = Inr (BInt 42, 4)
   \<and> DecodeBytes (take 4 (gostr ''i42eXYZ'') @ gostr ''tail'') = Inr (BInt 42, 4)"
proof -
  have "DecodeBytes (gostr ''i42eXYZ'') = Inr (BInt 42, 4)" by (simp add: decode_eval)
  then show ?thesis using DecodeBytes_local by blast
qed

end
