(* ===== verification/Peer_Extension.thy ===== *)
theory Peer_Extension
  imports Bencode Peer_Wire
begin

text \<open>
  The BEP 10 extension protocol of \<^verbatim>\<open>src/peer/extension.go\<close> and \<^verbatim>\<open>src/peer/extconn.go\<close>: the extended
  handshake as a bencoded dictionary, extended messages with a sub-id, and the two loops that read
  messages until the right one comes. A connection is the stream of bytes still to read, and what
  is written is returned. The maps \<open>M\<close> are association lists; the canonical ones are sorted.
\<close>

section \<open>Extended handshake and messages\<close>

definition MsgExtended :: byte where "MsgExtended = 20"
definition ExtHandshakeID :: byte where "ExtHandshakeID = 0"

record ExtHandshake =
  eh_M :: "(bytes \<times> int) list"
  eh_MetadataSize :: int
  eh_V :: bytes

datatype xerror =
    XBencode berror
  | XWire perror
  | XNotDict
  | XMNotDict
  | XUnsupported

definition EncodeExtHandshake :: "ExtHandshake \<Rightarrow> berror + bytes" where
  "EncodeExtHandshake h =
     (let d0 = [];
          d1 = (if length (eh_M h) > 0
                then dict_put (gostr ''m'')
                       (BDict (foldl (\<lambda>m (k, v). dict_put k (BInt v) m) [] (eh_M h))) d0
                else d0);
          d2 = (if eh_MetadataSize h > 0
                then dict_put (gostr ''metadata_size'') (BInt (eh_MetadataSize h)) d1 else d1);
          d3 = (if eh_V h \<noteq> [] then dict_put (gostr ''v'') (BStr (eh_V h)) d2 else d2)
      in Encode (BDict d3))"

definition int64_entry :: "bytes \<times> bval \<Rightarrow> (bytes \<times> int) option" where
  "int64_entry kv = (case snd kv of BInt n \<Rightarrow> Some (fst kv, n) | _ \<Rightarrow> None)"

definition DecodeExtHandshake :: "bytes \<Rightarrow> xerror + ExtHandshake" where
  "DecodeExtHandshake data =
     (case Decode data of
        Inl e \<Rightarrow> Inl (XBencode e)
      | Inr (BDict d) \<Rightarrow>
          (let size = (case map_of d (gostr ''metadata_size'') of Some (BInt n) \<Rightarrow> n | _ \<Rightarrow> 0);
               v = (case map_of d (gostr ''v'') of Some (BStr s) \<Rightarrow> s | _ \<Rightarrow> [])
           in case map_of d (gostr ''m'') of
                None \<Rightarrow> Inr \<lparr>eh_M = [], eh_MetadataSize = size, eh_V = v\<rparr>
              | Some (BDict mDict) \<Rightarrow>
                  Inr \<lparr>eh_M = List.map_filter int64_entry mDict, eh_MetadataSize = size, eh_V = v\<rparr>
              | Some _ \<Rightarrow> Inl XMNotDict)
      | Inr _ \<Rightarrow> Inl XNotDict)"

definition NewExtendedMessage :: "byte \<Rightarrow> bytes \<Rightarrow> Message" where
  "NewExtendedMessage extID payload = \<lparr>ID = MsgExtended, Payload = extID # payload\<rparr>"

definition ParseExtended :: "bytes \<Rightarrow> perror + byte \<times> bytes" where
  "ParseExtended payload =
     (if length payload < 1 then Inl PayloadTooShort else Inr (payload ! 0, drop 1 payload))"

section \<open>Extension connections\<close>

record ExtConn =
  localExtID :: byte
  remoteExtID :: byte

definition NewExtConn :: "byte \<Rightarrow> byte \<Rightarrow> ExtConn" where
  "NewExtConn lid rid = \<lparr>localExtID = lid, remoteExtID = rid\<rparr>"

definition SendExtMessage :: "ExtConn \<Rightarrow> bytes \<Rightarrow> bytes" where
  "SendExtMessage c payload = Message_Write (NewExtendedMessage (remoteExtID c) payload)"

lemma ReadMessage_shrinks: "ReadMessage r = Inr (m, r') \<Longrightarrow> length r' < length r"
  using wire.read_canonical [of r m r']
  by (auto simp: WriteMessage_def WriteKeepAlive_def Message_Write_def split: option.splits)

function ReadExtMessage :: "ExtConn \<Rightarrow> bytes \<Rightarrow> perror + bytes \<times> bytes" where
  "ReadExtMessage c r =
     (case ReadMessage r of
        Inl e \<Rightarrow> Inl e
      | Inr (None, r') \<Rightarrow> ReadExtMessage c r'
      | Inr (Some msg, r') \<Rightarrow>
          if ID msg \<noteq> MsgExtended then ReadExtMessage c r'
          else (case ParseExtended (Payload msg) of
                  Inl e \<Rightarrow> Inl e
                | Inr (extID, data) \<Rightarrow>
                    if extID \<noteq> localExtID c then ReadExtMessage c r' else Inr (data, r')))"
  by pat_completeness auto
termination
  by (relation "measure (length \<circ> snd)") (auto dest: ReadMessage_shrinks)

declare ReadExtMessage.simps [simp del]

text \<open>The loop of \<open>NegotiateExtension\<close> that waits for the peer's extended handshake.\<close>

function awaitExtHandshake :: "bytes \<Rightarrow> byte \<Rightarrow> bytes \<Rightarrow> xerror + ExtConn \<times> ExtHandshake \<times> bytes" where
  "awaitExtHandshake extName ourID r =
     (case ReadMessage r of
        Inl e \<Rightarrow> Inl (XWire e)
      | Inr (None, r') \<Rightarrow> awaitExtHandshake extName ourID r'
      | Inr (Some msg, r') \<Rightarrow>
          if ID msg \<noteq> MsgExtended then awaitExtHandshake extName ourID r'
          else (case ParseExtended (Payload msg) of
                  Inl e \<Rightarrow> Inl (XWire e)
                | Inr (extID, data) \<Rightarrow>
                    if extID \<noteq> ExtHandshakeID then awaitExtHandshake extName ourID r'
                    else (case DecodeExtHandshake data of
                            Inl e \<Rightarrow> Inl e
                          | Inr peerHS \<Rightarrow>
                              (case map_of (eh_M peerHS) extName of
                                 None \<Rightarrow> Inl XUnsupported
                               | Some remoteID \<Rightarrow>
                                   if remoteID = 0 then Inl XUnsupported
                                   else Inr (NewExtConn ourID (word_of_int remoteID), peerHS, r')))))"
  by pat_completeness auto
termination
  by (relation "measure (length \<circ> snd \<circ> snd)") (auto dest: ReadMessage_shrinks)

declare awaitExtHandshake.simps [simp del]

definition NegotiateExtension ::
  "bytes \<Rightarrow> byte \<Rightarrow> ExtHandshake \<Rightarrow> bytes \<Rightarrow> bytes \<times> (xerror + ExtConn \<times> ExtHandshake \<times> bytes)"
where
  "NegotiateExtension extName ourID ourHandshake r =
     (case EncodeExtHandshake ourHandshake of
        Inl e \<Rightarrow> ([], Inl (XBencode e))
      | Inr hsPayload \<Rightarrow>
          (Message_Write (NewExtendedMessage ExtHandshakeID hsPayload),
           awaitExtHandshake extName ourID r))"

section \<open>Extended handshake round trip\<close>

definition M_dict :: "(bytes \<times> int) list \<Rightarrow> dict" where
  "M_dict M = map (\<lambda>(k, v). (k, BInt v)) M"

lemma foldl_put_M:
  "dict_ok (M_dict acc @ M_dict M) \<Longrightarrow>
     foldl (\<lambda>m (k, v). dict_put k (BInt v) m) (M_dict acc) M = M_dict (acc @ M)"
proof (induction M arbitrary: acc)
  case (Cons kv M)
  obtain k v where kv: "kv = (k, v)" by (cases kv)
  have "dict_put k (BInt v) (M_dict acc) = M_dict (acc @ [kv])"
    using Cons.prems dict_put_append [of "M_dict acc" k "BInt v"]
    by (auto simp: kv M_dict_def dict_ok_def sorted_wrt_append)
  then show ?case
    using Cons.IH [of "acc @ [kv]"] Cons.prems by (simp add: kv M_dict_def)
qed simp

lemma map_filter_M_dict: "List.map_filter int64_entry (M_dict M) = M"
  by (induction M) (auto simp: M_dict_def List.map_filter_def int64_entry_def)

text \<open>
  The handshakes that fit the decoder: a sorted map of names to \<open>int64\<close> ids, a size and a version
  within the limits, and an encoding below the message cap.
\<close>

definition ext_ok :: "ExtHandshake \<Rightarrow> bool" where
  "ext_ok h \<longleftrightarrow>
     sorted_wrt (<) (map fst (eh_M h)) \<and> length (eh_M h) \<le> MaxCollectionSize \<and>
     (\<forall>(k, v)\<in>set (eh_M h). length k \<le> MaxStringLength \<and> in_int64 v) \<and>
     0 \<le> eh_MetadataSize h \<and> in_int64 (eh_MetadataSize h) \<and> length (eh_V h) \<le> MaxStringLength"

lemma limit_facts:
  "0 < MaxDecodeDepth" "1 < MaxDecodeDepth" "3 < MaxCollectionSize"
  "MaxCollectionSize + 3 \<le> MaxTotalItems" "13 \<le> MaxStringLength"
  by (simp_all add: MaxDecodeDepth_def MaxCollectionSize_def MaxTotalItems_def MaxStringLength_def)

lemma height_M_dict: "height (BDict (M_dict M)) \<le> 1"
  unfolding height_dict_le by (auto simp: M_dict_def)

lemma items_M_dict: "items (BDict (M_dict M)) = length M"
  by (induction M) (auto simp: M_dict_def)

lemma dict_ok_M_dict: "sorted_wrt (<) (map fst M) \<Longrightarrow> dict_ok (M_dict M)"
  by (simp add: M_dict_def dict_ok_def comp_def case_prod_beta)

lemma wf_M_dict: "ext_ok h \<Longrightarrow> wf_val (BDict (M_dict (eh_M h)))"
  using dict_ok_M_dict [of "eh_M h"] by (auto simp: ext_ok_def M_dict_def list_all_iff)

definition ext_entries :: "ExtHandshake \<Rightarrow> dict" where
  "ext_entries h =
     (if eh_M h \<noteq> [] then [(gostr ''m'', BDict (M_dict (eh_M h)))] else []) @
     (if eh_MetadataSize h > 0 then [(gostr ''metadata_size'', BInt (eh_MetadataSize h))] else []) @
     (if eh_V h \<noteq> [] then [(gostr ''v'', BStr (eh_V h))] else [])"

lemma EncodeExtHandshake_entries:
  assumes "ext_ok h"
  shows "EncodeExtHandshake h = Encode (BDict (dict_of (ext_entries h)))"
proof -
  have "foldl (\<lambda>m (k, v). dict_put k (BInt v) m) [] (eh_M h) = M_dict (eh_M h)"
    using foldl_put_M [of "[]" "eh_M h"] dict_ok_M_dict [of "eh_M h"] assms
    by (simp add: ext_ok_def M_dict_def)
  then show ?thesis
    by (simp add: EncodeExtHandshake_def ext_entries_def dict_of_def Let_def)
qed

lemma ext_entries_encodable:
  assumes "ext_ok h"
  shows "encodable (BDict (dict_of (ext_entries h)))"
proof (rule encodable_dict_of)
  have M: "length (eh_M h) \<le> MaxCollectionSize" using assms by (simp add: ext_ok_def)
  show "length (ext_entries h) \<le> MaxCollectionSize"
    using limit_facts by (auto simp: ext_entries_def)
  have "items (BDict (ext_entries h)) \<le> 3 + items (BDict (M_dict (eh_M h)))"
    by (auto simp: ext_entries_def)
  then show "items (BDict (ext_entries h)) \<le> MaxTotalItems"
    using M limit_facts by (simp add: items_M_dict del: items.simps)
  show "length k \<le> MaxStringLength \<and> wf_val v \<and> height v < MaxDecodeDepth"
    if "(k, v) \<in> set (ext_entries h)" for k v
    using that wf_M_dict [OF assms] height_M_dict [of "eh_M h"] limit_facts assms
    by (auto simp: ext_entries_def ext_ok_def simp del: height.simps(2) wf_val.simps(4) split: if_splits)
qed

lemma ext_roundtrip:
  assumes "ext_ok h"
  shows "EncodeExtHandshake h = Inr (enc (BDict (dict_of (ext_entries h))))"
    "DecodeExtHandshake (enc (BDict (dict_of (ext_entries h)))) = Inr h"
proof -
  show "EncodeExtHandshake h = Inr (enc (BDict (dict_of (ext_entries h))))"
    using ext_entries_encodable [OF assms]
    by (simp add: EncodeExtHandshake_entries [OF assms] Encode_enc encodable_def del: wf_val.simps)
  have "map_of (rev (ext_entries h)) (gostr ''m'') = (if eh_M h \<noteq> [] then Some (BDict (M_dict (eh_M h))) else None)"
    "map_of (rev (ext_entries h)) (gostr ''metadata_size'')
      = (if eh_MetadataSize h > 0 then Some (BInt (eh_MetadataSize h)) else None)"
    "map_of (rev (ext_entries h)) (gostr ''v'') = (if eh_V h \<noteq> [] then Some (BStr (eh_V h)) else None)"
    by (simp_all add: ext_entries_def)
  then show "DecodeExtHandshake (enc (BDict (dict_of (ext_entries h)))) = Inr h"
    using assms unfolding DecodeExtHandshake_def Decode_enc [OF ext_entries_encodable [OF assms]]
    by (auto simp: Let_def map_filter_M_dict ext_ok_def)
qed

section \<open>Skipping other messages\<close>

definition other_message :: "byte \<Rightarrow> Message option \<Rightarrow> bool" where
  "other_message extID m =
     (case m of
        None \<Rightarrow> True
      | Some m \<Rightarrow> ID m \<noteq> MsgExtended \<or> (Payload m \<noteq> [] \<and> hd (Payload m) \<noteq> extID))"

lemma ReadExtMessage_skip:
  assumes "message_ok m" "other_message (localExtID c) m"
  shows "ReadExtMessage c (WriteMessage m @ s) = ReadExtMessage c s"
  using assms(2)
  by (subst ReadExtMessage.simps)
    (auto simp: wire.read_write [OF assms(1)] other_message_def ParseExtended_def hd_conv_nth
      Suc_le_eq split: option.splits)

lemma awaitExtHandshake_skip:
  assumes "message_ok m" "other_message ExtHandshakeID m"
  shows "awaitExtHandshake name i (WriteMessage m @ s) = awaitExtHandshake name i s"
  using assms(2)
  by (subst awaitExtHandshake.simps)
    (auto simp: wire.read_write [OF assms(1)] other_message_def ParseExtended_def hd_conv_nth
      Suc_le_eq split: option.splits)

lemma skip_all:
  assumes "\<forall>m\<in>set ms. message_ok m \<and> other_message x m"
  shows "localExtID c = x \<Longrightarrow> ReadExtMessage c (concat (map WriteMessage ms) @ s) = ReadExtMessage c s"
    and "x = ExtHandshakeID \<Longrightarrow>
      awaitExtHandshake name i (concat (map WriteMessage ms) @ s) = awaitExtHandshake name i s"
  using assms by (induction ms) (simp_all add: ReadExtMessage_skip awaitExtHandshake_skip)

lemma ReadExtMessage_match:
  assumes "length data < 4 * 1024 * 1024 - 1"
  shows "ReadExtMessage c (Message_Write (NewExtendedMessage (localExtID c) data) @ s) = Inr (data, s)"
  using assms
  by (subst ReadExtMessage.simps) (simp add: ReadMessage_Write NewExtendedMessage_def ParseExtended_def)

lemma awaitExtHandshake_match:
  assumes "length data < 4 * 1024 * 1024 - 1" "DecodeExtHandshake data = Inr h"
    and "map_of (eh_M h) name = Some rid" "rid \<noteq> 0"
  shows "awaitExtHandshake name i (Message_Write (NewExtendedMessage ExtHandshakeID data) @ s)
    = Inr (NewExtConn i (word_of_int rid), h, s)"
  using assms
  by (subst awaitExtHandshake.simps) (simp add: ReadMessage_Write NewExtendedMessage_def ParseExtended_def)

section \<open>Properties\<close>

text \<open>
  C14: The extended handshake survives encoding and decoding: for every handshake within the
  decoder's limits, with the extension map in canonical order and a size that is not negative,
  encoding succeeds and decoding gives back the map, the metadata size and the version.
\<close>

theorem ext_handshake_roundtrip:
  assumes "ext_ok h"
  shows "\<exists>b. EncodeExtHandshake h = Inr b \<and> DecodeExtHandshake b = Inr h"
  using ext_roundtrip [OF assms] by blast

definition demo_ext :: "int \<Rightarrow> ExtHandshake" where
  "demo_ext i = \<lparr>eh_M = [(gostr ''ut_metadata'', i)], eh_MetadataSize = 0, eh_V = []\<rparr>"

lemma demo_ext_ok: "in_int64 i \<Longrightarrow> ext_ok (demo_ext i)"
  by (simp add: demo_ext_def ext_ok_def in_int64_def min_int64_def max_int64_def
      MaxCollectionSize_def MaxStringLength_def)

theorem ext_handshake_roundtrip_witness:
  "\<exists>b. EncodeExtHandshake (demo_ext 3) = Inr b \<and> DecodeExtHandshake b = Inr (demo_ext 3)"
  by (rule ext_handshake_roundtrip) (simp add: demo_ext_ok in_int64_def min_int64_def max_int64_def)

text \<open>
  C15: Two peers that negotiate an extension agree on its message ids. When each side sends its
  handshake, with any other messages before it, and announces an id between 1 and 255 under the
  extension's name, both negotiations succeed, and what one side then sends over its extension
  connection, with any foreign messages in between, is exactly what the other side reads.
\<close>

theorem negotiation_agrees:
  assumes "ext_ok hA" "ext_ok hB"
    and "NegotiateExtension name a hA inA = (outA, rA)" "NegotiateExtension name b hB inB = (outB, rB)"
    and "length outA < 4 * 1024 * 1024" "length outB < 4 * 1024 * 1024"
    and "map_of (eh_M hA) name = Some (uint a)" "map_of (eh_M hB) name = Some (uint b)" "a \<noteq> 0" "b \<noteq> 0"
    and "inA = concat (map WriteMessage noiseB) @ outB @ sA" "inB = concat (map WriteMessage noiseA) @ outA @ sB"
    and "\<forall>m\<in>set (noiseA @ noiseB). message_ok m \<and> other_message ExtHandshakeID m"
    and "\<forall>m\<in>set ms. message_ok m \<and> other_message b m" "length payload < 4 * 1024 * 1024 - 1"
  shows "\<exists>cA cB. rA = Inr (cA, hB, sA) \<and> rB = Inr (cB, hA, sB) \<and>
    ReadExtMessage cB (concat (map WriteMessage ms) @ SendExtMessage cA payload @ s) = Inr (payload, s)"
proof -
  let ?e = "\<lambda>h. enc (BDict (dict_of (ext_entries h)))"
  have out: "outA = Message_Write (NewExtendedMessage ExtHandshakeID (?e hA))"
    "outB = Message_Write (NewExtendedMessage ExtHandshakeID (?e hB))"
    "rA = awaitExtHandshake name a inA" "rB = awaitExtHandshake name b inB"
    using assms(3,4) by (auto simp: NegotiateExtension_def ext_roundtrip assms(1,2))
  have len: "length (?e hA) < 4 * 1024 * 1024 - 1" "length (?e hB) < 4 * 1024 * 1024 - 1"
    using assms(5,6) by (simp_all add: out(1,2) Message_Write_def NewExtendedMessage_def)
  have nz: "uint a \<noteq> 0" "uint b \<noteq> 0" using assms(9,10) by (simp_all add: uint_0_iff)
  have rA: "rA = Inr (NewExtConn a b, hB, sA)"
    using awaitExtHandshake_match [OF len(2) ext_roundtrip(2) [OF assms(2)] assms(8) nz(2)]
      skip_all(2) [of noiseB ExtHandshakeID] assms(13)
    by (simp add: out assms(11))
  have rB: "rB = Inr (NewExtConn b a, hA, sB)"
    using awaitExtHandshake_match [OF len(1) ext_roundtrip(2) [OF assms(1)] assms(7) nz(1)]
      skip_all(2) [of noiseA ExtHandshakeID] assms(13)
    by (simp add: out assms(12))
  have "ReadExtMessage (NewExtConn b a) (concat (map WriteMessage ms) @
      SendExtMessage (NewExtConn a b) payload @ s) = Inr (payload, s)"
    using skip_all(1) [OF assms(14), of "NewExtConn b a"]
      ReadExtMessage_match [OF assms(15), of "NewExtConn b a"]
    by (simp add: NewExtConn_def SendExtMessage_def)
  with rA rB show ?thesis by blast
qed

lemma demo_ext_bytes:
  "enc (BDict (dict_of (ext_entries (demo_ext 3)))) = gostr ''d1:md11:ut_metadatai3eee''"
  "enc (BDict (dict_of (ext_entries (demo_ext 2)))) = gostr ''d1:md11:ut_metadatai2eee''"
  "enc (BDict (dict_of (ext_entries (demo_ext 256)))) = gostr ''d1:md11:ut_metadatai256eee''"
  by (simp_all add: demo_ext_def ext_entries_def dict_of_def M_dict_def enc_str_def FormatInt_def
      fmt_nat.simps digit_byte_def gostr_def)

theorem negotiation_agrees_witness:
  "\<exists>outA outB cA cB.
     NegotiateExtension (gostr ''ut_metadata'') 3 (demo_ext 3) outB = (outA, Inr (cA, demo_ext 2, [])) \<and>
     NegotiateExtension (gostr ''ut_metadata'') 2 (demo_ext 2) outA = (outB, Inr (cB, demo_ext 3, [])) \<and>
     ReadExtMessage cB (SendExtMessage cA [1, 2, 3]) = Inr ([1, 2, 3], [])"
proof -
  let ?n = "gostr ''ut_metadata''"
  let ?out = "\<lambda>i. Message_Write (NewExtendedMessage ExtHandshakeID (enc (BDict (dict_of (ext_entries (demo_ext i))))))"
  have ok: "ext_ok (demo_ext 3)" "ext_ok (demo_ext 2)"
    by (simp_all add: demo_ext_ok in_int64_def min_int64_def max_int64_def)
  obtain rA rB where r: "NegotiateExtension ?n 3 (demo_ext 3) (?out 2) = (?out 3, rA)"
    "NegotiateExtension ?n 2 (demo_ext 2) (?out 3) = (?out 2, rB)"
    by (simp add: NegotiateExtension_def ext_roundtrip ok)
  have "length (?out 3) < 4 * 1024 * 1024" "length (?out 2) < 4 * 1024 * 1024"
    unfolding demo_ext_bytes by (simp_all add: Message_Write_def NewExtendedMessage_def)
  then have "\<exists>cA cB. rA = Inr (cA, demo_ext 2, []) \<and> rB = Inr (cB, demo_ext 3, []) \<and>
      ReadExtMessage cB (concat (map WriteMessage []) @ SendExtMessage cA [1, 2, 3] @ []) = Inr ([1, 2, 3], [])"
    by (intro negotiation_agrees [OF ok r, where noiseA = "[]" and noiseB = "[]"])
      (simp_all add: demo_ext_def)
  with r show ?thesis by auto
qed

text \<open>
  The id the peer announces is checked before it is cut to a byte: an announced 256 passes the check
  for zero and leaves the connection with id 0, the one of the extended handshake itself.
\<close>

lemma announced_id_truncated:
  "awaitExtHandshake (gostr ''ut_metadata'') 3
     (Message_Write (NewExtendedMessage ExtHandshakeID (gostr ''d1:md11:ut_metadatai256eee'')))
   = Inr (NewExtConn 3 ExtHandshakeID, demo_ext 256, [])"
proof -
  have ok: "ext_ok (demo_ext 256)"
    by (simp add: demo_ext_ok in_int64_def min_int64_def max_int64_def)
  have "(256 :: byte) = 0" by code_simp
  moreover have "map_of (eh_M (demo_ext 256)) (gostr ''ut_metadata'') = Some 256"
    by (simp add: demo_ext_def)
  ultimately show ?thesis
    using awaitExtHandshake_match [OF _ ext_roundtrip(2) [OF ok, unfolded demo_ext_bytes], of _ 256 3 "[]"]
    by (simp add: ExtHandshakeID_def NewExtConn_def)
qed
end
