(* ===== verification/Go_Net.thy ===== *)
theory Go_Net
  imports Go_Prelude
begin

text \<open>
  The \<open>net.IP\<close> methods the program uses. An address is a byte slice, of length 4 or 16 when it is
  valid; an IPv4 address may also be stored in the IPv4-mapped 16-byte form.
\<close>

type_synonym IP = bytes

definition v4InV6Prefix :: bytes where
  "v4InV6Prefix = replicate 10 0 @ [0xff, 0xff]"

definition To4 :: "IP \<Rightarrow> IP option" where
  "To4 ip =
     (if length ip = 4 then Some ip
      else if length ip = 16 \<and> take 12 ip = v4InV6Prefix then Some (drop 12 ip)
      else None)"

definition To16 :: "IP \<Rightarrow> IP option" where
  "To16 ip =
     (if length ip = 4 then Some (v4InV6Prefix @ ip)
      else if length ip = 16 then Some ip
      else None)"

lemma To4_length: "To4 ip = Some ip4 \<Longrightarrow> length ip4 = 4"
  by (auto simp: To4_def split: if_splits)

lemma To16_length: "To16 ip = Some ip16 \<Longrightarrow> length ip16 = 16"
  by (auto simp: To16_def v4InV6Prefix_def split: if_splits)

lemma To4_id: "length ip = 4 \<Longrightarrow> To4 ip = Some ip"
  by (simp add: To4_def)

lemma To16_id: "length ip = 16 \<Longrightarrow> To16 ip = Some ip"
  by (simp add: To16_def)

lemma To4_To16: "To4 ip = Some ip4 \<Longrightarrow> To16 ip4 = To16 ip"
  by (auto simp: To4_def To16_def split: if_splits) (metis append_take_drop_id)

lemma To4_None_To16: "To4 ip = None \<Longrightarrow> To16 ip = (if length ip = 16 then Some ip else None)"
  by (auto simp: To4_def To16_def split: if_splits)

end
