(* ===== verification/Peer_Pex.thy ===== *)
theory Peer_Pex
  imports Bencode Go_Net
begin

text \<open>
  Peer exchange (BEP 11), \<^verbatim>\<open>src/peer/pex.go\<close>: lists of added and dropped peers as compact strings,
  6 bytes for an IPv4 peer and 18 for an IPv6 peer, with one flag byte per added peer.
\<close>

section \<open>Messages\<close>

definition maxPEXPeers :: nat where "maxPEXPeers = 10000"

record PEXPeer =
  px_IP :: IP
  px_Port :: "16 word"
  px_Seed :: bool

record PEXMessage =
  Added :: "PEXPeer list"
  Dropped :: "PEXPeer list"

datatype pexerror = PexBencode berror | PexTooManyPeers

definition seedFlag :: "PEXPeer \<Rightarrow> byte" where
  "seedFlag p = (if px_Seed p then 0x02 else 0)"

fun encodeAddedV4 :: "PEXPeer list \<Rightarrow> bytes \<times> bytes" where
  "encodeAddedV4 [] = ([], [])"
| "encodeAddedV4 (p # ps) =
     (case encodeAddedV4 ps of (compact, flags) \<Rightarrow>
        (case To4 (px_IP p) of
           None \<Rightarrow> (compact, flags)
         | Some ip4 \<Rightarrow> (ip4 @ PutUint16 (px_Port p) @ compact, seedFlag p # flags)))"

fun encodeAddedV6 :: "PEXPeer list \<Rightarrow> bytes \<times> bytes" where
  "encodeAddedV6 [] = ([], [])"
| "encodeAddedV6 (p # ps) =
     (case encodeAddedV6 ps of (compact, flags) \<Rightarrow>
        if To4 (px_IP p) \<noteq> None then (compact, flags)
        else (case To16 (px_IP p) of
                None \<Rightarrow> (compact, flags)
              | Some ip16 \<Rightarrow> (ip16 @ PutUint16 (px_Port p) @ compact, seedFlag p # flags)))"

fun encodeDroppedV4 :: "PEXPeer list \<Rightarrow> bytes" where
  "encodeDroppedV4 [] = []"
| "encodeDroppedV4 (p # ps) =
     (case To4 (px_IP p) of
        None \<Rightarrow> encodeDroppedV4 ps
      | Some ip4 \<Rightarrow> ip4 @ PutUint16 (px_Port p) @ encodeDroppedV4 ps)"

fun encodeDroppedV6 :: "PEXPeer list \<Rightarrow> bytes" where
  "encodeDroppedV6 [] = []"
| "encodeDroppedV6 (p # ps) =
     (if To4 (px_IP p) \<noteq> None then encodeDroppedV6 ps
      else (case To16 (px_IP p) of
              None \<Rightarrow> encodeDroppedV6 ps
            | Some ip16 \<Rightarrow> ip16 @ PutUint16 (px_Port p) @ encodeDroppedV6 ps))"

definition EncodePEX :: "PEXMessage \<Rightarrow> berror + bytes" where
  "EncodePEX msg =
     (let d0 = [];
          d1 = (if length (Added msg) > 0
                then let (addedV4, flagsV4) = encodeAddedV4 (Added msg);
                         (addedV6, flagsV6) = encodeAddedV6 (Added msg);
                         d = (if length addedV4 > 0
                              then dict_put (gostr ''added.f'') (BStr flagsV4)
                                     (dict_put (gostr ''added'') (BStr addedV4) d0)
                              else d0)
                     in if length addedV6 > 0
                        then dict_put (gostr ''added6.f'') (BStr flagsV6)
                               (dict_put (gostr ''added6'') (BStr addedV6) d)
                        else d
                else d0);
          d2 = (if length (Dropped msg) > 0
                then let droppedV4 = encodeDroppedV4 (Dropped msg);
                         droppedV6 = encodeDroppedV6 (Dropped msg);
                         d = (if length droppedV4 > 0
                              then dict_put (gostr ''dropped'') (BStr droppedV4) d1 else d1)
                     in if length droppedV6 > 0
                        then dict_put (gostr ''dropped6'') (BStr droppedV6) d else d
                else d1)
      in Encode (BDict d2))"

text \<open>
  One of the four fields of a message: \<open>w\<close> bytes per peer, and the flags string, which is empty
  for dropped peers.
\<close>

definition pexField :: "nat \<Rightarrow> bytes \<Rightarrow> bytes \<Rightarrow> PEXPeer list" where
  "pexField w s flags =
     map (\<lambda>i. let off = i * w
              in \<lparr>px_IP = slice off (off + (w - 2)) s,
                  px_Port = Uint16 (slice (off + (w - 2)) (off + w) s),
                  px_Seed = (i < length flags \<and> flags ! i AND 0x02 \<noteq> 0)\<rparr>)
       [0..<length s div w]"

definition strField :: "dict \<Rightarrow> string \<Rightarrow> bytes" where
  "strField d k = (case map_of d (gostr k) of Some (BStr s) \<Rightarrow> s | _ \<Rightarrow> [])"

definition parsePexField :: "nat \<Rightarrow> dict \<Rightarrow> string \<Rightarrow> bytes \<Rightarrow> pexerror + PEXPeer list" where
  "parsePexField w d key flags =
     (case map_of d (gostr key) of
        Some (BStr s) \<Rightarrow>
          if length s mod w = 0
          then (if length s div w > maxPEXPeers then Inl PexTooManyPeers
                else Inr (pexField w s flags))
          else Inr []
      | _ \<Rightarrow> Inr [])"

definition DecodePEX :: "bytes \<Rightarrow> pexerror + PEXMessage option" where
  "DecodePEX data =
     (case Decode data of
        Inl e \<Rightarrow> Inl (PexBencode e)
      | Inr (BDict d) \<Rightarrow>
          (case parsePexField 6 d ''added'' (strField d ''added.f'') of Inl e \<Rightarrow> Inl e | Inr a4 \<Rightarrow>
          (case parsePexField 18 d ''added6'' (strField d ''added6.f'') of Inl e \<Rightarrow> Inl e | Inr a6 \<Rightarrow>
          (case parsePexField 6 d ''dropped'' [] of Inl e \<Rightarrow> Inl e | Inr d4 \<Rightarrow>
          (case parsePexField 18 d ''dropped6'' [] of Inl e \<Rightarrow> Inl e | Inr d6 \<Rightarrow>
             Inr (Some \<lparr>Added = a4 @ a6, Dropped = d4 @ d6\<rparr>)))))
      | Inr _ \<Rightarrow> Inr None)"

section \<open>Round trip\<close>

text \<open>The peers of each family in the form the decoder gives them.\<close>

definition v4peers :: "PEXPeer list \<Rightarrow> PEXPeer list" where
  "v4peers ps = List.map_filter (\<lambda>p. map_option (\<lambda>ip. p\<lparr>px_IP := ip\<rparr>) (To4 (px_IP p))) ps"

definition v6peers :: "PEXPeer list \<Rightarrow> PEXPeer list" where
  "v6peers ps = filter (\<lambda>p. To4 (px_IP p) = None \<and> length (px_IP p) = 16) ps"

definition compactPeer :: "PEXPeer \<Rightarrow> bytes" where
  "compactPeer p = px_IP p @ PutUint16 (px_Port p)"

lemma encodeV4: "encodeAddedV4 ps = (concat (map compactPeer (v4peers ps)), map seedFlag (v4peers ps))"
  "encodeDroppedV4 ps = concat (map compactPeer (v4peers ps))"
  by (induction ps)
    (auto simp: v4peers_def map_filter_def compactPeer_def seedFlag_def split: option.split)

lemma encodeV6: "encodeAddedV6 ps = (concat (map compactPeer (v6peers ps)), map seedFlag (v6peers ps))"
  "encodeDroppedV6 ps = concat (map compactPeer (v6peers ps))"
  by (induction ps)
    (auto simp: v6peers_def compactPeer_def seedFlag_def To4_None_To16 split: option.split)

lemma length_concat_compact:
  "\<forall>p\<in>set ps. length (px_IP p) + 2 = w \<Longrightarrow> length (concat (map compactPeer ps)) = length ps * w"
  by (induction ps) (auto simp: compactPeer_def)

lemma nth_compact:
  assumes "\<forall>p\<in>set ps. length (px_IP p) + 2 = w" "i < length ps"
  shows "take w (drop (i * w) (concat (map compactPeer ps))) = compactPeer (ps ! i)"
proof -
  have "chunks w (length (map compactPeer ps)) (concat (map compactPeer ps)) = map compactPeer ps"
    by (rule chunks_concat) (use assms(1) in \<open>auto simp: compactPeer_def\<close>)
  then have "chunks w (length ps) (concat (map compactPeer ps)) ! i = compactPeer (ps ! i)"
    using assms(2) by simp
  then show ?thesis using nth_chunks [OF assms(2)] by metis
qed

lemma slice_take_drop:
  "b \<le> w \<Longrightarrow> slice (a + off) (b + off) s = slice a b (take w (drop off s))"
  by (simp add: slice_def drop_take min_def algebra_simps)

lemma pexField_compact:
  assumes w: "\<forall>p\<in>set ps. length (px_IP p) + 2 = w" and "0 < w"
  shows "pexField w (concat (map compactPeer ps)) (map seedFlag ps) = ps"
    "pexField w (concat (map compactPeer ps)) [] = map (\<lambda>p. p\<lparr>px_Seed := False\<rparr>) ps"
proof -
  let ?s = "concat (map compactPeer ps)"
  have n: "length ?s div w = length ps" using length_concat_compact [OF w] \<open>0 < w\<close> by simp
  have entry: "slice (i * w) (i * w + (w - 2)) ?s = px_IP (ps ! i)"
    "Uint16 (slice (i * w + (w - 2)) (i * w + w) ?s) = px_Port (ps ! i)" if "i < length ps" for i
  proof -
    have l: "length (px_IP (ps ! i)) = w - 2" "w - (w - 2) = 2" using w that nth_mem by fastforce+
    show "slice (i * w) (i * w + (w - 2)) ?s = px_IP (ps ! i)"
      using slice_take_drop [of "w - 2" w 0 "i * w" ?s] nth_compact [OF w that] l
      by (simp add: compactPeer_def slice_def add.commute)
    show "Uint16 (slice (i * w + (w - 2)) (i * w + w) ?s) = px_Port (ps ! i)"
      using slice_take_drop [of w w "w - 2" "i * w" ?s] nth_compact [OF w that] l
      by (simp add: compactPeer_def slice_def add.commute)
  qed
  show "pexField w ?s (map seedFlag ps) = ps"
    by (rule nth_equalityI) (auto simp: pexField_def n entry seedFlag_def Let_def)
  show "pexField w ?s [] = map (\<lambda>p. p\<lparr>px_Seed := False\<rparr>) ps"
    by (rule nth_equalityI) (auto simp: pexField_def n entry Let_def)
qed

lemma v4peers_length: "\<forall>p\<in>set (v4peers ps). length (px_IP p) + 2 = 6"
  by (auto simp: v4peers_def map_filter_def dest: To4_length)

lemma v6peers_length: "\<forall>p\<in>set (v6peers ps). length (px_IP p) + 2 = 18"
  by (auto simp: v6peers_def)

definition pex_entries :: "PEXMessage \<Rightarrow> dict" where
  "pex_entries msg =
     (let a4 = v4peers (Added msg); a6 = v6peers (Added msg);
          d4 = v4peers (Dropped msg); d6 = v6peers (Dropped msg)
      in (if a4 \<noteq> [] then [(gostr ''added'', BStr (concat (map compactPeer a4))),
                            (gostr ''added.f'', BStr (map seedFlag a4))] else []) @
         (if a6 \<noteq> [] then [(gostr ''added6'', BStr (concat (map compactPeer a6))),
                            (gostr ''added6.f'', BStr (map seedFlag a6))] else []) @
         (if d4 \<noteq> [] then [(gostr ''dropped'', BStr (concat (map compactPeer d4)))] else []) @
         (if d6 \<noteq> [] then [(gostr ''dropped6'', BStr (concat (map compactPeer d6)))] else []))"

lemma concat_compact_Nil: "concat (map compactPeer ps) = [] \<longleftrightarrow> ps = []"
  by (cases ps) (auto simp: compactPeer_def PutUint16_def)

lemma EncodePEX_entries: "EncodePEX msg = Encode (BDict (dict_of (pex_entries msg)))"
proof -
  have "v4peers [] = []" "v6peers [] = []" by (simp_all add: v4peers_def v6peers_def map_filter_def)
  then show ?thesis
    by (cases "Added msg = []"; cases "Dropped msg = []")
      (simp_all add: EncodePEX_def pex_entries_def encodeV4 encodeV6 dict_of_def Let_def
        concat_compact_Nil del: concat_eq_Nil_conv)
qed

text \<open>A message within the decoder's limit of peers per field.\<close>

definition pex_ok :: "PEXMessage \<Rightarrow> bool" where
  "pex_ok msg \<longleftrightarrow>
     length (v4peers (Added msg)) \<le> maxPEXPeers \<and> length (v6peers (Added msg)) \<le> maxPEXPeers \<and>
     length (v4peers (Dropped msg)) \<le> maxPEXPeers \<and> length (v6peers (Dropped msg)) \<le> maxPEXPeers"

lemma pex_entries_encodable:
  assumes "pex_ok msg"
  shows "encodable (BDict (dict_of (pex_entries msg)))"
proof (rule encodable_dict_of)
  show "length (pex_entries msg) \<le> MaxCollectionSize" "items (BDict (pex_entries msg)) \<le> MaxTotalItems"
    by (auto simp: pex_entries_def Let_def MaxCollectionSize_def MaxTotalItems_def)
  note len = length_concat_compact [OF v4peers_length] length_concat_compact [OF v6peers_length]
  show "length k \<le> MaxStringLength \<and> wf_val v \<and> height v < MaxDecodeDepth"
    if "(k, v) \<in> set (pex_entries msg)" for k v
    using that assms len
    by (auto simp: pex_entries_def pex_ok_def Let_def MaxStringLength_def maxPEXPeers_def
        MaxDecodeDepth_def split: if_splits)
qed

lemma pex_lookup:
  fixes msg
  defines "d \<equiv> dict_of (pex_entries msg)"
  shows "map_of d (gostr ''added'') = (let a = v4peers (Added msg)
      in if a \<noteq> [] then Some (BStr (concat (map compactPeer a))) else None)"
    "map_of d (gostr ''added.f'') = (let a = v4peers (Added msg)
      in if a \<noteq> [] then Some (BStr (map seedFlag a)) else None)"
    "map_of d (gostr ''added6'') = (let a = v6peers (Added msg)
      in if a \<noteq> [] then Some (BStr (concat (map compactPeer a))) else None)"
    "map_of d (gostr ''added6.f'') = (let a = v6peers (Added msg)
      in if a \<noteq> [] then Some (BStr (map seedFlag a)) else None)"
    "map_of d (gostr ''dropped'') = (let a = v4peers (Dropped msg)
      in if a \<noteq> [] then Some (BStr (concat (map compactPeer a))) else None)"
    "map_of d (gostr ''dropped6'') = (let a = v6peers (Dropped msg)
      in if a \<noteq> [] then Some (BStr (concat (map compactPeer a))) else None)"
  by (simp_all add: d_def pex_entries_def Let_def)

lemma parsePexField_compact:
  assumes "map_of d (gostr k) = (if ps \<noteq> [] then Some (BStr (concat (map compactPeer ps))) else None)"
    and w: "\<forall>p\<in>set ps. length (px_IP p) + 2 = w" and "0 < w" "length ps \<le> maxPEXPeers"
  shows "parsePexField w d k (map seedFlag ps) = Inr ps"
    "parsePexField w d k [] = Inr (map (\<lambda>p. p\<lparr>px_Seed := False\<rparr>) ps)"
  using assms(1,3,4) length_concat_compact [OF w] pexField_compact [OF w \<open>0 < w\<close>]
  by (cases ps; simp add: parsePexField_def)+

section \<open>Properties\<close>

text \<open>
  C16: Peer exchange messages survive encoding and decoding. For a message with at most 10000
  peers of each family in each list, encoding succeeds and decoding gives back the peers: the IPv4
  ones first (in 4-byte form) and then the IPv6 ones, each group in its order, with address, port
  and, for added peers, the seed flag; peers with an address of another length are left out.
\<close>

theorem pex_roundtrip:
  assumes "pex_ok msg"
  shows "\<exists>b. EncodePEX msg = Inr b \<and> DecodePEX b = Inr (Some \<lparr>
    Added = v4peers (Added msg) @ v6peers (Added msg),
    Dropped = map (\<lambda>p. p\<lparr>px_Seed := False\<rparr>) (v4peers (Dropped msg) @ v6peers (Dropped msg))\<rparr>)"
proof -
  let ?d = "dict_of (pex_entries msg)"
  note e = pex_entries_encodable [OF assms]
  note L = pex_lookup [of msg, unfolded Let_def]
  have b: "length (v4peers (Added msg)) \<le> maxPEXPeers" "length (v6peers (Added msg)) \<le> maxPEXPeers"
    "length (v4peers (Dropped msg)) \<le> maxPEXPeers" "length (v6peers (Dropped msg)) \<le> maxPEXPeers"
    using assms by (simp_all add: pex_ok_def)
  have "strField ?d ''added.f'' = map seedFlag (v4peers (Added msg))"
    "strField ?d ''added6.f'' = map seedFlag (v6peers (Added msg))"
    by (simp_all add: strField_def L del: map_of_dict_of)
  then have "DecodePEX (enc (BDict ?d)) = Inr (Some \<lparr>
      Added = v4peers (Added msg) @ v6peers (Added msg),
      Dropped = map (\<lambda>p. p\<lparr>px_Seed := False\<rparr>) (v4peers (Dropped msg) @ v6peers (Dropped msg))\<rparr>)"
    unfolding DecodePEX_def Decode_enc [OF e]
    by (simp add: parsePexField_compact(1) [OF L(1) v4peers_length _ b(1)]
        parsePexField_compact(1) [OF L(3) v6peers_length _ b(2)]
        parsePexField_compact(2) [OF L(5) v4peers_length _ b(3)]
        parsePexField_compact(2) [OF L(6) v6peers_length _ b(4)])
  moreover have "EncodePEX msg = Inr (enc (BDict ?d))"
    using e by (simp add: EncodePEX_entries Encode_enc encodable_def del: wf_val.simps)
  ultimately show ?thesis by blast
qed

theorem pex_roundtrip_witness:
  "\<exists>b. EncodePEX \<lparr>Added = [\<lparr>px_IP = [10, 0, 0, 1], px_Port = 6881, px_Seed = True\<rparr>], Dropped = []\<rparr> = Inr b \<and>
     DecodePEX b = Inr (Some \<lparr>Added = [\<lparr>px_IP = [10, 0, 0, 1], px_Port = 6881, px_Seed = True\<rparr>], Dropped = []\<rparr>)"
  using pex_roundtrip [of "\<lparr>Added = [\<lparr>px_IP = [10, 0, 0, 1], px_Port = 6881, px_Seed = True\<rparr>], Dropped = []\<rparr>"]
  by (simp add: pex_ok_def v4peers_def v6peers_def map_filter_def To4_def maxPEXPeers_def)

end
