(* ===== verification/Go_Path.thy ===== *)
theory Go_Path
  imports Go_Prelude
begin

text \<open>
  \<open>strings.Split\<close>, \<open>strings.Join\<close> and the lexical path functions of \<open>path/filepath\<close> on a system
  with the separator slash. \<open>Clean\<close> is given by its documented rules on path components: empty
  and \<open>.\<close> components vanish, \<open>..\<close> removes the component before it, and leading \<open>..\<close> vanish
  in a rooted path.
\<close>

section \<open>Split and join\<close>

definition slash :: byte where "slash = 47"
definition dot :: bytes where "dot = [46]"
definition dotdot :: bytes where "dotdot = [46, 46]"

fun split_on :: "byte \<Rightarrow> bytes \<Rightarrow> bytes list" where
  "split_on c [] = [[]]"
| "split_on c (b # bs) =
     (if b = c then [] # split_on c bs
      else (case split_on c bs of [] \<Rightarrow> [[b]] | p # ps \<Rightarrow> (b # p) # ps))"

fun join_with :: "byte \<Rightarrow> bytes list \<Rightarrow> bytes" where
  "join_with c [] = []"
| "join_with c [p] = p"
| "join_with c (p # ps) = p @ c # join_with c ps"

lemma split_on_not_Nil [simp]: "split_on c s \<noteq> []"
  by (induction s) (auto split: list.split)

lemma split_on_no_sep: "c \<notin> set p \<Longrightarrow> split_on c p = [p]"
  by (induction p) auto

lemma split_on_append: "c \<notin> set p \<Longrightarrow> split_on c (p @ c # s) = p # split_on c s"
  by (induction p) auto

lemma split_join: "ps \<noteq> [] \<Longrightarrow> \<forall>p\<in>set ps. c \<notin> set p \<Longrightarrow> split_on c (join_with c ps) = ps"
  by (induction c ps rule: join_with.induct) (auto simp: split_on_no_sep split_on_append)

lemma join_split: "join_with c (split_on c s) = s"
proof (induction s)
  case (Cons b s)
  obtain p ps where s: "split_on c s = p # ps" by (cases "split_on c s") auto
  with Cons show ?case by (cases ps) auto
qed simp

lemma split_components: "p \<in> set (split_on c s) \<Longrightarrow> c \<notin> set p"
  by (induction s arbitrary: p) (auto split: if_splits list.splits)

lemma split_join_append:
  "ps \<noteq> [] \<Longrightarrow> \<forall>p\<in>set ps. c \<notin> set p \<Longrightarrow> split_on c (join_with c ps @ c # s) = ps @ split_on c s"
  by (induction c ps rule: join_with.induct) (auto simp: split_on_append)

section \<open>Clean and Join\<close>

definition clean_step :: "bool \<Rightarrow> bytes list \<Rightarrow> bytes \<Rightarrow> bytes list" where
  "clean_step rooted st c =
     (if c = [] \<or> c = dot then st
      else if c = dotdot
      then (if st \<noteq> [] \<and> last st \<noteq> dotdot then butlast st
            else if rooted then st else st @ [dotdot])
      else st @ [c])"

definition clean_comps :: "bool \<Rightarrow> bytes list \<Rightarrow> bytes list" where
  "clean_comps rooted cs = foldl (clean_step rooted) [] cs"

definition is_rooted :: "bytes \<Rightarrow> bool" where
  "is_rooted p \<longleftrightarrow> (case p of [] \<Rightarrow> False | b # _ \<Rightarrow> b = slash)"

definition comps :: "bytes \<Rightarrow> bytes list" where
  "comps p = clean_comps (is_rooted p) (split_on slash p)"

definition Clean :: "bytes \<Rightarrow> bytes" where
  "Clean p =
     (if p = [] then dot
      else let s = join_with slash (comps p)
           in if is_rooted p then slash # s else if comps p = [] then dot else s)"

fun Join :: "bytes list \<Rightarrow> bytes" where
  "Join [] = []"
| "Join (e # es) = (if e \<noteq> [] then Clean (join_with slash (e # es)) else Join es)"

text \<open>\<open>filepath.Dir\<close>: everything up to the last separator, cleaned.\<close>

definition Dir :: "bytes \<Rightarrow> bytes" where
  "Dir p = Clean (rev (dropWhile (\<lambda>c. c \<noteq> slash) (rev p)))"

text \<open>
  The shape of the components of a cleaned path: first the \<open>..\<close> that lead out of a relative path,
  then ordinary names.
\<close>

definition plain :: "bytes \<Rightarrow> bool" where
  "plain c \<longleftrightarrow> c \<noteq> [] \<and> c \<noteq> dot \<and> c \<noteq> dotdot \<and> slash \<notin> set c"

definition cleaned :: "bool \<Rightarrow> bytes list \<Rightarrow> bool" where
  "cleaned rooted st \<longleftrightarrow>
     (\<exists>n ns. st = replicate n dotdot @ ns \<and> list_all plain ns \<and> (rooted \<longrightarrow> n = 0))"

lemma dot_neq [simp]: "dot \<noteq> dotdot" "dotdot \<noteq> dot" "dotdot \<noteq> []" "dot \<noteq> []"
  by (simp_all add: dot_def dotdot_def)

lemma slash_notin [simp]: "slash \<notin> set dot" "slash \<notin> set dotdot"
  by (simp_all add: dot_def dotdot_def slash_def)

lemma cleaned_step:
  assumes "cleaned rooted st" "slash \<notin> set c"
  shows "cleaned rooted (clean_step rooted st c)"
proof -
  obtain n ns where st: "st = replicate n dotdot @ ns" "list_all plain ns" "rooted \<longrightarrow> n = 0"
    using assms(1) by (auto simp: cleaned_def)
  show ?thesis
  proof (cases "c = dotdot")
    case True
    show ?thesis
    proof (cases "ns = []")
      case True
      then have "st = [] \<or> last st = dotdot" using st by (cases n) auto
      then have "clean_step rooted st c = (if rooted then st else st @ [dotdot])"
        using \<open>c = dotdot\<close> by (auto simp: clean_step_def)
      moreover have "st @ [dotdot] = replicate (Suc n) dotdot @ []"
        using st(1) True by (simp add: replicate_append_same)
      moreover have "cleaned False (replicate (Suc n) dotdot @ [])"
        unfolding cleaned_def by (rule exI [of _ "Suc n"], rule exI [of _ "[]"]) simp
      ultimately show ?thesis using assms(1) by (cases rooted) simp_all
    next
      case False
      then have "last st \<noteq> dotdot" using st by (auto simp: plain_def list_all_iff)
      then have "clean_step rooted st c = replicate n dotdot @ butlast ns"
        using \<open>c = dotdot\<close> False by (simp add: clean_step_def st(1) butlast_append)
      moreover have "list_all plain (butlast ns)"
        using st(2) by (auto simp: list_all_iff dest: in_set_butlastD)
      ultimately show ?thesis using st(3) unfolding cleaned_def by blast
    qed
  next
    case False
    then have "clean_step rooted st c = (if c = [] \<or> c = dot then st else replicate n dotdot @ ns @ [c])"
      by (simp add: clean_step_def st(1))
    moreover have "c = [] \<or> c = dot \<or> list_all plain (ns @ [c])"
      using st(2) False assms(2) by (auto simp: plain_def)
    ultimately show ?thesis
      using st assms(1) unfolding cleaned_def by (auto intro: exI [of _ n])
  qed
qed

lemma cleaned_comps: "cleaned (is_rooted p) (comps p)"
proof -
  have "cleaned r (foldl (clean_step r) st cs)" if "cleaned r st" "\<forall>c\<in>set cs. slash \<notin> set c" for r st cs
    using that by (induction cs arbitrary: st) (simp_all add: cleaned_step)
  moreover have "cleaned r []" for r by (simp add: cleaned_def)
  ultimately show ?thesis
    unfolding comps_def clean_comps_def by (simp add: split_components)
qed

lemma comps_no_slash: "c \<in> set (comps p) \<Longrightarrow> slash \<notin> set c \<and> c \<noteq> []"
proof -
  assume c: "c \<in> set (comps p)"
  obtain n ns where "comps p = replicate n dotdot @ ns" "list_all plain ns"
    using cleaned_comps [of p] by (auto simp: cleaned_def)
  with c have "c = dotdot \<or> plain c" by (auto simp: list_all_iff)
  then show ?thesis by (auto simp: plain_def)
qed

lemma foldl_clean_plain: "list_all plain cs \<Longrightarrow> foldl (clean_step r) st cs = st @ cs"
  by (induction cs arbitrary: st) (auto simp: clean_step_def plain_def)

section \<open>Staying inside a directory\<close>

definition HasPrefix :: "bytes \<Rightarrow> bytes \<Rightarrow> bool" where
  "HasPrefix s p \<longleftrightarrow> take (length p) s = p"

lemma HasPrefix_iff: "HasPrefix s p \<longleftrightarrow> (\<exists>x. s = p @ x)"
  unfolding HasPrefix_def by (metis append_eq_conv_conj append_take_drop_id)

lemma split_join_comps: "comps p \<noteq> [] \<Longrightarrow> split_on slash (join_with slash (comps p)) = comps p"
  by (rule split_join) (auto dest: comps_no_slash)

lemma join_comps_hd:
  assumes "comps p \<noteq> []"
  shows "\<exists>b s. join_with slash (comps p) = b # s \<and> b \<noteq> slash"
proof -
  obtain c cs where c: "comps p = c # cs" using assms by (cases "comps p") auto
  then have "c \<noteq> []" "slash \<notin> set c" using comps_no_slash [of c p] by auto
  then obtain b c' where "c = b # c'" "b \<noteq> slash" by (cases c) auto
  then show ?thesis by (cases cs) (auto simp: c)
qed

lemma comps_Nil: "comps [] = []"
  by (simp add: comps_def clean_comps_def clean_step_def)

lemma Clean_cases:
  "is_rooted p \<Longrightarrow> Clean p = slash # join_with slash (comps p)"
  "\<not> is_rooted p \<Longrightarrow> Clean p = (if comps p = [] then dot else join_with slash (comps p))"
  by (auto simp: Clean_def is_rooted_def comps_Nil Let_def)

lemma Clean_hd_slash: "(\<exists>s. Clean p = slash # s) \<longleftrightarrow> is_rooted p"
proof (cases "is_rooted p")
  case True
  then show ?thesis by (auto simp: Clean_def is_rooted_def Let_def split: list.splits)
next
  case False
  have "dot \<noteq> slash # s" for s by (simp add: dot_def slash_def)
  then show ?thesis
    using False join_comps_hd [of p] by (auto simp: Clean_def Let_def)
qed

lemma comps_not_dot: "comps p \<noteq> dot # cs"
proof -
  obtain n ns where "comps p = replicate n dotdot @ ns" "list_all plain ns"
    using cleaned_comps [of p] by (auto simp: cleaned_def)
  then show ?thesis by (cases n; cases ns) (auto simp: plain_def)
qed

lemma prefix_comps:
  assumes "join_with slash (comps q) = join_with slash (comps p) @ slash # x" "comps p \<noteq> []"
  shows "\<exists>R. R \<noteq> [] \<and> comps q = comps p @ R"
proof -
  have "comps q \<noteq> []" using assms(1) by auto
  then have "comps q = split_on slash (join_with slash (comps p) @ slash # x)"
    using split_join_comps [of q] assms(1) by simp
  also have "\<dots> = comps p @ split_on slash x"
    by (rule split_join_append [OF assms(2)]) (auto dest: comps_no_slash)
  finally show ?thesis by auto
qed

lemma inside_base:
  assumes "HasPrefix (Clean q) (Clean base @ [slash])"
  shows "is_rooted q = is_rooted base \<and> comps base \<noteq> [] \<and> (\<exists>R. R \<noteq> [] \<and> comps q = comps base @ R)"
proof -
  obtain x where x: "Clean q = Clean base @ slash # x"
    using assms by (auto simp: HasPrefix_iff)
  have "Clean base \<noteq> []" by (auto simp: Clean_def Let_def dest: join_comps_hd)
  then have r: "is_rooted q = is_rooted base"
    using x Clean_hd_slash [of q] Clean_hd_slash [of base] by (cases "Clean base") auto
  have ne: "comps q \<noteq> []"
  proof
    assume "comps q = []"
    then have "Clean q = dot \<or> Clean q = [slash]" by (auto simp: Clean_def)
    with x \<open>Clean base \<noteq> []\<close> show False by (auto simp: dot_def append_eq_Cons_conv)
  qed
  show ?thesis
  proof (cases "is_rooted base")
    case True
    then have "slash # join_with slash (comps q) = (slash # join_with slash (comps base)) @ slash # x"
      using x r by (simp add: Clean_cases)
    then have j: "join_with slash (comps q) = join_with slash (comps base) @ slash # x" by simp
    moreover from this have "comps base \<noteq> []" using join_comps_hd [OF ne] by auto
    ultimately show ?thesis using prefix_comps r by blast
  next
    case False
    have jq: "Clean q = join_with slash (comps q)"
      using False r ne by (simp add: Clean_cases)
    show ?thesis
    proof (cases "comps base = []")
      case True
      then have "Clean base = dot" using False by (simp add: Clean_cases)
      then have "comps q = dot # split_on slash x"
        using x jq split_join_comps [OF ne] split_on_append [of slash dot x] by simp
      then show ?thesis using comps_not_dot by blast
    next
      case False
      then have "Clean base = join_with slash (comps base)"
        using \<open>\<not> is_rooted base\<close> by (simp add: Clean_cases)
      with x jq have "join_with slash (comps q) = join_with slash (comps base) @ slash # x" by simp
      from prefix_comps [OF this False] show ?thesis using r False by blast
    qed
  qed
qed

lemma inside_base_plain:
  assumes "comps q = comps base @ R" "is_rooted base \<or> last (comps base) \<noteq> dotdot"
    and "is_rooted q = is_rooted base" "comps base \<noteq> []"
  shows "list_all plain R"
proof -
  obtain n ns where q: "comps q = replicate n dotdot @ ns" "list_all plain ns" "is_rooted q \<longrightarrow> n = 0"
    using cleaned_comps [of q] by (auto simp: cleaned_def)
  have "n \<le> length (comps base)"
  proof (rule ccontr)
    assume "\<not> n \<le> length (comps base)"
    moreover have "comps base = take (length (comps base)) (replicate n dotdot @ ns)"
      using assms(1) by (simp flip: q(1))
    ultimately have "comps base = replicate (length (comps base)) dotdot" by (simp add: min_def)
    then have "last (comps base) = dotdot" using assms(4) by (metis last_replicate length_0_conv)
    then show False using assms(2,3) q(3) \<open>\<not> n \<le> length (comps base)\<close> by auto
  qed
  moreover have "R = drop (length (comps base)) (replicate n dotdot @ ns)"
    using assms(1) by (simp flip: q(1))
  ultimately have "R = drop (length (comps base) - n) ns" by simp
  then show ?thesis using q(2) by (simp add: list_all_iff) (meson in_set_dropD)
qed

lemma join_with_append: "A \<noteq> [] \<Longrightarrow> R \<noteq> [] \<Longrightarrow> join_with c (A @ R) = join_with c A @ c # join_with c R"
proof (induction A)
  case (Cons a A)
  then show ?case by (cases A; cases R) auto
qed simp

text \<open>A relative base that ends in \<open>..\<close> consists of \<open>..\<close> only, and then the prefix check lets further \<open>..\<close> pass.\<close>

lemma inside_base_any:
  assumes "HasPrefix (Clean q) (Clean base @ [slash])"
  shows "\<exists>R. R \<noteq> [] \<and> Clean q = Clean base @ slash # join_with slash R \<and>
    (list_all plain R \<or> (\<not> is_rooted base \<and> set (comps base) = {dotdot} \<and> (\<exists>n S. R = replicate n dotdot @ S \<and> list_all plain S)))"
proof -
  obtain R where R: "is_rooted q = is_rooted base" "comps base \<noteq> []" "R \<noteq> []" "comps q = comps base @ R"
    using inside_base [OF assms] by blast
  have path: "Clean q = Clean base @ slash # join_with slash R"
    using R by (cases "is_rooted base") (simp_all add: Clean_cases join_with_append)
  show ?thesis
  proof (cases "is_rooted base \<or> last (comps base) \<noteq> dotdot")
    case True
    have "list_all plain R" by (rule inside_base_plain [OF R(4) True R(1,2)])
    then show ?thesis using path R(3) by blast
  next
    case False
    obtain n ns where b: "comps base = replicate n dotdot @ ns" "list_all plain ns" using cleaned_comps [of base] by (auto simp: cleaned_def)
    have "ns = []"
    proof (rule ccontr)
      assume "ns \<noteq> []"
      then have "plain (last ns)" using b(2) by (simp add: list_all_iff)
      then show False using False b(1) \<open>ns \<noteq> []\<close> by (simp add: plain_def)
    qed
    obtain m ms where q: "comps q = replicate m dotdot @ ms" "list_all plain ms" using cleaned_comps [of q] by (auto simp: cleaned_def)
    have "R = drop n (comps q)" using R(4) b(1) \<open>ns = []\<close> by simp
    then have "R = replicate (m - n) dotdot @ drop (n - m) ms" by (simp add: q(1))
    moreover have "list_all plain (drop (n - m) ms)" using q(2) by (auto simp: list_all_iff dest: in_set_dropD)
    moreover have "set (comps base) = {dotdot}" using b(1) \<open>ns = []\<close> R(2) by simp
    ultimately show ?thesis using path R(3) False by blast
  qed
qed

section \<open>Cleaning twice, and joining\<close>

lemma split_on_map:
  assumes "f c = c"
  shows "split_on c (map f s) = concat (map (\<lambda>p. split_on c (map f p)) (split_on c s))"
proof (induction s)
  case (Cons x s)
  obtain p ps where s: "split_on c s = p # ps" by (cases "split_on c s") auto
  show ?case
  proof (cases "x = c")
    case True
    then show ?thesis using Cons assms by simp
  next
    case False
    obtain q qs where q: "split_on c (map f p) = q # qs" by (cases "split_on c (map f p)") auto
    show ?thesis using False Cons by (simp add: s q)
  qed
qed simp

lemma foldl_clean_plain_or_empty:
  "\<forall>p\<in>set ps. p = [] \<or> plain p \<Longrightarrow> foldl (clean_step r) st ps = st @ filter (\<lambda>p. p \<noteq> []) ps"
proof (induction ps arbitrary: st)
  case (Cons p ps)
  have "clean_step r st p = (if p = [] then st else st @ [p])"
    using Cons.prems by (cases "p = []") (simp_all add: clean_step_def plain_def)
  then show ?case using Cons by simp
qed simp

lemma foldl_clean_dotdot: "foldl (clean_step False) (replicate k dotdot) (replicate n dotdot) = replicate (k + n) dotdot"
proof (induction n arbitrary: k)
  case (Suc n)
  have "clean_step False (replicate k dotdot) dotdot = replicate (Suc k) dotdot"
    by (cases k) (simp_all add: clean_step_def replicate_append_same)
  then show ?case using Suc [of "Suc k"] by simp
qed simp

lemma clean_comps_cleaned:
  assumes "cleaned r cs"
  shows "clean_comps r cs = cs"
proof -
  obtain n ns where cs: "cs = replicate n dotdot @ ns" "list_all plain ns" "r \<longrightarrow> n = 0"
    using assms by (auto simp: cleaned_def)
  have "foldl (clean_step r) [] (replicate n dotdot) = replicate n dotdot"
    using foldl_clean_dotdot [of 0 n] cs(3) by (cases r) simp_all
  then show ?thesis using cs by (simp add: clean_comps_def foldl_clean_plain)
qed

lemma comps_Clean: "comps (Clean p) = comps p"
proof (cases "comps p = []")
  case True
  have "comps dot = []" "comps [slash] = []"
    by (simp_all add: comps_def clean_comps_def clean_step_def is_rooted_def dot_def slash_def)
  then show ?thesis using True Clean_cases [of p] by (cases "is_rooted p") simp_all
next
  case False
  have r: "is_rooted (Clean p) = is_rooted p"
    using Clean_hd_slash [of p] by (auto simp: is_rooted_def split: list.splits)
  have c: "clean_comps (is_rooted p) (comps p) = comps p" by (rule clean_comps_cleaned [OF cleaned_comps])
  have "split_on slash (Clean p) = comps p \<or> split_on slash (Clean p) = [] # comps p"
    using False split_join_comps [OF False] by (cases "is_rooted p") (simp_all add: Clean_cases)
  then show ?thesis
    using c by (auto simp: comps_def [of "Clean p"] r clean_comps_def clean_step_def)
qed

lemma is_rooted_Clean [simp]: "is_rooted (Clean p) = is_rooted p"
  using Clean_hd_slash [of p] by (auto simp: is_rooted_def split: list.splits)

lemma comps_append:
  assumes "dir \<noteq> []"
  shows "comps (dir @ slash # s) = foldl (clean_step (is_rooted dir)) (comps dir) (split_on slash s)"
proof -
  have "split_on slash (dir @ slash # s) = split_on slash dir @ split_on slash s"
    using split_join_append [of "split_on slash dir" slash s] split_components [of _ slash dir]
    by (auto simp: join_split)
  moreover have "is_rooted (dir @ slash # s) = is_rooted dir" using assms by (cases dir) (simp_all add: is_rooted_def)
  ultimately show ?thesis by (simp add: comps_def clean_comps_def)
qed

end
