(* ===== verification/Go_Sha.thy ===== *)
theory Go_Sha
  imports Go_Prelude
begin

text \<open>
  \<open>crypto/sha1\<close> and \<open>crypto/sha256\<close>, which the program uses as functions on a byte slice: padding,
  message schedule and compression as in FIPS 180-4, on 32-bit words.
\<close>

section \<open>Padding and blocks\<close>

definition sha_pad :: "bytes \<Rightarrow> bytes" where
  "sha_pad m = m @ [0x80] @ replicate ((119 - length m mod 64) mod 64) 0
     @ PutUint64 (of_nat (8 * length m))"

definition sha_words :: "bytes \<Rightarrow> 32 word list" where
  "sha_words b = map Uint32 (chunks 4 (length b div 4) b)"

definition sha_blocks :: "bytes \<Rightarrow> 32 word list list" where
  "sha_blocks m = (let w = sha_words (sha_pad m) in chunks 16 (length w div 16) w)"

definition rotl :: "nat \<Rightarrow> 32 word \<Rightarrow> 32 word" where
  "rotl n w = push_bit n w OR drop_bit (32 - n) w"

definition rotr :: "nat \<Rightarrow> 32 word \<Rightarrow> 32 word" where
  "rotr n w = drop_bit n w OR push_bit (32 - n) w"

lemma length_sha_pad: "64 dvd length (sha_pad m)"
proof -
  define q b where "q = length m div 64" and "b = length m mod 64"
  have m: "length m = 64 * q + b" "b < 64" by (simp_all add: q_def b_def)
  have "(119 - b) mod 64 = (if b \<le> 55 then 55 - b else 119 - b)"
  proof (cases "b \<le> 55")
    case True
    then have "119 - b = 55 - b + 64" "55 - b < 64" by simp_all
    with True show ?thesis by (metis mod_add_self2 mod_less)
  qed (use m(2) in simp)
  then have "length (sha_pad m) = 64 * (if b \<le> 55 then q + 1 else q + 2)"
    using m by (simp add: sha_pad_def flip: b_def)
  then show ?thesis by simp
qed

section \<open>SHA-1\<close>

type_synonym sha1_state = "32 word \<times> 32 word \<times> 32 word \<times> 32 word \<times> 32 word"

fun sha1_schedule :: "nat \<Rightarrow> 32 word list \<Rightarrow> 32 word list" where
  "sha1_schedule 0 w = w"
| "sha1_schedule (Suc n) w =
     sha1_schedule n (w @ [rotl 1 (w ! (length w - 3) XOR w ! (length w - 8)
                                   XOR w ! (length w - 14) XOR w ! (length w - 16))])"

definition sha1_f :: "nat \<Rightarrow> 32 word \<Rightarrow> 32 word \<Rightarrow> 32 word \<Rightarrow> 32 word" where
  "sha1_f t b c d =
     (if t < 20 then (b AND c) OR (NOT b AND d)
      else if t < 40 then b XOR c XOR d
      else if t < 60 then (b AND c) OR (b AND d) OR (c AND d)
      else b XOR c XOR d)"

definition sha1_k :: "nat \<Rightarrow> 32 word" where
  "sha1_k t = (if t < 20 then 0x5A827999 else if t < 40 then 0x6ED9EBA1
               else if t < 60 then 0x8F1BBCDC else 0xCA62C1D6)"

fun sha1_rounds :: "nat \<Rightarrow> 32 word list \<Rightarrow> sha1_state \<Rightarrow> sha1_state" where
  "sha1_rounds t [] s = s"
| "sha1_rounds t (w # ws) (a, b, c, d, e) =
     sha1_rounds (Suc t) ws (rotl 5 a + sha1_f t b c d + e + sha1_k t + w, a, rotl 30 b, c, d)"

fun sha1_block :: "sha1_state \<Rightarrow> 32 word list \<Rightarrow> sha1_state" where
  "sha1_block (h0, h1, h2, h3, h4) blk =
     (case sha1_rounds 0 (sha1_schedule 64 blk) (h0, h1, h2, h3, h4) of
        (a, b, c, d, e) \<Rightarrow> (h0 + a, h1 + b, h2 + c, h3 + d, h4 + e))"

definition sha1_Sum :: "bytes \<Rightarrow> bytes" where
  "sha1_Sum m =
     (case foldl sha1_block (0x67452301, 0xEFCDAB89, 0x98BADCFE, 0x10325476, 0xC3D2E1F0)
             (sha_blocks m) of
        (h0, h1, h2, h3, h4) \<Rightarrow>
          PutUint32 h0 @ PutUint32 h1 @ PutUint32 h2 @ PutUint32 h3 @ PutUint32 h4)"

lemma length_sha1_Sum [simp]: "length (sha1_Sum m) = 20"
  by (simp add: sha1_Sum_def split: prod.split)

section \<open>SHA-256\<close>

type_synonym sha256_state =
  "32 word \<times> 32 word \<times> 32 word \<times> 32 word \<times> 32 word \<times> 32 word \<times> 32 word \<times> 32 word"

text \<open>
  The round constants are the first 32 bits of the fractional parts of the cube roots of the first
  64 primes. \<open>cbrt_bits k n x\<close> finds the cube root of \<open>n\<close>, rounded down, bit by bit.
\<close>

primrec cbrt_bits :: "nat \<Rightarrow> nat \<Rightarrow> nat \<Rightarrow> nat" where
  "cbrt_bits 0 n x = x"
| "cbrt_bits (Suc k) n x = cbrt_bits k n (if (x + 2 ^ k) ^ 3 \<le> n then x + 2 ^ k else x)"

definition first_primes :: "nat list" where
  "first_primes = filter (\<lambda>p. \<forall>d\<in>set [2..<p]. p mod d \<noteq> 0) [2..<312]"

definition sha256_K :: "32 word list" where
  "sha256_K = map (\<lambda>p. of_nat (cbrt_bits 35 (p * 2 ^ 96) 0)) first_primes"

lemma cbrt_bits_correct:
  "x ^ 3 \<le> n \<Longrightarrow> n < (x + 2 ^ k) ^ 3 \<Longrightarrow>
     cbrt_bits k n x ^ 3 \<le> n \<and> n < (cbrt_bits k n x + 1) ^ 3"
  by (induction k arbitrary: x) (simp_all add: mult_2 add.assoc)

fun sha256_schedule :: "nat \<Rightarrow> 32 word list \<Rightarrow> 32 word list" where
  "sha256_schedule 0 w = w"
| "sha256_schedule (Suc n) w =
     (let w15 = w ! (length w - 15); w2 = w ! (length w - 2);
          s0 = rotr 7 w15 XOR rotr 18 w15 XOR drop_bit 3 w15;
          s1 = rotr 17 w2 XOR rotr 19 w2 XOR drop_bit 10 w2
      in sha256_schedule n (w @ [w ! (length w - 16) + s0 + w ! (length w - 7) + s1]))"

fun sha256_rounds :: "(32 word \<times> 32 word) list \<Rightarrow> sha256_state \<Rightarrow> sha256_state" where
  "sha256_rounds [] s = s"
| "sha256_rounds ((k, w) # kws) (a, b, c, d, e, f, g, h) =
     (let S1 = rotr 6 e XOR rotr 11 e XOR rotr 25 e;
          ch = (e AND f) XOR (NOT e AND g);
          t1 = h + S1 + ch + k + w;
          S0 = rotr 2 a XOR rotr 13 a XOR rotr 22 a;
          maj = (a AND b) XOR (a AND c) XOR (b AND c)
      in sha256_rounds kws (t1 + (S0 + maj), a, b, c, d + t1, e, f, g))"

fun sha256_block :: "sha256_state \<Rightarrow> 32 word list \<Rightarrow> sha256_state" where
  "sha256_block (h0, h1, h2, h3, h4, h5, h6, h7) blk =
     (case sha256_rounds (zip sha256_K (sha256_schedule 48 blk)) (h0, h1, h2, h3, h4, h5, h6, h7) of
        (a, b, c, d, e, f, g, h) \<Rightarrow>
          (h0 + a, h1 + b, h2 + c, h3 + d, h4 + e, h5 + f, h6 + g, h7 + h))"

definition sha256_Sum256 :: "bytes \<Rightarrow> bytes" where
  "sha256_Sum256 m =
     (case foldl sha256_block (0x6a09e667, 0xbb67ae85, 0x3c6ef372, 0xa54ff53a,
             0x510e527f, 0x9b05688c, 0x1f83d9ab, 0x5be0cd19) (sha_blocks m) of
        (h0, h1, h2, h3, h4, h5, h6, h7) \<Rightarrow>
          PutUint32 h0 @ PutUint32 h1 @ PutUint32 h2 @ PutUint32 h3
          @ PutUint32 h4 @ PutUint32 h5 @ PutUint32 h6 @ PutUint32 h7)"

lemma length_sha256_Sum256 [simp]: "length (sha256_Sum256 m) = 32"
  by (simp add: sha256_Sum256_def split: prod.split)

end
