(* ===== verification/Torrent_File.thy ===== *)
theory Torrent_File
  imports Bencode Go_Sha
begin

text \<open>
  Metainfo files, \<^verbatim>\<open>src/torrent/torrent.go\<close>, and the dictionary a session stores for a torrent it
  resolved from a magnet link (\<open>mustReencode\<close> and \<open>resolveMetadata\<close> in \<^verbatim>\<open>src/engine/session.go\<close>).
  Lists absent from the file are empty lists; error texts are constructors of \<open>terror\<close>.
\<close>

section \<open>Data\<close>

record File =
  f_Length :: int
  f_Path :: "bytes list"

record Info =
  Name :: bytes
  PieceLength :: int
  PieceHashes :: "bytes list"
  i_Length :: int
  Files :: "File list"
  Private :: bool
  FileTree :: "dict option"

record TorrentFile =
  Announce :: bytes
  AnnounceList :: "bytes list list"
  tf_Info :: Info
  tf_InfoHash :: bytes
  InfoHashV2 :: bytes
  MetaVersion :: int
  WebSeedURLs :: "bytes list"

datatype terror =
    TDecode berror | TEncode berror | TRootNotDict | TMissingInfo | TInfoNotDict | TV2Only
  | TMissingName | TMissingPieceLength | TBadPieceLength | TMissingPieces | TPiecesNotMultiple
  | TBadFileLength | TFilesNotList | TFileNotDict | TFileMissingLength | TFileMissingPath
  | TPathNotString | TAnnounceNotList | TTierNotList | TURLNotString

section \<open>Parsing\<close>

fun parsePath :: "bval list \<Rightarrow> terror + bytes list" where
  "parsePath [] = Inr []"
| "parsePath (p # ps) =
     (case asString (Some p) of
        None \<Rightarrow> Inl TPathNotString
      | Some s \<Rightarrow> (case parsePath ps of Inl e \<Rightarrow> Inl e | Inr path \<Rightarrow> Inr (s # path)))"

definition parseFile :: "bval \<Rightarrow> terror + File" where
  "parseFile item =
     (case asDict (Some item) of
        None \<Rightarrow> Inl TFileNotDict
      | Some d \<Rightarrow>
          (case asInt64 (map_of d (gostr ''length'')) of
             None \<Rightarrow> Inl TFileMissingLength
           | Some len \<Rightarrow>
               if len < 0 then Inl TBadFileLength
               else (case asList (map_of d (gostr ''path'')) of
                       None \<Rightarrow> Inl TFileMissingPath
                     | Some pathList \<Rightarrow>
                         (case parsePath pathList of
                            Inl e \<Rightarrow> Inl e
                          | Inr path \<Rightarrow> Inr \<lparr>f_Length = len, f_Path = path\<rparr>))))"

fun parseFileList :: "bval list \<Rightarrow> terror + File list" where
  "parseFileList [] = Inr []"
| "parseFileList (item # its) =
     (case parseFile item of
        Inl e \<Rightarrow> Inl e
      | Inr f \<Rightarrow> (case parseFileList its of Inl e \<Rightarrow> Inl e | Inr fs \<Rightarrow> Inr (f # fs)))"

definition parseFiles :: "bval \<Rightarrow> terror + File list" where
  "parseFiles v = (case asList (Some v) of None \<Rightarrow> Inl TFilesNotList | Some l \<Rightarrow> parseFileList l)"

definition parseInfo :: "dict \<Rightarrow> terror + Info" where
  "parseInfo d =
     (case asString (map_of d (gostr ''name'')) of None \<Rightarrow> Inl TMissingName | Some name \<Rightarrow>
     (case asInt64 (map_of d (gostr ''piece length'')) of None \<Rightarrow> Inl TMissingPieceLength
      | Some pieceLength \<Rightarrow>
      if pieceLength \<le> 0 then Inl TBadPieceLength
      else
     (case asString (map_of d (gostr ''pieces'')) of None \<Rightarrow> Inl TMissingPieces | Some ps \<Rightarrow>
      if length ps mod 20 \<noteq> 0 then Inl TPiecesNotMultiple
      else
        (let info = \<lparr>Name = name, PieceLength = pieceLength,
                     PieceHashes = chunks 20 (length ps div 20) ps, i_Length = 0, Files = [],
                     Private = (asInt64 (map_of d (gostr ''private'')) = Some 1),
                     FileTree = asDict (map_of d (gostr ''file tree''))\<rparr>
         in case asInt64 (map_of d (gostr ''length'')) of
              Some len \<Rightarrow> if len < 0 then Inl TBadFileLength else Inr (info\<lparr>i_Length := len\<rparr>)
            | None \<Rightarrow>
                (case map_of d (gostr ''files'') of
                   None \<Rightarrow> Inr info
                 | Some filesVal \<Rightarrow>
                     (case parseFiles filesVal of
                        Inl e \<Rightarrow> Inl e
                      | Inr files \<Rightarrow> Inr (info\<lparr>Files := files\<rparr>)))))))"

fun parseTier :: "bval list \<Rightarrow> terror + bytes list" where
  "parseTier [] = Inr []"
| "parseTier (u # us) =
     (case asString (Some u) of
        None \<Rightarrow> Inl TURLNotString
      | Some s \<Rightarrow> (case parseTier us of Inl e \<Rightarrow> Inl e | Inr urls \<Rightarrow> Inr (s # urls)))"

fun parseTiers :: "bval list \<Rightarrow> terror + bytes list list" where
  "parseTiers [] = Inr []"
| "parseTiers (tier # tiers) =
     (case asList (Some tier) of
        None \<Rightarrow> Inl TTierNotList
      | Some trackers \<Rightarrow>
          (case parseTier trackers of
             Inl e \<Rightarrow> Inl e
           | Inr urls \<Rightarrow>
               (case parseTiers tiers of Inl e \<Rightarrow> Inl e | Inr rest \<Rightarrow> Inr (urls # rest))))"

definition parseAnnounceList :: "bval \<Rightarrow> terror + bytes list list" where
  "parseAnnounceList v =
     (case asList (Some v) of None \<Rightarrow> Inl TAnnounceNotList | Some tiers \<Rightarrow> parseTiers tiers)"

definition parseURLList :: "bval \<Rightarrow> bytes list" where
  "parseURLList v =
     (case v of
        BStr s \<Rightarrow> if s \<noteq> [] then [s] else []
      | BList l \<Rightarrow> filter (\<lambda>s. s \<noteq> []) (List.map_filter (\<lambda>x. asString (Some x)) l)
      | _ \<Rightarrow> [])"

definition Parse :: "bytes \<Rightarrow> terror + TorrentFile" where
  "Parse data =
     (case Decode data of
        Inl e \<Rightarrow> Inl (TDecode e)
      | Inr v \<Rightarrow>
     (case asDict (Some v) of None \<Rightarrow> Inl TRootNotDict | Some root \<Rightarrow>
        (let announce = (case asString (map_of root (gostr ''announce'')) of Some s \<Rightarrow> s | None \<Rightarrow> []);
             webseeds = (case map_of root (gostr ''url-list'') of Some v \<Rightarrow> parseURLList v | None \<Rightarrow> [])
         in
     (case (case map_of root (gostr ''announce-list'') of
              Some v \<Rightarrow> parseAnnounceList v | None \<Rightarrow> Inr []) of
        Inl e \<Rightarrow> Inl e
      | Inr tiers \<Rightarrow>
     (case map_of root (gostr ''info'') of None \<Rightarrow> Inl TMissingInfo | Some infoVal \<Rightarrow>
     (case asDict (Some infoVal) of None \<Rightarrow> Inl TInfoNotDict | Some infoDict \<Rightarrow>
     (case Encode (BDict infoDict) of
        Inl e \<Rightarrow> Inl (TEncode e)
      | Inr infoBencoded \<Rightarrow>
          (let v2 = (asInt64 (map_of infoDict (gostr ''meta version'')) = Some 2)
           in case parseInfo infoDict of
                Inl e \<Rightarrow> Inl (if v2 then TV2Only else e)
              | Inr info \<Rightarrow>
                  Inr \<lparr>Announce = announce, AnnounceList = tiers, tf_Info = info,
                       tf_InfoHash = sha1_Sum infoBencoded,
                       InfoHashV2 = (if v2 then sha256_Sum256 infoBencoded else replicate 32 0),
                       MetaVersion = (if v2 then 2 else 0), WebSeedURLs = webseeds\<rparr>))))))))"

fun addURLs :: "bytes list \<Rightarrow> bytes list \<Rightarrow> bytes list" where
  "addURLs urls [] = urls"
| "addURLs urls (u # us) = addURLs (if u \<in> set urls then urls else urls @ [u]) us"

definition TrackerURLs :: "TorrentFile \<Rightarrow> bytes list" where
  "TrackerURLs tf =
     foldl addURLs (if Announce tf \<noteq> [] then [Announce tf] else []) (AnnounceList tf)"

section \<open>What a session stores\<close>

definition fileDict :: "File \<Rightarrow> bval" where
  "fileDict f = BDict (dict_put (gostr ''path'') (BList (map BStr (f_Path f)))
                        (dict_put (gostr ''length'') (BInt (f_Length f)) []))"

definition mustReencode :: "TorrentFile \<Rightarrow> dict" where
  "mustReencode tf =
     (let info = tf_Info tf;
          d = dict_put (gostr ''pieces'') (BStr (concat (PieceHashes info)))
                (dict_put (gostr ''piece length'') (BInt (PieceLength info))
                  (dict_put (gostr ''name'') (BStr (Name info)) []))
      in if i_Length info > 0 then dict_put (gostr ''length'') (BInt (i_Length info)) d
         else dict_put (gostr ''files'') (BList (map fileDict (Files info))) d)"

definition storedTorrent :: "TorrentFile \<Rightarrow> berror + bytes" where
  "storedTorrent tf =
     (let d = dict_put (gostr ''info'') (BDict (mustReencode tf)) []
      in Encode (BDict (if Announce tf \<noteq> []
                        then dict_put (gostr ''announce'') (BStr (Announce tf)) d else d)))"

section \<open>Well-formed metainfo\<close>

definition info_ok :: "Info \<Rightarrow> bool" where
  "info_ok i \<longleftrightarrow>
     0 < PieceLength i \<and> in_int64 (PieceLength i) \<and> (\<forall>h\<in>set (PieceHashes i). length h = 20) \<and>
     0 \<le> i_Length i \<and> in_int64 (i_Length i) \<and> (0 < i_Length i \<longrightarrow> Files i = []) \<and>
     (\<forall>f\<in>set (Files i). 0 \<le> f_Length f \<and> in_int64 (f_Length f))"

lemma wf_val_lookup:
  assumes "wf_val (BDict d)" "map_of d k = Some v"
  shows "wf_val v"
  using assms map_of_SomeD [of d k v] by (auto simp: list_all_iff)

lemma wf_val_int: "wf_val (BDict d) \<Longrightarrow> asInt64 (map_of d k) = Some n \<Longrightarrow> in_int64 n"
  using wf_val_lookup [of d k "BInt n"] by (auto simp: as_Some)

lemma parseFile_ok: "parseFile item = Inr f \<Longrightarrow> wf_val item \<Longrightarrow> 0 \<le> f_Length f \<and> in_int64 (f_Length f)"
  by (auto simp: parseFile_def as_Some split: option.splits if_splits sum.splits
      dest: wf_val_lookup simp del: wf_val.simps(4))

lemma parseFileList_ok:
  "parseFileList l = Inr fs \<Longrightarrow> list_all wf_val l \<Longrightarrow> \<forall>f\<in>set fs. 0 \<le> f_Length f \<and> in_int64 (f_Length f)"
  by (induction l arbitrary: fs) (auto split: sum.splits dest: parseFile_ok)

lemma parseFiles_ok:
  "parseFiles v = Inr fs \<Longrightarrow> wf_val v \<Longrightarrow> \<forall>f\<in>set fs. 0 \<le> f_Length f \<and> in_int64 (f_Length f)"
  using parseFileList_ok by (auto simp: parseFiles_def as_Some split: option.splits)

lemma parseInfo_elim:
  assumes "parseInfo d = Inr i"
  obtains pl ps where "asString (map_of d (gostr ''name'')) = Some (Name i)"
    "asInt64 (map_of d (gostr ''piece length'')) = Some pl" "0 < pl"
    "asString (map_of d (gostr ''pieces'')) = Some ps" "length ps mod 20 = 0"
    "PieceLength i = pl" "PieceHashes i = chunks 20 (length ps div 20) ps"
    "Private i = (asInt64 (map_of d (gostr ''private'')) = Some 1)"
    "asInt64 (map_of d (gostr ''length'')) = Some (i_Length i) \<and> 0 \<le> i_Length i \<and> Files i = [] \<or>
     asInt64 (map_of d (gostr ''length'')) = None \<and> i_Length i = 0 \<and>
       (map_of d (gostr ''files'') = None \<and> Files i = [] \<or>
        (\<exists>v. map_of d (gostr ''files'') = Some v \<and> parseFiles v = Inr (Files i)))"
proof -
  let ?P = "\<lambda>i. asInt64 (map_of d (gostr ''length'')) = Some (i_Length i) \<and> 0 \<le> i_Length i \<and> Files i = [] \<or>
     asInt64 (map_of d (gostr ''length'')) = None \<and> i_Length i = 0 \<and>
       (map_of d (gostr ''files'') = None \<and> Files i = [] \<or>
        (\<exists>v. map_of d (gostr ''files'') = Some v \<and> parseFiles v = Inr (Files i)))"
  obtain name pl ps where *: "asString (map_of d (gostr ''name'')) = Some name"
    "asInt64 (map_of d (gostr ''piece length'')) = Some pl" "0 < pl"
    "asString (map_of d (gostr ''pieces'')) = Some ps" "length ps mod 20 = 0"
    using assms unfolding parseInfo_def by (auto split: option.splits if_splits)
  with assms have "Name i = name \<and> PieceLength i = pl \<and> PieceHashes i = chunks 20 (length ps div 20) ps \<and>
      Private i = (asInt64 (map_of d (gostr ''private'')) = Some 1) \<and> ?P i"
    unfolding parseInfo_def
    by (cases "asInt64 (map_of d (gostr ''length''))"; cases "map_of d (gostr ''files'')")
      (auto simp: Let_def split: if_splits sum.splits)
  with * that show ?thesis by simp
qed

lemma parseInfo_private:
  "parseInfo d = Inr i \<Longrightarrow> Private i = (asInt64 (map_of d (gostr ''private'')) = Some 1)"
  by (erule parseInfo_elim) simp

lemma parseInfo_ok:
  assumes "parseInfo d = Inr i" and wf: "wf_val (BDict d)"
  shows "info_ok i"
  using assms(1)
proof (rule parseInfo_elim)
  fix pl ps
  assume a: "asInt64 (map_of d (gostr ''piece length'')) = Some pl" "0 < pl" "length ps mod 20 = 0"
    "PieceLength i = pl" "PieceHashes i = chunks 20 (length ps div 20) (ps :: bytes)"
    and l: "asInt64 (map_of d (gostr ''length'')) = Some (i_Length i) \<and> 0 \<le> i_Length i \<and> Files i = [] \<or>
     asInt64 (map_of d (gostr ''length'')) = None \<and> i_Length i = 0 \<and>
       (map_of d (gostr ''files'') = None \<and> Files i = [] \<or>
        (\<exists>v. map_of d (gostr ''files'') = Some v \<and> parseFiles v = Inr (Files i)))"
  have "length ps = length ps div 20 * 20" using a(3) div_mult_mod_eq [of "length ps" 20] by simp
  then have hashes: "\<forall>h\<in>set (PieceHashes i). length h = 20"
    unfolding a(5) by (blast intro: length_chunk)
  have "in_int64 0" by (simp add: in_int64_def min_int64_def max_int64_def)
  then have len: "in_int64 (i_Length i)" using l wf_val_int [OF wf] by metis
  have files: "\<forall>f\<in>set (Files i). 0 \<le> f_Length f \<and> in_int64 (f_Length f)"
    using l wf_val_lookup [OF wf] parseFiles_ok by (metis empty_iff empty_set)
  have "0 \<le> i_Length i" "0 < i_Length i \<longrightarrow> Files i = []" using l by (metis order_refl order_less_irrefl)+
  moreover have "0 < PieceLength i" "in_int64 (PieceLength i)"
    using a(2,4) wf_val_int [OF wf a(1)] by simp_all
  ultimately show ?thesis
    unfolding info_ok_def using hashes len files by blast
qed

lemma Parse_elim:
  assumes "Parse data = Inr tf"
  obtains root infoDict where
    "Decode data = Inr (BDict root)" "map_of root (gostr ''info'') = Some (BDict infoDict)"
    "parseInfo infoDict = Inr (tf_Info tf)" "wf_val (BDict infoDict)"
    "tf_InfoHash tf = sha1_Sum (enc (BDict infoDict))"
    "MetaVersion tf = (if asInt64 (map_of infoDict (gostr ''meta version'')) = Some 2 then 2 else 0)"
    "InfoHashV2 tf = (if MetaVersion tf = 2 then sha256_Sum256 (enc (BDict infoDict)) else replicate 32 0)"
proof -
  obtain root infoDict b where *: "Decode data = Inr (BDict root)"
    "map_of root (gostr ''info'') = Some (BDict infoDict)" "Encode (BDict infoDict) = Inr b"
    "parseInfo infoDict = Inr (tf_Info tf)" "tf_InfoHash tf = sha1_Sum b"
    "MetaVersion tf = (if asInt64 (map_of infoDict (gostr ''meta version'')) = Some 2 then 2 else 0)"
    "InfoHashV2 tf = (if MetaVersion tf = 2 then sha256_Sum256 b else replicate 32 0)"
    using assms
    by (auto simp: Parse_def Let_def as_Some split: sum.splits option.splits if_splits)
  have "wf_val (BDict infoDict)"
    using Decode_encodable [OF *(1)] wf_val_lookup [OF _ *(2)] by (simp add: encodable_def del: wf_val.simps)
  with * show ?thesis using that Encode_enc by fastforce
qed

section \<open>Re-reading what was stored\<close>

lemma map_filter_BStr: "parsePath (map BStr ps) = Inr ps"
  by (induction ps) auto

lemma parseFile_fileDict: "0 \<le> f_Length f \<Longrightarrow> parseFile (fileDict f) = Inr f"
  by (simp add: parseFile_def fileDict_def map_filter_BStr)

lemma parseFileList_fileDict:
  "\<forall>f\<in>set fs. 0 \<le> f_Length f \<Longrightarrow> parseFileList (map fileDict fs) = Inr fs"
  by (induction fs) (auto simp: parseFile_fileDict)

lemma mustReencode_lookup:
  fixes tf
  defines "i \<equiv> tf_Info tf"
  shows "map_of (mustReencode tf) (gostr ''name'') = Some (BStr (Name i))"
    "map_of (mustReencode tf) (gostr ''piece length'') = Some (BInt (PieceLength i))"
    "map_of (mustReencode tf) (gostr ''pieces'') = Some (BStr (concat (PieceHashes i)))"
    "map_of (mustReencode tf) (gostr ''length'') =
       (if 0 < i_Length i then Some (BInt (i_Length i)) else None)"
    "map_of (mustReencode tf) (gostr ''files'') =
       (if 0 < i_Length i then None else Some (BList (map fileDict (Files i))))"
    "map_of (mustReencode tf) (gostr ''private'') = None"
    "map_of (mustReencode tf) (gostr ''file tree'') = None"
    "map_of (mustReencode tf) (gostr ''meta version'') = None"
  by (simp_all add: mustReencode_def Let_def i_def del: dict_put.simps)

lemma parseInfo_mustReencode:
  assumes "info_ok (tf_Info tf)"
  shows "parseInfo (mustReencode tf) = Inr ((tf_Info tf)\<lparr>Private := False, FileTree := None\<rparr>)"
proof -
  let ?i = "tf_Info tf"
  have h: "length (concat (PieceHashes ?i)) = 20 * length (PieceHashes ?i)"
    by (rule length_concat_const) (use assms in \<open>simp add: info_ok_def\<close>)
  have c: "chunks 20 (length (PieceHashes ?i)) (concat (PieceHashes ?i)) = PieceHashes ?i"
    by (rule chunks_concat) (use assms in \<open>simp add: info_ok_def\<close>)
  have f: "parseFileList (map fileDict (Files ?i)) = Inr (Files ?i)"
    by (rule parseFileList_fileDict) (use assms in \<open>simp add: info_ok_def\<close>)
  have "0 < PieceLength ?i" "0 \<le> i_Length ?i" "0 < i_Length ?i \<Longrightarrow> Files ?i = []"
    using assms by (simp_all add: info_ok_def)
  then show ?thesis
    by (cases "0 < i_Length ?i") (simp_all add: parseInfo_def mustReencode_lookup parseFiles_def h c f)
qed

text \<open>The sizes within which the stored dictionary is below the decoder's limits.\<close>

definition store_ok :: "TorrentFile \<Rightarrow> bool" where
  "store_ok tf \<longleftrightarrow> info_ok (tf_Info tf) \<and>
     length (Name (tf_Info tf)) \<le> MaxStringLength \<and>
     20 * length (PieceHashes (tf_Info tf)) \<le> MaxStringLength \<and>
     length (Announce tf) \<le> MaxStringLength \<and>
     length (Files (tf_Info tf)) \<le> MaxCollectionSize \<and>
     (\<forall>f\<in>set (Files (tf_Info tf)). length (f_Path f) \<le> MaxCollectionSize \<and>
        (\<forall>s\<in>set (f_Path f). length s \<le> MaxStringLength)) \<and>
     6 + sum_list (map (\<lambda>f. 3 + length (f_Path f)) (Files (tf_Info tf))) \<le> MaxTotalItems"

definition info_entries :: "Info \<Rightarrow> dict" where
  "info_entries i = [(gostr ''name'', BStr (Name i)), (gostr ''piece length'', BInt (PieceLength i)),
     (gostr ''pieces'', BStr (concat (PieceHashes i)))] @
     (if 0 < i_Length i then [(gostr ''length'', BInt (i_Length i))]
      else [(gostr ''files'', BList (map fileDict (Files i)))])"

lemma mustReencode_entries: "mustReencode tf = dict_of (info_entries (tf_Info tf))"
  by (simp add: mustReencode_def info_entries_def dict_of_def Let_def)

lemma fileDict_entries: "fileDict f = BDict (dict_of
    [(gostr ''length'', BInt (f_Length f)), (gostr ''path'', BList (map BStr (f_Path f)))])"
  by (simp add: fileDict_def dict_of_def)

lemma height_BList_BStr: "height (BList (map BStr ss)) \<le> 1"
  unfolding height_list_le by auto

lemma items_BList_BStr: "items (BList (map BStr ss)) = length ss"
  by (induction ss) auto

lemma height_dict_of:
  assumes "\<forall>(k, v)\<in>set kvs. height v < n"
  shows "height (BDict (dict_of kvs)) \<le> n"
  unfolding height_dict_le using assms set_dict_of [of kvs] by (auto simp: Suc_le_eq)

lemma fileDict_facts:
  assumes "in_int64 (f_Length f)" "length (f_Path f) \<le> MaxCollectionSize"
    "\<forall>s\<in>set (f_Path f). length s \<le> MaxStringLength"
  shows "wf_val (fileDict f)" "height (fileDict f) \<le> 2" "items (fileDict f) \<le> 2 + length (f_Path f)"
proof -
  let ?kvs = "[(gostr ''length'', BInt (f_Length f)), (gostr ''path'', BList (map BStr (f_Path f)))]"
  have p: "wf_val (BList (map BStr (f_Path f)))"
    using assms(2,3) by (auto simp: list_all_iff)
  have i: "items (BDict ?kvs) = 2 + length (f_Path f)"
    using items_BList_BStr [of "f_Path f"] by simp
  have "encodable (BDict (dict_of ?kvs))"
    by (rule encodable_dict_of)
      (use assms p height_BList_BStr [of "f_Path f"] i in
        \<open>auto simp: MaxStringLength_def MaxDecodeDepth_def MaxCollectionSize_def MaxTotalItems_def
          simp del: height.simps(1,2) wf_val.simps(3) items.simps(1,2)\<close>)
  then show "wf_val (fileDict f)" by (simp add: encodable_def fileDict_entries del: wf_val.simps)
  show "height (fileDict f) \<le> 2"
    unfolding fileDict_entries by (rule height_dict_of) (use height_BList_BStr [of "f_Path f"] in auto)
  show "items (fileDict f) \<le> 2 + length (f_Path f)"
    unfolding fileDict_entries using items_dict_of [of ?kvs] i by simp
qed

lemma files_facts:
  assumes "store_ok tf"
  defines "fs \<equiv> Files (tf_Info tf)"
  shows "wf_val (BList (map fileDict fs))" "height (BList (map fileDict fs)) \<le> 3"
    "items (BList (map fileDict fs)) \<le> sum_list (map (\<lambda>f. 3 + length (f_Path f)) fs)"
proof -
  have f: "in_int64 (f_Length f) \<and> length (f_Path f) \<le> MaxCollectionSize \<and>
      (\<forall>s\<in>set (f_Path f). length s \<le> MaxStringLength)" if "f \<in> set fs" for f
    using that assms by (simp add: store_ok_def info_ok_def)
  show "wf_val (BList (map fileDict fs))"
    using fileDict_facts(1) f assms by (simp add: store_ok_def list_all_iff)
  show "height (BList (map fileDict fs)) \<le> 3"
    unfolding height_list_le using fileDict_facts(2) f by fastforce
  have "sum_list (map (\<lambda>f. Suc (items (fileDict f))) fs) \<le> sum_list (map (\<lambda>f. 3 + length (f_Path f)) fs)"
    by (rule sum_list_mono) (use fileDict_facts(3) f in fastforce)
  then show "items (BList (map fileDict fs)) \<le> sum_list (map (\<lambda>f. 3 + length (f_Path f)) fs)"
    by (simp add: comp_def)
qed

lemma mustReencode_facts:
  assumes "store_ok tf"
  shows "encodable (BDict (mustReencode tf))" "height (BDict (mustReencode tf)) \<le> 4"
    "items (BDict (mustReencode tf)) \<le> 4 + sum_list (map (\<lambda>f. 3 + length (f_Path f)) (Files (tf_Info tf)))"
proof -
  let ?i = "tf_Info tf"
  have len: "length (concat (PieceHashes ?i)) = 20 * length (PieceHashes ?i)"
    by (rule length_concat_const) (use assms in \<open>simp add: store_ok_def info_ok_def\<close>)
  have items: "items (BDict (info_entries ?i)) \<le> 4 + sum_list (map (\<lambda>f. 3 + length (f_Path f)) (Files ?i))"
    using files_facts(3) [OF assms] by (simp add: info_entries_def)
  have entry: "length k \<le> MaxStringLength \<and> wf_val v \<and> height v \<le> 3"
    if "(k, v) \<in> set (info_entries ?i)" for k v
  proof -
    have "length (Name ?i) \<le> MaxStringLength" "length (concat (PieceHashes ?i)) \<le> MaxStringLength"
      "in_int64 (PieceLength ?i)" "in_int64 (i_Length ?i)" "14 \<le> MaxStringLength"
      using assms len by (simp_all add: store_ok_def info_ok_def MaxStringLength_def)
    then show ?thesis
      using that files_facts(1,2) [OF assms]
      by (auto simp: info_entries_def split: if_splits simp del: wf_val.simps(3) height.simps(1))
  qed
  show "encodable (BDict (mustReencode tf))"
    unfolding mustReencode_entries
  proof (rule encodable_dict_of)
    show "length (info_entries ?i) \<le> MaxCollectionSize"
      by (simp add: info_entries_def MaxCollectionSize_def)
    show "items (BDict (info_entries ?i)) \<le> MaxTotalItems"
      using items assms unfolding store_ok_def by linarith
    show "length k \<le> MaxStringLength \<and> wf_val v \<and> height v < MaxDecodeDepth"
      if "(k, v) \<in> set (info_entries ?i)" for k v
      using entry [OF that] by (simp add: MaxDecodeDepth_def)
  qed
  show "height (BDict (mustReencode tf)) \<le> 4"
    unfolding mustReencode_entries by (rule height_dict_of) (use entry in fastforce)
  show "items (BDict (mustReencode tf)) \<le> 4 + sum_list (map (\<lambda>f. 3 + length (f_Path f)) (Files (tf_Info tf)))"
    unfolding mustReencode_entries using items_dict_of [of "info_entries ?i"] items by linarith
qed

definition stored_entries :: "TorrentFile \<Rightarrow> dict" where
  "stored_entries tf = [(gostr ''info'', BDict (mustReencode tf))] @
     (if Announce tf \<noteq> [] then [(gostr ''announce'', BStr (Announce tf))] else [])"

lemma stored_encodable:
  assumes "store_ok tf"
  shows "encodable (BDict (dict_of (stored_entries tf)))"
proof (rule encodable_dict_of)
  note m = mustReencode_facts [OF assms]
  show "length (stored_entries tf) \<le> MaxCollectionSize"
    by (simp add: stored_entries_def MaxCollectionSize_def)
  show "items (BDict (stored_entries tf)) \<le> MaxTotalItems"
    using m(3) assms by (auto simp: stored_entries_def store_ok_def)
  show "length k \<le> MaxStringLength \<and> wf_val v \<and> height v < MaxDecodeDepth"
    if "(k, v) \<in> set (stored_entries tf)" for k v
    using that m(1,2) assms
    by (auto simp: stored_entries_def store_ok_def encodable_def MaxStringLength_def MaxDecodeDepth_def
        split: if_splits simp del: wf_val.simps(4) height.simps(2))
qed

lemma storedTorrent_enc:
  assumes "store_ok tf"
  shows "storedTorrent tf = Inr (enc (BDict (dict_of (stored_entries tf))))"
proof -
  have "storedTorrent tf = Encode (BDict (dict_of (stored_entries tf)))"
    by (simp add: storedTorrent_def stored_entries_def dict_of_def Let_def)
  with stored_encodable [OF assms] show ?thesis by (simp add: Encode_enc encodable_def del: wf_val.simps)
qed

definition resumed :: "TorrentFile \<Rightarrow> TorrentFile" where
  "resumed tf = \<lparr>Announce = Announce tf, AnnounceList = [],
     tf_Info = (tf_Info tf)\<lparr>Private := False, FileTree := None\<rparr>,
     tf_InfoHash = sha1_Sum (enc (BDict (mustReencode tf))),
     InfoHashV2 = replicate 32 0, MetaVersion = 0, WebSeedURLs = []\<rparr>"

lemma Parse_stored:
  assumes "store_ok tf"
  shows "Parse (enc (BDict (dict_of (stored_entries tf)))) = Inr (resumed tf)"
proof -
  let ?d = "dict_of (stored_entries tf)"
  have l: "map_of ?d (gostr ''info'') = Some (BDict (mustReencode tf))"
    "map_of ?d (gostr ''announce'') = (if Announce tf \<noteq> [] then Some (BStr (Announce tf)) else None)"
    "map_of ?d (gostr ''announce-list'') = None" "map_of ?d (gostr ''url-list'') = None"
    by (simp_all add: stored_entries_def)
  have e: "Encode (BDict (mustReencode tf)) = Inr (enc (BDict (mustReencode tf)))"
    using mustReencode_facts(1) [OF assms] by (simp add: Encode_enc encodable_def del: wf_val.simps)
  have i: "parseInfo (mustReencode tf) = Inr ((tf_Info tf)\<lparr>Private := False, FileTree := None\<rparr>)"
    by (rule parseInfo_mustReencode) (use assms in \<open>simp add: store_ok_def\<close>)
  show ?thesis
    unfolding Parse_def Decode_enc [OF stored_encodable [OF assms]] sum.case as_simps option.case l e i
    by (simp add: mustReencode_lookup resumed_def Let_def)
qed

section \<open>Torrents with only the standard keys\<close>

definition standard_file :: "bval \<Rightarrow> bool" where
  "standard_file v =
     (case v of BDict d \<Rightarrow> fst ` set d \<subseteq> {gostr ''length'', gostr ''path''} | _ \<Rightarrow> False)"

definition standard_info :: "dict \<Rightarrow> bool" where
  "standard_info d \<longleftrightarrow>
     (fst ` set d \<subseteq> {gostr ''name'', gostr ''piece length'', gostr ''pieces'', gostr ''length''} \<and>
        (case map_of d (gostr ''length'') of Some (BInt n) \<Rightarrow> 0 < n | _ \<Rightarrow> False)) \<or>
     (fst ` set d \<subseteq> {gostr ''name'', gostr ''piece length'', gostr ''pieces'', gostr ''files''} \<and>
        (case map_of d (gostr ''files'') of Some (BList l) \<Rightarrow> list_all standard_file l | _ \<Rightarrow> False))"

lemma parsePath_inv: "parsePath l = Inr ss \<Longrightarrow> map BStr ss = l"
  by (induction l arbitrary: ss) (auto simp: as_Some split: option.splits sum.splits)

lemma map_of_outside: "fst ` set d \<subseteq> K \<Longrightarrow> k \<notin> K \<Longrightarrow> map_of d k = None"
  by (auto simp: map_of_eq_None_iff)

lemma parseFile_inv:
  assumes "parseFile item = Inr f" "wf_val item" "standard_file item"
  shows "fileDict f = item"
proof -
  obtain d l where d: "item = BDict d" "map_of d (gostr ''length'') = Some (BInt (f_Length f))"
    "map_of d (gostr ''path'') = Some (BList l)" "parsePath l = Inr (f_Path f)"
    using assms(1) by (auto simp: parseFile_def as_Some split: option.splits if_splits sum.splits)
  let ?e = "dict_of [(gostr ''length'', BInt (f_Length f)), (gostr ''path'', BList (map BStr (f_Path f)))]"
  have "fst ` set d \<subseteq> {gostr ''length'', gostr ''path''}"
    using assms(3) by (simp add: standard_file_def d(1))
  then have "map_of ?e k = map_of d k" for k
    using d parsePath_inv [OF d(4)] map_of_outside [of d _ k] by auto
  then have "?e = d" using assms(2) by (intro dict_ext) (auto simp: d(1))
  then show ?thesis by (simp add: d(1) fileDict_entries)
qed

lemma parseFileList_inv:
  "parseFileList l = Inr fs \<Longrightarrow> list_all wf_val l \<Longrightarrow> list_all standard_file l \<Longrightarrow> map fileDict fs = l"
  by (induction l arbitrary: fs) (auto split: sum.splits dest: parseFile_inv)

lemma standard_reencode:
  assumes p: "parseInfo d = Inr (tf_Info tf)" and wf: "wf_val (BDict d)" and s: "standard_info d"
  shows "mustReencode tf = d"
proof (rule dict_ext)
  show "dict_ok (mustReencode tf)" by (simp add: mustReencode_entries)
  show "dict_ok d" using wf by simp
  let ?i = "tf_Info tf"
  obtain ps where e: "map_of d (gostr ''name'') = Some (BStr (Name ?i))"
    "map_of d (gostr ''piece length'') = Some (BInt (PieceLength ?i))"
    "map_of d (gostr ''pieces'') = Some (BStr ps)" "concat (PieceHashes ?i) = ps"
    and l: "asInt64 (map_of d (gostr ''length'')) = Some (i_Length ?i) \<and> 0 \<le> i_Length ?i \<and> Files ?i = [] \<or>
     asInt64 (map_of d (gostr ''length'')) = None \<and> i_Length ?i = 0 \<and>
       (map_of d (gostr ''files'') = None \<and> Files ?i = [] \<or>
        (\<exists>v. map_of d (gostr ''files'') = Some v \<and> parseFiles v = Inr (Files ?i)))"
  proof (rule parseInfo_elim [OF p], goal_cases)
    case (1 pl ps)
    have "length ps = length ps div 20 * 20" using 1(6) div_mult_mod_eq [of "length ps" 20] by simp
    then have "concat (PieceHashes ?i) = ps" unfolding 1(8) by (rule concat_chunks)
    with 1 show ?case by (simp add: as_Some)
  qed
  show "map_of (mustReencode tf) = map_of d"
  proof
    fix k
    consider (single) n where "map_of d (gostr ''length'') = Some (BInt n)" "0 < n"
        "fst ` set d \<subseteq> {gostr ''name'', gostr ''piece length'', gostr ''pieces'', gostr ''length''}"
      | (multi) fl where "map_of d (gostr ''files'') = Some (BList fl)" "list_all standard_file fl"
        "fst ` set d \<subseteq> {gostr ''name'', gostr ''piece length'', gostr ''pieces'', gostr ''files''}"
      using s by (auto simp: standard_info_def split: option.splits bval.splits)
    then show "map_of (mustReencode tf) k = map_of d k"
    proof cases
      case single
      then have "i_Length ?i = n" using l by simp
      then show ?thesis
        using single(1,2) e map_of_outside [OF single(3), of k]
        by (auto simp: mustReencode_entries info_entries_def)
    next
      case multi
      have nolen: "map_of d (gostr ''length'') = None"
        by (rule map_of_outside [OF multi(3)]) simp
      have "list_all wf_val fl" using wf_val_lookup [OF wf multi(1)] by simp
      moreover have "parseFileList fl = Inr (Files ?i)" "i_Length ?i = 0"
        using l multi(1) nolen by (auto simp: parseFiles_def)
      ultimately have "map fileDict (Files ?i) = fl" using parseFileList_inv multi(2) by blast
      then show ?thesis
        using multi(1) e map_of_outside [OF multi(3), of k] \<open>i_Length ?i = 0\<close> nolen
        by (auto simp: mustReencode_entries info_entries_def)
    qed
  qed
qed

section \<open>Tracker URLs\<close>

lemma addURLs_facts:
  "distinct urls \<Longrightarrow> distinct (addURLs urls us) \<and> set (addURLs urls us) = set urls \<union> set us \<and>
     take (length urls) (addURLs urls us) = urls"
proof (induction us arbitrary: urls)
  case (Cons u us)
  let ?v = "if u \<in> set urls then urls else urls @ [u]"
  have IH: "distinct (addURLs ?v us)" "set (addURLs ?v us) = set ?v \<union> set us"
    "take (length ?v) (addURLs ?v us) = ?v"
    using Cons.IH [of ?v] Cons.prems by auto
  have "take (length urls) (addURLs ?v us) = take (length urls) (take (length ?v) (addURLs ?v us))"
    by (simp add: min_def)
  also have "\<dots> = urls" unfolding IH(3) by simp
  finally show ?case using IH(1,2) by auto
qed simp

lemma foldl_addURLs:
  "distinct urls \<Longrightarrow> distinct (foldl addURLs urls tiers) \<and>
     set (foldl addURLs urls tiers) = set urls \<union> (\<Union>t\<in>set tiers. set t) \<and>
     take (length urls) (foldl addURLs urls tiers) = urls"
proof (induction tiers arbitrary: urls)
  case (Cons t tiers)
  let ?v = "addURLs urls t"
  have v: "distinct ?v" "set ?v = set urls \<union> set t" "take (length urls) ?v = urls"
    using addURLs_facts [OF Cons.prems, of t] by auto
  have IH: "distinct (foldl addURLs ?v tiers)"
    "set (foldl addURLs ?v tiers) = set ?v \<union> (\<Union>t\<in>set tiers. set t)"
    "take (length ?v) (foldl addURLs ?v tiers) = ?v"
    using Cons.IH [OF v(1)] by auto
  have "length urls \<le> length ?v" using v(3) by (metis length_take min.cobounded1 min.absorb_iff2 nat_le_linear)
  then have "take (length urls) (foldl addURLs ?v tiers) = take (length urls) (take (length ?v) (foldl addURLs ?v tiers))"
    by (simp add: min_def)
  then have "take (length urls) (foldl addURLs ?v tiers) = urls" unfolding IH(3) v(3) .
  then show ?case using IH(1,2) v(2) by auto
qed simp

section \<open>Properties\<close>

text \<open>
  C17: Whatever bytes are accepted as a torrent, the result is well-formed: the piece length is
  positive, every piece hash has 20 bytes, no length is negative, all are 64-bit values, a torrent
  with a positive single-file length has no file list; and the info hash is the SHA-1 of the
  canonical encoding of the decoded info dictionary (and SHA-256 for version 2).
\<close>

theorem Parse_sound:
  assumes "Parse data = Inr tf"
  shows "info_ok (tf_Info tf) \<and>
    (\<exists>root d. Decode data = Inr (BDict root) \<and> map_of root (gostr ''info'') = Some (BDict d) \<and>
       tf_InfoHash tf = sha1_Sum (enc (BDict d)) \<and> length (tf_InfoHash tf) = 20 \<and>
       InfoHashV2 tf = (if MetaVersion tf = 2 then sha256_Sum256 (enc (BDict d)) else replicate 32 0))"
  using Parse_elim [OF assms] parseInfo_ok length_sha1_Sum by metis

definition demo_torrent :: TorrentFile where
  "demo_torrent = \<lparr>Announce = gostr ''http://t/a'', AnnounceList = [],
     tf_Info = \<lparr>Name = gostr ''x'', PieceLength = 4, PieceHashes = [replicate 20 1, replicate 20 2],
       i_Length = 5, Files = [], Private = True, FileTree = None\<rparr>,
     tf_InfoHash = replicate 20 0, InfoHashV2 = replicate 32 0, MetaVersion = 0, WebSeedURLs = []\<rparr>"

lemma demo_torrent_ok: "store_ok demo_torrent"
  by (simp add: demo_torrent_def store_ok_def info_ok_def in_int64_def min_int64_def max_int64_def
      MaxStringLength_def MaxCollectionSize_def MaxTotalItems_def)

theorem Parse_sound_witness:
  "\<exists>b. Parse b = Inr (resumed demo_torrent) \<and> info_ok (tf_Info (resumed demo_torrent))"
  using Parse_sound [OF Parse_stored [OF demo_torrent_ok]] Parse_stored [OF demo_torrent_ok] by blast

text \<open>
  C18: A torrent resolved from a magnet link comes back after a restart. If its info dictionary
  holds only the standard keys (name, piece length, pieces, and either a positive length or a file
  list with length and path), what the session stores parses to a torrent with the same info
  dictionary and the same info hash.
\<close>

theorem resume_same_torrent:
  assumes "Parse data = Inr tf" "store_ok tf"
    and "Decode data = Inr (BDict root)" "map_of root (gostr ''info'') = Some (BDict d)" "standard_info d"
  shows "\<exists>b tf'. storedTorrent tf = Inr b \<and> Parse b = Inr tf' \<and>
    tf_InfoHash tf' = tf_InfoHash tf \<and> PieceHashes (tf_Info tf') = PieceHashes (tf_Info tf) \<and>
    Files (tf_Info tf') = Files (tf_Info tf) \<and> i_Length (tf_Info tf') = i_Length (tf_Info tf) \<and>
    PieceLength (tf_Info tf') = PieceLength (tf_Info tf) \<and> Name (tf_Info tf') = Name (tf_Info tf) \<and>
    Private (tf_Info tf') = Private (tf_Info tf) \<and> Announce tf' = Announce tf"
proof -
  obtain root' d' where p: "Decode data = Inr (BDict root')"
    "map_of root' (gostr ''info'') = Some (BDict d')" "parseInfo d' = Inr (tf_Info tf)"
    "wf_val (BDict d')" "tf_InfoHash tf = sha1_Sum (enc (BDict d'))"
    by (rule Parse_elim [OF assms(1)])
  have "root' = root" using p(1) assms(3) by simp
  then have "d' = d" using p(2) assms(4) by simp
  then have *: "parseInfo d = Inr (tf_Info tf)" "wf_val (BDict d)" "tf_InfoHash tf = sha1_Sum (enc (BDict d))"
    using p(3-5) by simp_all
  have "map_of d (gostr ''private'') = None"
    using assms(5) map_of_outside [of d _ "gostr ''private''"] by (auto simp: standard_info_def)
  then have "Private (tf_Info tf) = False"
    using parseInfo_private [OF *(1)] by simp
  then show ?thesis
    using storedTorrent_enc [OF assms(2)] Parse_stored [OF assms(2)] standard_reencode [OF *(1,2) assms(5)]
    by (simp add: resumed_def *(3))
qed

theorem resume_same_torrent_witness:
  "\<exists>b tf'. storedTorrent (resumed demo_torrent) = Inr b \<and> Parse b = Inr tf' \<and>
     tf_InfoHash tf' = tf_InfoHash (resumed demo_torrent)"
proof -
  have ok: "store_ok (resumed demo_torrent)"
    using demo_torrent_ok by (simp add: store_ok_def info_ok_def resumed_def)
  have d: "Decode (enc (BDict (dict_of (stored_entries demo_torrent)))) = Inr (BDict (dict_of (stored_entries demo_torrent)))"
    by (rule Decode_enc [OF stored_encodable [OF demo_torrent_ok]])
  have l: "map_of (dict_of (stored_entries demo_torrent)) (gostr ''info'') = Some (BDict (mustReencode demo_torrent))"
    by (simp add: stored_entries_def)
  have "standard_info (mustReencode demo_torrent)"
    unfolding standard_info_def mustReencode_lookup
    by (simp add: mustReencode_entries info_entries_def dict_of_def demo_torrent_def)
  from resume_same_torrent [OF Parse_stored [OF demo_torrent_ok] ok d l this] show ?thesis by blast
qed

text \<open>
  Outside of these keys the stored dictionary is another one: the private flag of BEP 27 and every
  other key of the info dictionary are not stored, so a private torrent comes back as a public one,
  under the hash of the reduced dictionary.
\<close>

lemma resume_drops_private:
  assumes "store_ok tf" "Private (tf_Info tf)"
  shows "\<exists>b tf'. storedTorrent tf = Inr b \<and> Parse b = Inr tf' \<and> \<not> Private (tf_Info tf') \<and>
    tf_InfoHash tf' = sha1_Sum (enc (BDict (mustReencode tf))) \<and>
    map_of (mustReencode tf) (gostr ''private'') = None"
  using storedTorrent_enc [OF assms(1)] Parse_stored [OF assms(1)]
  by (simp add: resumed_def mustReencode_lookup)

text \<open>
  C19: \<open>TrackerURLs\<close> lists every tracker of the torrent once, with the announce URL first.
\<close>

theorem TrackerURLs_once:
  "distinct (TrackerURLs tf) \<and>
   set (TrackerURLs tf) = ({Announce tf} - {[]}) \<union> (\<Union>t\<in>set (AnnounceList tf). set t) \<and>
   (Announce tf = [] \<or> take 1 (TrackerURLs tf) = [Announce tf])"
  using foldl_addURLs [of "if Announce tf \<noteq> [] then [Announce tf] else []" "AnnounceList tf"]
  by (auto simp: TrackerURLs_def)

end
