(* ===== verification/Storage.thy ===== *)
theory Storage
  imports Go_Path Torrent_File Peer_Wire
begin

text \<open>
  Torrent data on disk, \<^verbatim>\<open>src/storage/multifile.go\<close>, \<^verbatim>\<open>torrent.go\<close> and \<^verbatim>\<open>verify.go\<close>. The disk maps paths
  to file contents; opening a path can be refused (\<open>d_denied\<close>) and so can writing to it
  (\<open>d_werr\<close>); closing a file succeeds. A file handle is the path it was opened with; \<open>mw_handles\<close> are the cached ones.
  Directories are not represented: \<open>MkdirAll\<close> succeeds unless the path is denied.
\<close>

section \<open>Files\<close>

record Disk =
  d_files :: "bytes \<Rightarrow> bytes option"
  d_denied :: "bytes \<Rightarrow> bool"
  d_werr :: "bytes \<Rightarrow> bool"

datatype serror = MkdirFailed | PathTraversal | OpenFailed | WriteFailed | SClosed | SEOF

definition pad_to :: "nat \<Rightarrow> bytes \<Rightarrow> bytes" where
  "pad_to n b = b @ replicate (n - length b) 0"

text \<open>\<open>os.File.WriteAt\<close>, \<open>ReadAt\<close> and \<open>Truncate\<close> on the contents.\<close>

definition file_write :: "bytes \<Rightarrow> nat \<Rightarrow> bytes \<Rightarrow> bytes" where
  "file_write b off data =
     (if data = [] then b
      else take off (pad_to off b) @ data @ drop (off + length data) b)"

definition file_read :: "bytes \<Rightarrow> nat \<Rightarrow> nat \<Rightarrow> bytes" where
  "file_read b off n = take n (drop off b)"

definition file_trunc :: "bytes \<Rightarrow> nat \<Rightarrow> bytes" where
  "file_trunc b n = take n (pad_to n b)"

definition content :: "Disk \<Rightarrow> bytes \<Rightarrow> bytes" where
  "content d p = (case d_files d p of None \<Rightarrow> [] | Some b \<Rightarrow> b)"

definition put_file :: "bytes \<Rightarrow> bytes \<Rightarrow> Disk \<Rightarrow> Disk" where
  "put_file p b d = d\<lparr>d_files := (d_files d)(p \<mapsto> b)\<rparr>"

section \<open>The multi-file writer\<close>

record fileEntry =
  fe_path :: bytes
  fe_offset :: int
  fe_length :: int

record MultiFileWriter =
  mw_baseDir :: bytes
  mw_files :: "fileEntry list"
  mw_total :: int
  mw_handles :: "bytes set"
  mw_closed :: bool

fun buildEntries :: "Disk \<Rightarrow> bytes \<Rightarrow> bytes \<Rightarrow> int \<Rightarrow> File list \<Rightarrow> serror + fileEntry list \<times> int" where
  "buildEntries d baseDir cleanBase offset [] = Inr ([], offset)"
| "buildEntries d baseDir cleanBase offset (f # fs) =
     (let relPath = Join (f_Path f);
          fullPath = Clean (Join [baseDir, relPath])
      in if \<not> HasPrefix fullPath cleanBase then Inl PathTraversal
         else if d_denied d (Dir fullPath) then Inl MkdirFailed
         else (case buildEntries d baseDir cleanBase (wrap64 (offset + f_Length f)) fs of
                 Inl e \<Rightarrow> Inl e
               | Inr (es, tot) \<Rightarrow>
                   Inr (\<lparr>fe_path = fullPath, fe_offset = offset, fe_length = f_Length f\<rparr> # es, tot)))"

definition NewMultiFileWriter :: "Disk \<Rightarrow> bytes \<Rightarrow> TorrentFile \<Rightarrow> serror + MultiFileWriter" where
  "NewMultiFileWriter d baseDir tf =
     (if d_denied d baseDir then Inl MkdirFailed
      else (case buildEntries d baseDir (Clean baseDir @ [slash]) 0 (Files (tf_Info tf)) of
              Inl e \<Rightarrow> Inl e
            | Inr (entries, offset) \<Rightarrow>
                Inr \<lparr>mw_baseDir = baseDir, mw_files = entries, mw_total = offset,
                     mw_handles = {}, mw_closed = False\<rparr>))"

definition getHandle :: "bytes \<Rightarrow> bool \<Rightarrow> Disk \<Rightarrow> bytes set \<Rightarrow> serror + Disk \<times> bytes set" where
  "getHandle path create d hs =
     (if path \<in> hs then Inr (d, hs)
      else if d_denied d path then Inl OpenFailed
      else (case d_files d path of
              Some b \<Rightarrow> Inr (d, insert path hs)
            | None \<Rightarrow> if create then Inr (put_file path [] d, insert path hs) else Inl OpenFailed))"

text \<open>
  The loop of \<open>WriteAt\<close>: the bytes written so far, the error if any, and the new disk and handles.
\<close>

primrec writeLoop :: "fileEntry list \<Rightarrow> bytes \<Rightarrow> int \<Rightarrow> nat \<Rightarrow> Disk \<Rightarrow> bytes set \<Rightarrow>
  nat \<times> serror option \<times> Disk \<times> bytes set"
where
  "writeLoop [] remaining off written d hs = (written, None, d, hs)"
| "writeLoop (fe # fes) remaining off written d hs =
     (if remaining = [] then (written, None, d, hs)
      else if off \<ge> wrap64 (fe_offset fe + fe_length fe)
      then writeLoop fes remaining off written d hs
      else
        (let fileOff = (if off - fe_offset fe < 0 then 0 else off - fe_offset fe);
             canWrite = min (nat (fe_length fe - fileOff)) (length remaining)
         in case getHandle (fe_path fe) True d hs of
              Inl e \<Rightarrow> (written, Some e, d, hs)
            | Inr (d1, hs1) \<Rightarrow>
                if d_werr d1 (fe_path fe) then (written, Some WriteFailed, d1, hs1)
                else
                  (let chunk = take canWrite remaining;
                       d2 = put_file (fe_path fe)
                              (file_write (content d1 (fe_path fe)) (nat fileOff) chunk) d1;
                       n = length chunk
                   in writeLoop fes (drop n remaining) (off + int n) (written + n) d2 hs1)))"

definition WriteAt :: "MultiFileWriter \<Rightarrow> Disk \<Rightarrow> bytes \<Rightarrow> int \<Rightarrow>
  nat \<times> serror option \<times> Disk \<times> MultiFileWriter"
where
  "WriteAt mw d data off =
     (if mw_closed mw then (0, Some SClosed, d, mw)
      else (case writeLoop (mw_files mw) data off 0 d (mw_handles mw) of
              (n, err, d', hs) \<Rightarrow> (n, err, d', mw\<lparr>mw_handles := hs\<rparr>)))"

text \<open>The loop of \<open>ReadAt\<close>: \<open>want\<close> bytes are still wanted, the bytes read so far are \<open>acc\<close>.\<close>

primrec readLoop :: "fileEntry list \<Rightarrow> nat \<Rightarrow> int \<Rightarrow> bytes \<Rightarrow> Disk \<Rightarrow> bytes set \<Rightarrow>
  bytes \<times> serror option \<times> bytes set"
where
  "readLoop [] want off acc d hs = (acc, None, hs)"
| "readLoop (fe # fes) want off acc d hs =
     (if want = 0 then (acc, None, hs)
      else if off \<ge> wrap64 (fe_offset fe + fe_length fe)
      then readLoop fes want off acc d hs
      else
        (let fileOff = (if off - fe_offset fe < 0 then 0 else off - fe_offset fe);
             canRead = min (nat (fe_length fe - fileOff)) want
         in case getHandle (fe_path fe) False d hs of
              Inl e \<Rightarrow> (acc, Some e, hs)
            | Inr (d1, hs1) \<Rightarrow>
                (let got = file_read (content d1 (fe_path fe)) (nat fileOff) canRead;
                     n = length got
                 in if n < canRead \<and> n = 0 then (acc, Some SEOF, hs1)
                    else readLoop fes (want - n) (off + int n) (acc @ got) d1 hs1)))"

definition ReadAt :: "MultiFileWriter \<Rightarrow> Disk \<Rightarrow> nat \<Rightarrow> int \<Rightarrow> bytes \<times> serror option \<times> MultiFileWriter" where
  "ReadAt mw d n off =
     (if mw_closed mw then ([], Some SClosed, mw)
      else (case readLoop (mw_files mw) n off [] d (mw_handles mw) of
              (b, err, hs) \<Rightarrow> (b, err, mw\<lparr>mw_handles := hs\<rparr>)))"

primrec preallocLoop :: "fileEntry list \<Rightarrow> Disk \<Rightarrow> bytes set \<Rightarrow> serror option \<times> Disk \<times> bytes set" where
  "preallocLoop [] d hs = (None, d, hs)"
| "preallocLoop (fe # fes) d hs =
     (case getHandle (fe_path fe) True d hs of
        Inl e \<Rightarrow> (Some e, d, hs)
      | Inr (d1, hs1) \<Rightarrow>
          if d_werr d1 (fe_path fe) then (Some WriteFailed, d1, hs1)
          else preallocLoop fes
                 (put_file (fe_path fe) (file_trunc (content d1 (fe_path fe)) (nat (fe_length fe))) d1) hs1)"

definition PreallocateFiles :: "MultiFileWriter \<Rightarrow> Disk \<Rightarrow> serror option \<times> Disk \<times> MultiFileWriter" where
  "PreallocateFiles mw d =
     (case preallocLoop (mw_files mw) d (mw_handles mw) of
        (err, d', hs) \<Rightarrow> (err, d', mw\<lparr>mw_handles := hs\<rparr>))"

definition Close :: "MultiFileWriter \<Rightarrow> MultiFileWriter" where
  "Close mw = mw\<lparr>mw_closed := True, mw_handles := {}\<rparr>"

definition TotalSize :: "TorrentFile \<Rightarrow> int" where
  "TotalSize tf =
     (if i_Length (tf_Info tf) > 0 then i_Length (tf_Info tf)
      else foldl (\<lambda>tot f. wrap64 (tot + f_Length f)) 0 (Files (tf_Info tf)))"

definition IsMultiFile :: "TorrentFile \<Rightarrow> bool" where
  "IsMultiFile tf = (length (Files (tf_Info tf)) > 0)"

section \<open>Checking the data on disk\<close>

text \<open>
  The loop of \<open>VerifyPieces\<close> over the piece hashes from index \<open>i\<close> on. The reader is the interface
  \<open>ReadAtReader\<close>: \<open>rd r n off\<close> reads \<open>n\<close> bytes at \<open>off\<close>. A piece that starts after the end of the data
  has a negative length, for which \<open>buf[:length]\<close> panics: the result None.
\<close>

primrec verifyLoop :: "('r \<Rightarrow> nat \<Rightarrow> int \<Rightarrow> bytes \<times> serror option \<times> 'r) \<Rightarrow> int \<Rightarrow> int \<Rightarrow> bytes list \<Rightarrow> nat \<Rightarrow>
  Bitfield \<Rightarrow> nat \<Rightarrow> 'r \<Rightarrow> (Bitfield \<times> nat) option"
where
  "verifyLoop rd tot pieceLen [] i bf verified r = Some (bf, verified)"
| "verifyLoop rd tot pieceLen (expectedHash # hs) i bf verified r =
     (let offset = wrap64 (int i * pieceLen);
          remaining = wrap64 (tot - wrap64 (int i * pieceLen));
          len = (if remaining < pieceLen then remaining else pieceLen)
      in if len < 0 then None
         else
           (case rd r (nat len) offset of
              (b, err, r') \<Rightarrow>
                if err = None \<and> length b = nat len \<and> sha1_Sum b = expectedHash
                then verifyLoop rd tot pieceLen hs (Suc i) (snd (SetPiece bf (int i))) (Suc verified) r'
                else verifyLoop rd tot pieceLen hs (Suc i) bf verified r'))"

text \<open>\<open>os.File.ReadAt\<close>: an error exactly when fewer bytes than wanted are there.\<close>

definition fileReadAt :: "bytes \<Rightarrow> nat \<Rightarrow> int \<Rightarrow> bytes \<times> serror option \<times> bytes" where
  "fileReadAt b n off =
     (if off < 0 then ([], Some SEOF, b)
      else let got = file_read b (nat off) n
           in (got, if length got < n then Some SEOF else None, b))"

definition VerifyPieces :: "Disk \<Rightarrow> bytes \<Rightarrow> TorrentFile \<Rightarrow> (Bitfield \<times> nat) option" where
  "VerifyPieces d path tf =
     (let hs = PieceHashes (tf_Info tf);
          tot = TotalSize tf;
          pieceLen = PieceLength (tf_Info tf);
          bf = replicate ((length hs + 7) div 8) 0
      in if IsMultiFile tf
         then (case NewMultiFileWriter d path tf of
                 Inl e \<Rightarrow> Some (bf, 0)
               | Inr mw \<Rightarrow> verifyLoop (\<lambda>mw n off. ReadAt mw d n off) tot pieceLen hs 0 bf 0 mw)
         else if d_denied d path then Some (bf, 0)
         else (case d_files d path of
                 None \<Rightarrow> Some (bf, 0)
               | Some b \<Rightarrow> verifyLoop fileReadAt tot pieceLen hs 0 bf 0 b))"

end
