(* ===== verification/Storage_Stream.thy ===== *)
theory Storage_Stream
  imports Storage
begin

text \<open>
  The files of a torrent as one stream of bytes: what \<open>WriteAt\<close>, \<open>ReadAt\<close>, \<open>PreallocateFiles\<close> and
  \<open>VerifyPieces\<close> do to it, where \<open>NewMultiFileWriter\<close> puts the files, and that pieces written in any
  order assemble the torrent.
\<close>

section \<open>The files as one stream\<close>

definition overlay :: "'a list \<Rightarrow> nat \<Rightarrow> 'a list \<Rightarrow> 'a list" where
  "overlay s k data = take k s @ data @ drop (k + length data) s"

lemma overlay_Nil [simp]: "overlay s k [] = s"
  by (simp add: overlay_def)

lemma length_overlay [simp]: "k + length data \<le> length s \<Longrightarrow> length (overlay s k data) = length s"
  by (simp add: overlay_def)

lemma nth_overlay:
  "k + length data \<le> length s \<Longrightarrow> i < length s \<Longrightarrow>
     overlay s k data ! i = (if k \<le> i \<and> i < k + length data then data ! (i - k) else s ! i)"
  by (auto simp: overlay_def nth_append min_def)

lemma overlay_append_left: "k + length data \<le> length s \<Longrightarrow> overlay (s @ t) k data = overlay s k data @ t"
  by (simp add: overlay_def)

lemma overlay_append_right:
  "length s \<le> k \<Longrightarrow> overlay (s @ t) k data = s @ overlay t (k - length s) data"
  by (simp add: overlay_def)

lemma overlay_across:
  assumes "k + n = length s" "n \<le> length data"
  shows "overlay (s @ t) k data = overlay s k (take n data) @ overlay t 0 (drop n data)"
proof -
  have "k + length data - length s = length data - n" using assms by simp
  moreover have "take n data @ drop n data @ u = data @ u" for u
    by (metis append.assoc append_take_drop_id)
  ultimately show ?thesis using assms by (simp add: overlay_def)
qed

definition seg :: "Disk \<Rightarrow> fileEntry \<Rightarrow> bytes" where
  "seg d fe = file_trunc (content d (fe_path fe)) (nat (fe_length fe))"

definition stream :: "Disk \<Rightarrow> fileEntry list \<Rightarrow> bytes" where
  "stream d fes = concat (map (seg d) fes)"

fun layout :: "int \<Rightarrow> fileEntry list \<Rightarrow> bool" where
  "layout off [] \<longleftrightarrow> off \<le> max_int64"
| "layout off (fe # fes) \<longleftrightarrow>
     0 \<le> off \<and> fe_offset fe = off \<and> 0 \<le> fe_length fe \<and> layout (off + fe_length fe) fes"

definition writable :: "Disk \<Rightarrow> bytes set \<Rightarrow> fileEntry list \<Rightarrow> bool" where
  "writable d hs fes \<longleftrightarrow> distinct (map fe_path fes) \<and>
     (\<forall>fe\<in>set fes. (fe_path fe \<in> hs \<or> \<not> d_denied d (fe_path fe)) \<and> \<not> d_werr d (fe_path fe))"

lemma length_seg [simp]: "length (seg d fe) = nat (fe_length fe)"
  by (simp add: seg_def file_trunc_def pad_to_def)

lemma length_stream: "layout off fes \<Longrightarrow> int (length (stream d fes)) = sum_list (map fe_length fes)"
  by (induction off fes rule: layout.induct) (auto simp: stream_def)

lemma layout_total: "layout off fes \<Longrightarrow> off + sum_list (map fe_length fes) \<le> max_int64"
  by (induction off fes rule: layout.induct) auto

lemma layout_nonneg: "layout off fes \<Longrightarrow> 0 \<le> sum_list (map fe_length fes)"
  by (induction off fes rule: layout.induct) auto

lemma layout_wrap:
  "layout off (fe # fes) \<Longrightarrow> wrap64 (fe_offset fe + fe_length fe) = off + fe_length fe"
  using layout_total [of off "fe # fes"] layout_nonneg [of "off + fe_length fe" fes]
  by (intro wrap64_id [THEN trans]) (auto simp: in_int64_def min_int64_def)

lemma content_put [simp]: "content (put_file p b d) q = (if q = p then b else content d q)"
  by (simp add: content_def put_file_def)

lemma denied_put [simp]: "d_denied (put_file p b d) = d_denied d" "d_werr (put_file p b d) = d_werr d"
  by (simp_all add: put_file_def)

lemma seg_other [simp]: "fe_path fe \<noteq> p \<Longrightarrow> seg (put_file p b d) fe = seg d fe"
  by (simp add: seg_def)

lemma stream_other: "p \<notin> fe_path ` set fes \<Longrightarrow> stream (put_file p b d) fes = stream d fes"
  unfolding stream_def by (intro arg_cong [of _ _ concat] map_cong refl seg_other) auto

lemma getHandle_create:
  assumes "p \<in> hs \<or> \<not> d_denied d p"
  obtains d' where "getHandle p True d hs = Inr (d', insert p hs)" "\<And>q. content d' q = content d q"
    "d_denied d' = d_denied d" "d_werr d' = d_werr d"
proof (cases "p \<in> hs \<or> d_files d p \<noteq> None")
  case True
  then have "getHandle p True d hs = Inr (d, insert p hs)"
    using assms by (auto simp: getHandle_def insert_absorb)
  then show ?thesis using that by simp
next
  case False
  then have "getHandle p True d hs = Inr (put_file p [] d, insert p hs)"
    using assms by (simp add: getHandle_def)
  moreover have "content (put_file p [] d) q = content d q" for q
    using False by (simp add: content_def put_file_def)
  ultimately show ?thesis using that [of "put_file p [] d"] by simp
qed

lemma stream_cong: "(\<And>q. content d' q = content d q) \<Longrightarrow> stream d' fes = stream d fes"
  by (simp add: stream_def seg_def [abs_def])

lemma trunc_write:
  assumes "k + length c \<le> n"
  shows "file_trunc (file_write b k c) n = overlay (file_trunc b n) k c"
proof (rule nth_equalityI)
  show "length (file_trunc (file_write b k c) n) = length (overlay (file_trunc b n) k c)"
    using assms by (simp add: file_trunc_def pad_to_def)
  fix i assume "i < length (file_trunc (file_write b k c) n)"
  then have i: "i < n" by (simp add: file_trunc_def pad_to_def)
  show "file_trunc (file_write b k c) n ! i = overlay (file_trunc b n) k c ! i"
    using assms i
    by (auto simp: nth_overlay file_trunc_def pad_to_def file_write_def nth_append min_def)
qed

section \<open>Reading\<close>

definition readable :: "Disk \<Rightarrow> bytes set \<Rightarrow> fileEntry list \<Rightarrow> bool" where
  "readable d hs fes \<longleftrightarrow>
     (\<forall>fe\<in>set fes. (fe_path fe \<in> hs \<or> \<not> d_denied d (fe_path fe)) \<and>
        (\<exists>b. d_files d (fe_path fe) = Some b \<and> nat (fe_length fe) \<le> length b))"

lemma getHandle_open:
  assumes "p \<in> hs \<or> \<not> d_denied d p" "d_files d p = Some b"
  shows "getHandle p create d hs = Inr (d, insert p hs)"
  using assms by (auto simp: getHandle_def insert_absorb)

lemma readLoop_step:
  assumes lay: "layout o1 (fe # fes)" and off: "o1 \<le> off" "off < o1 + fe_length fe" and "0 < want"
    and rd: "readable d hs (fe # fes)"
  defines "n \<equiv> min (nat (fe_length fe - (off - o1))) want"
  shows "readLoop (fe # fes) want off acc d hs =
      readLoop fes (want - n) (off + int n) (acc @ take n (drop (nat (off - o1)) (seg d fe))) d
        (insert (fe_path fe) hs)"
proof -
  let ?p = "fe_path fe" and ?k = "nat (off - o1)"
  obtain b where b: "?p \<in> hs \<or> \<not> d_denied d ?p" "d_files d ?p = Some b" "nat (fe_length fe) \<le> length b"
    using rd by (auto simp: readable_def)
  have c: "content d ?p = b" by (simp add: content_def b(2))
  have seg: "seg d fe = take (nat (fe_length fe)) b"
    using b(3) by (simp add: seg_def file_trunc_def pad_to_def c)
  have n: "0 < n" "?k + n \<le> nat (fe_length fe)"
    using off \<open>0 < want\<close> by (auto simp: n_def min_def)
  have g: "file_read b ?k n = take n (drop ?k (seg d fe))"
  proof -
    have "n \<le> nat (fe_length fe) - ?k" using n(2) by linarith
    then show ?thesis by (simp add: file_read_def seg drop_take min_absorb1)
  qed
  have len: "length (file_read b ?k n) = n" using n b(3) by (simp add: file_read_def)
  then have ne: "file_read b ?k n \<noteq> []" using n(1) by auto
  have "\<not> wrap64 (fe_offset fe + fe_length fe) \<le> off" "\<not> off - fe_offset fe < 0" "fe_offset fe = o1" "want \<noteq> 0"
    using off \<open>0 < want\<close> lay layout_wrap [OF lay] by auto
  then show ?thesis
    using getHandle_open [OF b(1,2), of False] len ne
    by (simp add: Let_def c n_def [symmetric] g [symmetric])
qed

lemma readLoop_stream:
  assumes "layout o1 fes" "o1 \<le> off" "off + int want \<le> o1 + sum_list (map fe_length fes)"
    and "readable d hs fes"
  shows "\<exists>hs'. readLoop fes want off acc d hs =
    (acc @ take want (drop (nat (off - o1)) (stream d fes)), None, hs') \<and> hs \<subseteq> hs'"
  using assms
proof (induction fes arbitrary: o1 off want acc hs)
  case Nil
  have "off + int want \<le> o1" using Nil.prems(3) by simp
  with Nil.prems(2) have "int want \<le> 0" by linarith
  then show ?case by simp
next
  case (Cons fe fes)
  let ?L = "fe_length fe" and ?k = "off - o1"
  have lay: "fe_offset fe = o1" "0 \<le> ?L" "layout (o1 + ?L) fes" "0 \<le> o1"
    using Cons.prems(1) by auto
  have st: "stream d (fe # fes) = seg d fe @ stream d fes" by (simp add: stream_def)
  have rd: "readable d hs' fes" if "hs \<subseteq> hs'" for hs'
    using Cons.prems(4) that by (auto simp: readable_def)
  consider (none) "want = 0" | (past) "0 < want" "o1 + ?L \<le> off" | (here) "0 < want" "off < o1 + ?L"
    by linarith
  then show ?case
  proof cases
    case none
    then show ?thesis by auto
  next
    case past
    have "nat ?k - nat ?L = nat (off - (o1 + ?L))" "nat ?L \<le> nat ?k"
      using past(2) lay(2) by (simp_all add: nat_diff_distrib [symmetric] algebra_simps)
    moreover have "readLoop (fe # fes) want off acc d hs = readLoop fes want off acc d hs"
      using past layout_wrap [OF Cons.prems(1)] by simp
    ultimately show ?thesis
      using Cons.IH [OF lay(3) past(2) _ rd [OF order_refl], of want acc] Cons.prems(3)
      by (simp add: st)
  next
    case here
    define n where "n = min (nat (?L - ?k)) want"
    have n: "n \<le> want" "nat ?k + n \<le> nat ?L" "want - n > 0 \<Longrightarrow> off + int n = o1 + ?L"
      using here Cons.prems(2) by (auto simp: n_def min_def split: if_splits)
    let ?got = "take n (drop (nat ?k) (seg d fe))"
    have step: "readLoop (fe # fes) want off acc d hs =
        readLoop fes (want - n) (off + int n) (acc @ ?got) d (insert (fe_path fe) hs)"
      using readLoop_step [OF Cons.prems(1,2) here(2,1) Cons.prems(4)] by (simp add: n_def)
    show ?thesis
    proof (cases "want - n = 0")
      case True
      then have "take want (drop (nat ?k) (stream d (fe # fes))) = ?got"
        using n by (simp add: st)
      moreover have "readLoop fes 0 x a d h = (a, None, h)" for x a h by (cases fes) auto
      ultimately show ?thesis unfolding step using True by auto
    next
      case False
      then have e: "off + int n = o1 + ?L" "nat ?k + n = nat ?L" using n(3) Cons.prems(2) by simp_all
      have "take want (drop (nat ?k) (stream d (fe # fes))) = ?got @ take (want - n) (stream d fes)"
      proof -
        have "want + nat ?k - nat ?L = want - n" using e(2) by linarith
        then show ?thesis using e(2) n(1) by (simp add: st)
      qed
      moreover have "\<exists>hs'. readLoop fes (want - n) (o1 + ?L) (acc @ ?got) d (insert (fe_path fe) hs) =
          ((acc @ ?got) @ take (want - n) (stream d fes), None, hs') \<and> insert (fe_path fe) hs \<subseteq> hs'"
        using Cons.IH [OF lay(3) order_refl _ rd [of "insert (fe_path fe) hs"], of "want - n" "acc @ ?got"]
          Cons.prems(3) e(1) n(1) by (simp add: subset_insertI)
      ultimately show ?thesis unfolding step e(1) by auto
    qed
  qed
qed

section \<open>Writing\<close>

lemma overlay_two:
  assumes "k + length (take n data) \<le> length s" "n = min (length s - k) (length data)" "k \<le> length s"
  shows "overlay (s @ t) k data = overlay s k (take n data) @ overlay t 0 (drop n data)"
proof (cases "length data \<le> length s - k")
  case True
  then show ?thesis using assms by (simp add: overlay_append_left)
next
  case False
  then have "k + n = length s" "n \<le> length data" using assms by simp_all
  then show ?thesis by (rule overlay_across)
qed


text \<open>No file is lost or gets shorter.\<close>

definition grows :: "Disk \<Rightarrow> Disk \<Rightarrow> bool" where
  "grows d d' \<longleftrightarrow> d_denied d' = d_denied d \<and> d_werr d' = d_werr d \<and>
     (\<forall>q b. d_files d q = Some b \<longrightarrow> (\<exists>b'. d_files d' q = Some b' \<and> length b \<le> length b'))"

lemma grows_refl [simp]: "grows d d"
  by (simp add: grows_def)

lemma grows_trans: "grows d e \<Longrightarrow> grows e f \<Longrightarrow> grows d f"
  unfolding grows_def by (elim conjE, intro conjI) (simp, simp, fastforce dest: order_trans)

lemma length_file_write: "length b \<le> length (file_write b k c)"
  by (auto simp: file_write_def pad_to_def)

lemma grows_write: "grows d (put_file p (file_write (content d p) k c) d)"
  by (auto simp: grows_def put_file_def content_def length_file_write)

lemma grows_getHandle: "getHandle p create d hs = Inr (d', hs') \<Longrightarrow> grows d d'"
  by (auto simp: getHandle_def grows_def put_file_def split: if_splits option.splits)

text \<open>No file gets longer than its entry says, unless it was before.\<close>

definition bounded :: "Disk \<Rightarrow> Disk \<Rightarrow> fileEntry list \<Rightarrow> bool" where
  "bounded d d' fes \<longleftrightarrow> (\<forall>fe\<in>set fes. length (content d' (fe_path fe)) \<le>
     max (length (content d (fe_path fe))) (nat (fe_length fe)))"

lemma bounded_refl [simp]: "bounded d d fes"
  by (simp add: bounded_def)

lemma length_file_write_le: "length (file_write b k c) \<le> max (length b) (k + length c)"
  by (simp add: file_write_def pad_to_def) linarith

text \<open>One file of the write loop.\<close>

lemma writeLoop_step:
  assumes lay: "layout o1 (fe # fes)" and off: "o1 \<le> off" "off < o1 + fe_length fe" and "data \<noteq> []"
    and wr: "writable d hs (fe # fes)"
  defines "n \<equiv> min (nat (fe_length fe - (off - o1))) (length data)"
  obtains d2 where "writeLoop (fe # fes) data off w d hs =
      writeLoop fes (drop n data) (off + int n) (w + n) d2 (insert (fe_path fe) hs)"
    "seg d2 fe = overlay (seg d fe) (nat (off - o1)) (take n data)" "stream d2 fes = stream d fes"
    "\<And>q. q \<noteq> fe_path fe \<Longrightarrow> content d2 q = content d q" "grows d d2" "bounded d d2 [fe]"
proof -
  let ?p = "fe_path fe" and ?L = "fe_length fe" and ?k = "off - o1"
  have w: "?p \<in> hs \<or> \<not> d_denied d ?p" "\<not> d_werr d ?p" "?p \<notin> fe_path ` set fes"
    using wr by (auto simp: writable_def)
  obtain d1 where h: "getHandle ?p True d hs = Inr (d1, insert ?p hs)"
    "\<And>q. content d1 q = content d q" "d_denied d1 = d_denied d" "d_werr d1 = d_werr d"
    using getHandle_create [OF w(1)] by metis
  define d2 where "d2 = put_file ?p (file_write (content d1 ?p) (nat ?k) (take n data)) d1"
  have n: "length (take n data) = n" "nat ?k + length (take n data) \<le> nat ?L"
    using off by (auto simp: n_def min_def)
  have "\<not> wrap64 (fe_offset fe + ?L) \<le> off" "\<not> off - fe_offset fe < 0" "fe_offset fe = o1"
    unfolding layout_wrap [OF lay] using off lay by simp_all
  then have "writeLoop (fe # fes) data off w d hs =
      writeLoop fes (drop n data) (off + int n) (w + n) d2 (insert ?p hs)"
    using \<open>data \<noteq> []\<close> w(2) n(1)
    by (simp only: writeLoop.simps if_False Let_def h(1,4) sum.case prod.case d2_def n_def [symmetric])
  moreover have "seg d2 fe = overlay (seg d fe) (nat ?k) (take n data)"
    using n(2) by (simp only: seg_def d2_def content_put if_True h(2) trunc_write refl)
  moreover have "stream d2 fes = stream d fes"
    using stream_other [OF w(3)] stream_cong [OF h(2)] by (metis d2_def)
  moreover have "content d2 q = content d q" if "q \<noteq> ?p" for q using that h(2) by (simp add: d2_def)
  moreover have "grows d d2"
    using grows_trans [OF grows_getHandle [OF h(1)] grows_write] by (simp add: d2_def)
  moreover have "bounded d d2 [fe]"
    using order_trans [OF length_file_write_le [of "content d ?p" "nat ?k" "take n data"] max.mono [OF order_refl n(2)]]
    by (simp add: bounded_def d2_def h(2))
  ultimately show ?thesis using that by blast
qed

lemma writable_mono:
  "writable d hs (fe # fes) \<Longrightarrow> grows d d2 \<Longrightarrow> hs \<subseteq> hs' \<Longrightarrow> writable d2 hs' fes"
  by (auto simp: writable_def grows_def)

lemma writeLoop_stream:
  assumes "layout o1 fes" "o1 \<le> off" "off + int (length data) \<le> o1 + sum_list (map fe_length fes)"
    and "writable d hs fes"
  shows "\<exists>d' hs'. writeLoop fes data off w d hs = (w + length data, None, d', hs') \<and>
    stream d' fes = overlay (stream d fes) (nat (off - o1)) data \<and>
    (\<forall>q. q \<notin> fe_path ` set fes \<longrightarrow> content d' q = content d q) \<and> grows d d' \<and> hs \<subseteq> hs' \<and> bounded d d' fes"
  using assms
proof (induction fes arbitrary: o1 data off w d hs)
  case Nil
  have "off + int (length data) \<le> o1" using Nil.prems(3) by simp
  with Nil.prems(2) have "int (length data) \<le> 0" by linarith
  then show ?case by simp
next
  case (Cons fe fes)
  let ?L = "fe_length fe" and ?k = "off - o1"
  have lay: "0 \<le> ?L" "layout (o1 + ?L) fes" using Cons.prems(1) by auto
  have p: "fe_path fe \<notin> fe_path ` set fes" using Cons.prems(4) by (auto simp: writable_def)
  have st: "stream e (fe # fes) = seg e fe @ stream e fes" for e by (simp add: stream_def)
  consider (none) "data = []" | (past) "data \<noteq> []" "o1 + ?L \<le> off" | (here) "data \<noteq> []" "off < o1 + ?L"
    by linarith
  then show ?case
  proof cases
    case none
    then show ?thesis by auto
  next
    case past
    obtain d' hs' where IH: "writeLoop fes data off w d hs = (w + length data, None, d', hs')"
      "stream d' fes = overlay (stream d fes) (nat (off - (o1 + ?L))) data"
      "\<forall>q. q \<notin> fe_path ` set fes \<longrightarrow> content d' q = content d q" "grows d d'" "hs \<subseteq> hs'" "bounded d d' fes"
      using Cons.IH [OF lay(2), of off data d hs w] past Cons.prems(3)
        writable_mono [OF Cons.prems(4) grows_refl order_refl] by auto
    have "seg d' fe = seg d fe" using IH(3) p by (simp add: seg_def)
    moreover have "nat ?L \<le> nat ?k" "nat ?k - nat ?L = nat (off - (o1 + ?L))"
      using past(2) lay(1) by (simp_all add: nat_diff_distrib [symmetric] algebra_simps)
    ultimately have "stream d' (fe # fes) = overlay (stream d (fe # fes)) (nat ?k) data"
      by (simp add: st IH(2) overlay_append_right)
    moreover have "writeLoop (fe # fes) data off w d hs = (w + length data, None, d', hs')"
      using past IH(1) layout_wrap [OF Cons.prems(1)] by simp
    moreover have "bounded d d' (fe # fes)" using IH(3,6) p by (simp add: bounded_def)
    ultimately show ?thesis using IH(3-5) by auto
  next
    case here
    define n where "n = min (nat (?L - ?k)) (length data)"
    obtain d2 where step: "writeLoop (fe # fes) data off w d hs =
        writeLoop fes (drop n data) (off + int n) (w + n) d2 (insert (fe_path fe) hs)"
      "seg d2 fe = overlay (seg d fe) (nat ?k) (take n data)" "stream d2 fes = stream d fes"
      "\<And>q. q \<noteq> fe_path fe \<Longrightarrow> content d2 q = content d q" "grows d d2" "bounded d d2 [fe]"
      using writeLoop_step [OF Cons.prems(1,2) here(2,1) Cons.prems(4)] unfolding n_def by metis
    have n: "n \<le> length data" "nat ?k + n \<le> nat ?L" "drop n data \<noteq> [] \<Longrightarrow> off + int n = o1 + ?L"
      using here Cons.prems(2) by (auto simp: n_def min_def split: if_splits)
    have wr2: "writable d2 (insert (fe_path fe) hs) fes"
      by (rule writable_mono [OF Cons.prems(4) step(5)]) auto
    have "\<exists>d' hs'. writeLoop fes (drop n data) (off + int n) (w + n) d2 (insert (fe_path fe) hs)
          = (w + length data, None, d', hs') \<and> stream d' fes = overlay (stream d2 fes) 0 (drop n data) \<and>
        (\<forall>q. q \<notin> fe_path ` set fes \<longrightarrow> content d' q = content d2 q) \<and> grows d2 d' \<and>
        insert (fe_path fe) hs \<subseteq> hs' \<and> bounded d2 d' fes"
    proof (cases "drop n data = []")
      case True
      then have "length data = n" using n(1) by simp
      with True show ?thesis by (cases fes) auto
    next
      case False
      have "o1 + ?L + int (length (drop n data)) \<le> o1 + ?L + sum_list (map fe_length fes)"
        using Cons.prems(3) n(1,3) False by simp
      then show ?thesis
        using Cons.IH [OF lay(2) order_refl _ wr2, of "drop n data" "w + n"] n(1) unfolding n(3) [OF False]
        by simp
    qed
    then obtain d' hs' where IH: "writeLoop (fe # fes) data off w d hs = (w + length data, None, d', hs')"
      "stream d' fes = overlay (stream d fes) 0 (drop n data)"
      "\<forall>q. q \<notin> fe_path ` set fes \<longrightarrow> content d' q = content d2 q" "grows d2 d'"
      "insert (fe_path fe) hs \<subseteq> hs'" "bounded d2 d' fes"
      unfolding step(1,3) by blast
    have "overlay (seg d fe @ stream d fes) (nat ?k) data =
        overlay (seg d fe) (nat ?k) (take n data) @ overlay (stream d fes) 0 (drop n data)"
      by (rule overlay_two) (use n Cons.prems(2) here(2) in \<open>auto simp: n_def nat_diff_distrib\<close>)
    moreover have "seg d' fe = seg d2 fe" using IH(3) p by (simp add: seg_def)
    ultimately have "stream d' (fe # fes) = overlay (stream d (fe # fes)) (nat ?k) data"
      by (simp add: st IH(2) step(2))
    moreover have "\<forall>q. q \<notin> fe_path ` set (fe # fes) \<longrightarrow> content d' q = content d q"
      using IH(3) step(4) by simp
    moreover have "hs \<subseteq> hs'" using IH(5) by blast
    moreover have "bounded d d' (fe # fes)"
    proof -
      have "content d2 (fe_path e) = content d (fe_path e)" if "e \<in> set fes" for e
        using that p step(4) by (metis imageI)
      then show ?thesis using IH(3,6) step(6) p by (simp add: bounded_def)
    qed
    ultimately show ?thesis using IH(1) grows_trans [OF step(5) IH(4)] by blast
  qed
qed

section \<open>Laying the files out\<close>

lemma buildEntries_layout:
  assumes "buildEntries d baseDir cb off fs = Inr (es, tot)" "0 \<le> off" "\<forall>f\<in>set fs. 0 \<le> f_Length f"
    and "off + sum_list (map f_Length fs) \<le> max_int64"
  shows "layout off es \<and> map fe_length es = map f_Length fs \<and>
    map fe_path es = map (\<lambda>f. Clean (Join [baseDir, Join (f_Path f)])) fs \<and>
    tot = off + sum_list (map f_Length fs) \<and> (\<forall>fe\<in>set es. HasPrefix (fe_path fe) cb)"
  using assms
proof (induction fs arbitrary: off es)
  case Nil
  then show ?case by simp
next
  case (Cons f fs)
  have "0 \<le> sum_list (map f_Length fs)" using Cons.prems(3) by (intro sum_list_nonneg) auto
  then have "wrap64 (off + f_Length f) = off + f_Length f"
    using Cons.prems by (intro wrap64_id) (auto simp: in_int64_def min_int64_def)
  moreover obtain es' where
    "buildEntries d baseDir cb (wrap64 (off + f_Length f)) fs = Inr (es', tot)"
    "es = \<lparr>fe_path = Clean (Join [baseDir, Join (f_Path f)]), fe_offset = off, fe_length = f_Length f\<rparr> # es'"
    "HasPrefix (Clean (Join [baseDir, Join (f_Path f)])) cb"
    using Cons.prems(1) by (auto simp: Let_def split: if_splits sum.splits)
  ultimately show ?case using Cons.IH [of "off + f_Length f" es'] Cons.prems(2-4) by simp
qed

lemma NewMultiFileWriter_layout:
  assumes "NewMultiFileWriter d baseDir tf = Inr mw" "\<forall>f\<in>set (Files (tf_Info tf)). 0 \<le> f_Length f"
    and "sum_list (map f_Length (Files (tf_Info tf))) \<le> max_int64"
  shows "layout 0 (mw_files mw)" "map fe_length (mw_files mw) = map f_Length (Files (tf_Info tf))"
    "map fe_path (mw_files mw) = map (\<lambda>f. Clean (Join [baseDir, Join (f_Path f)])) (Files (tf_Info tf))"
    "mw_total mw = sum_list (map f_Length (Files (tf_Info tf)))"
    "\<forall>fe\<in>set (mw_files mw). HasPrefix (fe_path fe) (Clean baseDir @ [slash])"
    "\<not> mw_closed mw" "mw_handles mw = {}"
proof -
  obtain es tot where b: "buildEntries d baseDir (Clean baseDir @ [slash]) 0 (Files (tf_Info tf)) = Inr (es, tot)"
    "mw = \<lparr>mw_baseDir = baseDir, mw_files = es, mw_total = tot, mw_handles = {}, mw_closed = False\<rparr>"
    using assms(1) by (auto simp: NewMultiFileWriter_def split: if_splits sum.splits)
  note f = buildEntries_layout [OF b(1) order_refl assms(2)] assms(3)
  show "layout 0 (mw_files mw)" "map fe_length (mw_files mw) = map f_Length (Files (tf_Info tf))"
    "map fe_path (mw_files mw) = map (\<lambda>f. Clean (Join [baseDir, Join (f_Path f)])) (Files (tf_Info tf))"
    "mw_total mw = sum_list (map f_Length (Files (tf_Info tf)))"
    "\<forall>fe\<in>set (mw_files mw). HasPrefix (fe_path fe) (Clean baseDir @ [slash])"
    "\<not> mw_closed mw" "mw_handles mw = {}"
    using f by (simp_all add: b(2))
qed

lemma foldl_total:
  "0 \<le> z \<Longrightarrow> \<forall>f\<in>set fs. 0 \<le> f_Length f \<Longrightarrow> z + sum_list (map f_Length fs) \<le> max_int64 \<Longrightarrow>
     foldl (\<lambda>tot f. wrap64 (tot + f_Length f)) z fs = z + sum_list (map f_Length fs)"
proof (induction fs arbitrary: z)
  case (Cons f fs)
  have "0 \<le> sum_list (map f_Length fs)" using Cons.prems(2) by (intro sum_list_nonneg) auto
  then have "wrap64 (z + f_Length f) = z + f_Length f"
    using Cons.prems by (intro wrap64_id) (auto simp: in_int64_def min_int64_def)
  then show ?case using Cons.IH [of "z + f_Length f"] Cons.prems by simp
qed simp

section \<open>Preallocation\<close>

lemma preallocLoop_ready:
  assumes "writable d hs fes"
  shows "\<exists>d' hs'. preallocLoop fes d hs = (None, d', hs') \<and> hs \<union> fe_path ` set fes \<subseteq> hs' \<and>
    d_denied d' = d_denied d \<and> d_werr d' = d_werr d \<and>
    (\<forall>fe\<in>set fes. d_files d' (fe_path fe) = Some (seg d fe)) \<and>
    (\<forall>q. q \<notin> fe_path ` set fes \<longrightarrow> d_files d' q = d_files d q)"
  using assms
proof (induction fes arbitrary: d hs)
  case Nil
  then show ?case by simp
next
  case (Cons fe fes)
  let ?p = "fe_path fe"
  have w: "?p \<in> hs \<or> \<not> d_denied d ?p" "\<not> d_werr d ?p" "?p \<notin> fe_path ` set fes"
    using Cons.prems by (auto simp: writable_def)
  obtain d1 where h: "getHandle ?p True d hs = Inr (d1, insert ?p hs)"
    "\<And>q. content d1 q = content d q" "d_denied d1 = d_denied d" "d_werr d1 = d_werr d"
    using getHandle_create [OF w(1)] by metis
  have o: "d_files d1 q = d_files d q" if "q \<noteq> ?p" for q
    using h(1) that by (auto simp: getHandle_def put_file_def split: if_splits option.splits)
  define d2 where "d2 = put_file ?p (seg d fe) d1"
  have d2: "d_denied d2 = d_denied d" "d_werr d2 = d_werr d" "d_files d2 ?p = Some (seg d fe)"
    "\<And>q. q \<noteq> ?p \<Longrightarrow> d_files d2 q = d_files d q"
    using h(3,4) o by (simp_all add: d2_def put_file_def)
  have seg: "seg d2 e = seg d e" if "e \<in> set fes" for e
  proof -
    have "fe_path e \<noteq> ?p" using that w(3) by (metis imageI)
    then show ?thesis by (simp add: seg_def content_def d2(4))
  qed
  have step: "preallocLoop (fe # fes) d hs = preallocLoop fes d2 (insert ?p hs)"
    using h(1,2,4) w(2) by (simp add: d2_def seg_def)
  have "writable d2 (insert ?p hs) fes"
    using Cons.prems by (auto simp: writable_def d2(1,2))
  from Cons.IH [OF this] obtain d' hs' where r:
    "preallocLoop fes d2 (insert ?p hs) = (None, d', hs')" "insert ?p hs \<union> fe_path ` set fes \<subseteq> hs'"
    "d_denied d' = d_denied d2" "d_werr d' = d_werr d2"
    "\<forall>fe\<in>set fes. d_files d' (fe_path fe) = Some (seg d2 fe)"
    "\<forall>q. q \<notin> fe_path ` set fes \<longrightarrow> d_files d' q = d_files d2 q"
    by blast
  have "d_files d' ?p = Some (seg d fe)" using r(6) w(3) d2(3) by metis
  moreover have "\<forall>e\<in>set fes. d_files d' (fe_path e) = Some (seg d e)" using r(5) seg by simp
  moreover have "\<forall>q. q \<notin> fe_path ` set (fe # fes) \<longrightarrow> d_files d' q = d_files d q" using r(6) d2(4) by simp
  ultimately show ?case using r(1-4) d2(1,2) unfolding step by simp
qed

definition mw_ready :: "MultiFileWriter \<times> Disk \<Rightarrow> bool" where
  "mw_ready s \<longleftrightarrow> (case s of (mw, d) \<Rightarrow> \<not> mw_closed mw \<and> layout 0 (mw_files mw) \<and>
     writable d (mw_handles mw) (mw_files mw) \<and> readable d (mw_handles mw) (mw_files mw) \<and>
     (\<forall>fe\<in>set (mw_files mw). length (content d (fe_path fe)) \<le> nat (fe_length fe)))"

definition mw_view :: "MultiFileWriter \<times> Disk \<Rightarrow> bytes" where
  "mw_view s = (case s of (mw, d) \<Rightarrow> stream d (mw_files mw))"

definition mw_write :: "MultiFileWriter \<times> Disk \<Rightarrow> nat \<Rightarrow> bytes \<Rightarrow> MultiFileWriter \<times> Disk" where
  "mw_write s k data = (case s of (mw, d) \<Rightarrow> case WriteAt mw d data (int k) of (n, e, d', mw') \<Rightarrow> (mw', d'))"

lemma PreallocateFiles_ready:
  assumes "\<not> mw_closed mw" "layout 0 (mw_files mw)" "writable d (mw_handles mw) (mw_files mw)"
  shows "\<exists>d' mw'. PreallocateFiles mw d = (None, d', mw') \<and> mw_ready (mw', d') \<and>
    mw_files mw' = mw_files mw \<and> mw_view (mw', d') = mw_view (mw, d)"
proof -
  obtain d' hs' where p: "preallocLoop (mw_files mw) d (mw_handles mw) = (None, d', hs')"
    "mw_handles mw \<union> fe_path ` set (mw_files mw) \<subseteq> hs'" "d_denied d' = d_denied d" "d_werr d' = d_werr d"
    "\<forall>fe\<in>set (mw_files mw). d_files d' (fe_path fe) = Some (seg d fe)"
    using preallocLoop_ready [OF assms(3)] by metis
  have "seg d' fe = seg d fe" if "fe \<in> set (mw_files mw)" for fe
    using that p(5) by (simp add: seg_def content_def file_trunc_def pad_to_def)
  then have "stream d' (mw_files mw) = stream d (mw_files mw)"
    unfolding stream_def by (metis (no_types, lifting) map_eq_conv)
  moreover have "writable d' hs' (mw_files mw)" using assms(3) p(2,4) by (auto simp: writable_def)
  moreover have "readable d' hs' (mw_files mw)" using p(2,5) by (auto simp: readable_def)
  moreover have "\<forall>fe\<in>set (mw_files mw). length (content d' (fe_path fe)) \<le> nat (fe_length fe)"
    using p(5) by (simp add: content_def)
  ultimately show ?thesis using p(1) assms(1,2) by (simp add: PreallocateFiles_def mw_ready_def mw_view_def)
qed

end
