(* ===== verification/Storage_Access.thy ===== *)
theory Storage_Access
  imports Storage_Stream
begin

text \<open>
  What the download relies on of its storage, as a contract for random access met by the multi-file
  writer and by a single file; what \<open>VerifyPieces\<close> finds; and where the files of a torrent lie.
\<close>

section \<open>Random access\<close>

text \<open>
  What the download needs of its storage: within the size, a write overlays the view and a read
  returns a part of it.
\<close>

locale random_access =
  fixes inv :: "'s \<Rightarrow> bool"
    and view :: "'s \<Rightarrow> bytes"
    and wr :: "'s \<Rightarrow> nat \<Rightarrow> bytes \<Rightarrow> 's"
    and rd :: "'s \<Rightarrow> nat \<Rightarrow> nat \<Rightarrow> bytes"
  assumes inv_wr: "inv s \<Longrightarrow> k + length data \<le> length (view s) \<Longrightarrow> inv (wr s k data)"
    and view_wr: "inv s \<Longrightarrow> k + length data \<le> length (view s) \<Longrightarrow> view (wr s k data) = overlay (view s) k data"
    and rd_view: "inv s \<Longrightarrow> k + n \<le> length (view s) \<Longrightarrow> rd s k n = take n (drop k (view s))"
begin

lemma length_view_wr: "inv s \<Longrightarrow> k + length data \<le> length (view s) \<Longrightarrow> length (view (wr s k data)) = length (view s)"
  by (simp add: view_wr)

lemma rd_wr: "inv s \<Longrightarrow> k + length data \<le> length (view s) \<Longrightarrow> rd (wr s k data) k (length data) = data"
  by (subst rd_view) (simp_all add: inv_wr view_wr overlay_def)

lemma writes:
  assumes "inv s" "length (view s) = length T"
    and "\<forall>(k, data)\<in>set ps. k + length data \<le> length T \<and> data = take (length data) (drop k T)"
  shows "inv (foldl (\<lambda>s (k, data). wr s k data) s ps) \<and>
    length (view (foldl (\<lambda>s (k, data). wr s k data) s ps)) = length T \<and>
    (\<forall>i<length T. view (foldl (\<lambda>s (k, data). wr s k data) s ps) ! i =
       (if \<exists>(k, data)\<in>set ps. k \<le> i \<and> i < k + length data then T ! i else view s ! i))"
  using assms
proof (induction ps arbitrary: s)
  case Nil
  then show ?case by simp
next
  case (Cons p ps)
  obtain k data where p: "p = (k, data)" by (cases p)
  have fit: "k + length data \<le> length (view s)" and sl: "data = take (length data) (drop k T)"
    using Cons.prems(2,3) by (auto simp: p)
  have nth: "data ! (i - k) = T ! i" if "k \<le> i" "i < k + length data" for i
    using that fit Cons.prems(2) by (subst sl) simp
  let ?s = "wr s k data"
  have len: "length (view ?s) = length T" using fit Cons.prems(1,2) by (simp add: length_view_wr)
  have v: "view ?s ! i = (if k \<le> i \<and> i < k + length data then T ! i else view s ! i)" if "i < length T" for i
    using that fit Cons.prems(1,2) nth by (simp add: view_wr nth_overlay)
  have tail: "\<forall>(k, data)\<in>set ps. k + length data \<le> length T \<and> data = take (length data) (drop k T)"
    using Cons.prems(3) by simp
  from Cons.IH [OF inv_wr [OF Cons.prems(1) fit] len tail] show ?case
    using v by (auto simp: p)
qed

text \<open>Writing every piece of \<open>T\<close>, in any order and any number of times, leaves \<open>T\<close>.\<close>

lemma pieces:
  assumes "inv s" "length (view s) = length T" "0 < pl"
    and "set ps = (\<lambda>i. (i * pl, take pl (drop (i * pl) T))) ` {i. i * pl < length T}"
  shows "inv (foldl (\<lambda>s (k, data). wr s k data) s ps) \<and> view (foldl (\<lambda>s (k, data). wr s k data) s ps) = T"
proof -
  have sl: "\<forall>(k, data)\<in>set ps. k + length data \<le> length T \<and> data = take (length data) (drop k T)"
    unfolding assms(4) by (auto simp: min_def)
  have cover: "\<exists>(k, data)\<in>set ps. k \<le> i \<and> i < k + length data" if "i < length T" for i
  proof -
    have i: "i div pl * pl \<le> i" "i < i div pl * pl + pl"
      using assms(3) dividend_less_times_div [of pl i] by (simp_all add: mult.commute)
    have "(i div pl * pl, take pl (drop (i div pl * pl) T)) \<in> set ps"
      unfolding assms(4) using order.strict_trans1 [OF i(1) that] by blast
    moreover have "i < i div pl * pl + length (take pl (drop (i div pl * pl) T))" using i that by simp
    ultimately show ?thesis using i(1) by blast
  qed
  from writes [OF assms(1,2) sl] show ?thesis
    using cover by (auto intro!: nth_equalityI)
qed

end

definition mw_read :: "MultiFileWriter \<times> Disk \<Rightarrow> nat \<Rightarrow> nat \<Rightarrow> bytes" where
  "mw_read s k n = (case s of (mw, d) \<Rightarrow> fst (ReadAt mw d n (int k)))"

lemma length_mw_view: "mw_ready (mw, d) \<Longrightarrow> int (length (mw_view (mw, d))) = sum_list (map fe_length (mw_files mw))"
  by (auto simp: mw_ready_def mw_view_def intro: length_stream)

lemma readable_grows:
  assumes "readable d hs fes" "grows d d'" "hs \<subseteq> hs'"
  shows "readable d' hs' fes"
  unfolding readable_def
proof
  fix fe
  assume "fe \<in> set fes"
  then obtain b where b: "fe_path fe \<in> hs \<or> \<not> d_denied d (fe_path fe)" "d_files d (fe_path fe) = Some b"
    "nat (fe_length fe) \<le> length b"
    using assms(1) by (auto simp: readable_def)
  moreover obtain b' where "d_files d' (fe_path fe) = Some b'" "length b \<le> length b'"
    using assms(2) b(2) by (auto simp: grows_def)
  ultimately show "(fe_path fe \<in> hs' \<or> \<not> d_denied d' (fe_path fe)) \<and>
      (\<exists>b. d_files d' (fe_path fe) = Some b \<and> nat (fe_length fe) \<le> length b)"
    using assms(2,3) by (auto simp: grows_def)
qed

lemma bounded_exact:
  "bounded d d' fes \<Longrightarrow> \<forall>fe\<in>set fes. length (content d (fe_path fe)) \<le> nat (fe_length fe) \<Longrightarrow>
     \<forall>fe\<in>set fes. length (content d' (fe_path fe)) \<le> nat (fe_length fe)"
  unfolding bounded_def by (metis max.absorb2)

lemma WriteAt_ready:
  assumes "mw_ready (mw, d)" "k + length data \<le> length (mw_view (mw, d))"
  obtains d' mw' where "WriteAt mw d data (int k) = (length data, None, d', mw')" "mw_ready (mw', d')"
    "mw_view (mw', d') = overlay (mw_view (mw, d)) k data" "mw_files mw' = mw_files mw"
    "\<forall>q. q \<notin> fe_path ` set (mw_files mw) \<longrightarrow> content d' q = content d q"
proof -
  let ?fs = "mw_files mw"
  have r: "\<not> mw_closed mw" "layout 0 ?fs" "writable d (mw_handles mw) ?fs" "readable d (mw_handles mw) ?fs"
    "\<forall>fe\<in>set ?fs. length (content d (fe_path fe)) \<le> nat (fe_length fe)"
    using assms(1) by (simp_all add: mw_ready_def)
  have b: "int k + int (length data) \<le> 0 + sum_list (map fe_length ?fs)"
    using assms length_mw_view [OF assms(1)] by linarith
  obtain d' hs' where w: "writeLoop ?fs data (int k) 0 d (mw_handles mw) = (length data, None, d', hs')"
    "stream d' ?fs = overlay (stream d ?fs) k data"
    "\<forall>q. q \<notin> fe_path ` set ?fs \<longrightarrow> content d' q = content d q" "grows d d'" "mw_handles mw \<subseteq> hs'"
    "bounded d d' ?fs"
    using writeLoop_stream [OF r(2) _ b r(3), of 0] by auto
  have "mw_ready (mw\<lparr>mw_handles := hs'\<rparr>, d')"
    using r(1,2) readable_grows [OF r(4) w(4,5)] bounded_exact [OF w(6) r(5)] r(3) w(4,5)
    by (auto simp: mw_ready_def writable_def grows_def)
  then show ?thesis
    using that [of d' "mw\<lparr>mw_handles := hs'\<rparr>"] r(1) w by (simp add: WriteAt_def mw_view_def)
qed

lemma ReadAt_readable:
  assumes "\<not> mw_closed mw" "layout 0 (mw_files mw)" "readable d (mw_handles mw) (mw_files mw)"
    and "k + n \<le> length (stream d (mw_files mw))"
  obtains hs where "ReadAt mw d n (int k) = (take n (drop k (stream d (mw_files mw))), None, mw\<lparr>mw_handles := hs\<rparr>)"
    "mw_handles mw \<subseteq> hs"
proof -
  have b: "int k + int n \<le> 0 + sum_list (map fe_length (mw_files mw))"
    using assms(4) length_stream [OF assms(2), of d] by linarith
  show ?thesis
    using readLoop_stream [OF assms(2) _ b assms(3), of "[]"] assms(1) that by (auto simp: ReadAt_def)
qed

lemma mw_write_ready:
  assumes "mw_ready s" "k + length data \<le> length (mw_view s)"
  shows "mw_ready (mw_write s k data) \<and> mw_view (mw_write s k data) = overlay (mw_view s) k data"
proof -
  obtain mw d where s: "s = (mw, d)" by (cases s)
  obtain d' mw' where "WriteAt mw d data (int k) = (length data, None, d', mw')" "mw_ready (mw', d')"
    "mw_view (mw', d') = overlay (mw_view (mw, d)) k data"
    using WriteAt_ready [OF assms [unfolded s]] by metis
  then show ?thesis by (simp add: s mw_write_def)
qed

lemma mw_read_ready:
  assumes "mw_ready s" "k + n \<le> length (mw_view s)"
  shows "mw_read s k n = take n (drop k (mw_view s))"
proof -
  obtain mw d where s: "s = (mw, d)" by (cases s)
  have r: "\<not> mw_closed mw" "layout 0 (mw_files mw)" "readable d (mw_handles mw) (mw_files mw)"
    "k + n \<le> length (stream d (mw_files mw))"
    using assms by (simp_all add: s mw_ready_def mw_view_def)
  from ReadAt_readable [OF r] show ?thesis by (metis s mw_read_def mw_view_def fst_conv case_prod_conv)
qed

interpretation multi: random_access mw_ready mw_view mw_write mw_read
  by unfold_locales (simp_all add: mw_write_ready mw_read_ready)

lemma file_write_overlay: "k + length data \<le> length b \<Longrightarrow> file_write b k data = overlay b k data"
  by (simp add: file_write_def overlay_def pad_to_def)

interpretation single: random_access "\<lambda>_. True" "\<lambda>b. b" file_write "\<lambda>b k n. fst (fileReadAt b n (int k))"
  by unfold_locales (simp_all add: file_write_overlay fileReadAt_def file_read_def Let_def)

section \<open>Verification\<close>

definition have_piece :: "bytes \<Rightarrow> nat \<Rightarrow> nat \<Rightarrow> bool" where
  "have_piece T k n \<longleftrightarrow> n = 0 \<or> k + n \<le> length T"

definition piece_len :: "int \<Rightarrow> int \<Rightarrow> nat \<Rightarrow> nat" where
  "piece_len tot pl i = nat (min pl (tot - int i * pl))"

definition valid_piece :: "bytes \<Rightarrow> int \<Rightarrow> int \<Rightarrow> bytes list \<Rightarrow> nat \<Rightarrow> bool" where
  "valid_piece T tot pl hs i \<longleftrightarrow>
     (let k = nat (int i * pl); n = piece_len tot pl i
      in have_piece T k n \<and> sha1_Sum (take n (drop k T)) = hs ! i)"

lemma valid_piece_shift:
  "Suc i \<le> j \<Longrightarrow> valid_piece T tot pl (replicate (Suc i) [] @ hs) j = valid_piece T tot pl (replicate i [] @ h # hs) j"
proof -
  assume "Suc i \<le> j"
  then have "(replicate (Suc i) [] @ hs) ! j = (replicate i [] @ h # hs) ! j"
    by (simp add: nth_append nth_Cons' del: replicate.simps)
  then show ?thesis by (simp only: valid_piece_def)
qed

locale piece_source =
  fixes rd :: "'r \<Rightarrow> nat \<Rightarrow> int \<Rightarrow> bytes \<times> serror option \<times> 'r"
    and ok :: "'r \<Rightarrow> bool"
    and T :: bytes and tot :: int
  assumes rd: "ok r \<Longrightarrow> int k + int n \<le> tot \<Longrightarrow> (case rd r n (int k) of (b, e, r') \<Rightarrow> ok r' \<and>
    (if have_piece T k n then e = None \<and> b = take n (drop k T) else \<not> (e = None \<and> length b = n)))"
begin

lemma verifyLoop_step:
  fixes h :: bytes and hs :: "bytes list"
  assumes "ok r" "0 < pl" "int i * pl \<le> tot" "tot + pl \<le> max_int64"
  defines "V \<equiv> valid_piece T tot pl (replicate i [] @ h # hs) i"
  shows "\<exists>r'. ok r' \<and> verifyLoop rd tot pl (h # hs) i bf v r =
    verifyLoop rd tot pl hs (Suc i) (if V then snd (SetPiece bf (int i)) else bf) (if V then Suc v else v) r'"
proof -
  have pos: "0 \<le> int i * pl" using assms(2) by simp
  have "in_int64 (int i * pl)" "in_int64 (tot - int i * pl)"
    unfolding in_int64_def min_int64_def using pos assms(2-4) by linarith+
  then have w: "wrap64 (int i * pl) = int i * pl" "wrap64 (tot - int i * pl) = tot - int i * pl"
    by (simp_all add: wrap64_id)
  let ?k = "nat (int i * pl)" and ?n = "piece_len tot pl i"
  have n: "(if tot - int i * pl < pl then tot - int i * pl else pl) = int ?n" "\<not> int ?n < 0"
    using assms(2,3) by (simp_all add: piece_len_def min_def)
  obtain b e r' where r: "rd r ?n (int ?k) = (b, e, r')" by (cases "rd r ?n (int ?k)")
  then have r': "rd r ?n (int i * pl) = (b, e, r')" using pos by simp
  have "int ?k + int ?n \<le> tot" using assms(2,3) pos by (simp add: piece_len_def min_def)
  from rd [OF assms(1) this, unfolded r prod.case]
  have ok: "ok r'" and
    eq: "(if have_piece T ?k ?n then e = None \<and> b = take ?n (drop ?k T) else \<not> (e = None \<and> length b = ?n))"
    by blast+
  have test: "(e = None \<and> length b = ?n \<and> sha1_Sum b = h) \<longleftrightarrow> V"
    using eq by (auto simp: V_def valid_piece_def Let_def have_piece_def nth_append split: if_splits)
  show ?thesis
    by (intro exI [of _ r'] conjI ok, cases V)
      (use n(2) in \<open>simp_all only: verifyLoop.simps(2) Let_def w n nat_int r' prod.case test if_False if_True\<close>)
qed

lemma verifyLoop_correct:
  assumes "ok r" "0 < pl" "int (i + length hs) * pl \<le> tot + pl" "tot + pl \<le> max_int64" "i + length hs \<le> 8 * length bf"
  shows "\<exists>bf'. verifyLoop rd tot pl hs i bf v r =
      Some (bf', v + length (filter (\<lambda>m. valid_piece T tot pl (replicate i [] @ hs) (i + m)) [0..<length hs])) \<and>
    length bf' = length bf \<and>
    (\<forall>j. HasPiece bf' j \<longleftrightarrow> HasPiece bf j \<or>
       (int i \<le> j \<and> j < int (i + length hs) \<and> valid_piece T tot pl (replicate i [] @ hs) (nat j)))"
  using assms(1,3-)
proof (induction hs arbitrary: i bf v r)
  case Nil
  then show ?case by auto
next
  case (Cons h hs)
  let ?V = "valid_piece T tot pl (replicate i [] @ h # hs)" and ?W = "valid_piece T tot pl (replicate (Suc i) [] @ hs)"
  let ?bf = "if ?V i then snd (SetPiece bf (int i)) else bf" and ?v = "if ?V i then Suc v else v"
  have "0 \<le> int (length hs) * pl" "int i * pl + pl + int (length hs) * pl \<le> tot + pl"
    using assms(2) Cons.prems(2) by (simp_all add: algebra_simps)
  then have "int i * pl \<le> tot" by linarith
  from verifyLoop_step [OF Cons.prems(1) assms(2) this Cons.prems(3)] obtain r' where ok: "ok r'"
    and step: "verifyLoop rd tot pl (h # hs) i bf v r = verifyLoop rd tot pl hs (Suc i) ?bf ?v r'"
    by blast
  have vp: "?W j = ?V j" if "Suc i \<le> j" for j by (rule valid_piece_shift [OF that])
  have pre: "int (Suc i + length hs) * pl \<le> tot + pl" "Suc i + length hs \<le> 8 * length ?bf"
    using Cons.prems(2,4) by simp_all
  obtain bf' where IH: "verifyLoop rd tot pl hs (Suc i) ?bf ?v r' =
      Some (bf', ?v + length (filter (\<lambda>m. ?W (Suc i + m)) [0..<length hs]))" "length bf' = length ?bf"
    "\<And>j. HasPiece bf' j \<longleftrightarrow> HasPiece ?bf j \<or> (int (Suc i) \<le> j \<and> j < int (Suc i + length hs) \<and> ?W (nat j))"
    using Cons.IH [OF ok pre(1) Cons.prems(3) pre(2), of ?v] by blast
  have "[0..<length (h # hs)] = 0 # map Suc [0..<length hs]"
    by (simp add: upt_conv_Cons map_Suc_upt del: upt_Suc)
  then have cnt: "?v + length (filter (\<lambda>m. ?W (Suc i + m)) [0..<length hs]) =
      v + length (filter (\<lambda>m. ?V (i + m)) [0..<length (h # hs)])"
    by (simp add: vp filter_map o_def del: replicate.simps upt_Suc)
  have len: "length bf' = length bf" using IH(2) by (auto split: if_splits)
  have "HasPiece bf' j \<longleftrightarrow> HasPiece bf j \<or> (int i \<le> j \<and> j < int (i + length (h # hs)) \<and> ?V (nat j))" for j
  proof -
    have "int i < 8 * int (length bf)" using Cons.prems(4) by simp
    then have "HasPiece ?bf j \<longleftrightarrow> HasPiece bf j \<or> (j = int i \<and> ?V i)"
      by (auto simp: HasPiece_SetPiece)
    moreover have "int (Suc i) \<le> j \<Longrightarrow> ?W (nat j) = ?V (nat j)" by (rule vp) simp
    ultimately show ?thesis unfolding IH(3) by (cases "j = int i") auto
  qed
  then show ?case unfolding step IH(1) cnt len by (intro exI [of _ bf']) (simp add: len)
qed

end

interpretation on_file: piece_source fileReadAt "\<lambda>r. r = b" b tot for b tot
  by unfold_locales (auto simp: fileReadAt_def file_read_def have_piece_def Let_def)

definition open_files :: "Disk \<Rightarrow> fileEntry list \<Rightarrow> MultiFileWriter \<Rightarrow> bool" where
  "open_files d fes mw \<longleftrightarrow> \<not> mw_closed mw \<and> mw_files mw = fes \<and> layout 0 fes \<and> readable d (mw_handles mw) fes"

lemma readable_mono: "readable d hs fes \<Longrightarrow> hs \<subseteq> hs' \<Longrightarrow> readable d hs' fes"
  by (auto simp: readable_def)

interpretation on_files: piece_source "\<lambda>mw n off. ReadAt mw d n off" "open_files d fes" "stream d fes"
  "sum_list (map fe_length fes)" for d fes
proof
  fix r k n
  assume o: "open_files d fes r" and b: "int k + int n \<le> sum_list (map fe_length fes)"
  have k: "k + n \<le> length (stream d fes)"
    using length_stream [of 0 fes d] o b by (simp add: open_files_def)
  have m: "\<not> mw_closed r" "layout 0 (mw_files r)" "readable d (mw_handles r) (mw_files r)"
    "k + n \<le> length (stream d (mw_files r))" "mw_files r = fes"
    using o k by (simp_all add: open_files_def)
  obtain hs where "ReadAt r d n (int k) = (take n (drop k (stream d fes)), None, r\<lparr>mw_handles := hs\<rparr>)"
    "mw_handles r \<subseteq> hs"
    using ReadAt_readable [OF m(1-4)] unfolding m(5) by blast
  moreover have "readable d hs fes" using readable_mono [OF m(3) calculation(2)] m(5) by simp
  ultimately show "case ReadAt r d n (int k) of (b, e, r') \<Rightarrow> open_files d fes r' \<and>
      (if have_piece (stream d fes) k n then e = None \<and> b = take n (drop k (stream d fes))
       else \<not> (e = None \<and> length b = n))"
    using k m(1,2,5) by (simp add: open_files_def have_piece_def)
qed

lemma verifyLoop_panics:
  assumes "tot < int (i + length hs - 1) * pl" "0 < pl" "0 \<le> tot" "int (i + length hs) * pl \<le> max_int64" "hs \<noteq> []"
  shows "verifyLoop rd tot pl hs i bf v r = None"
  using assms(1,4,5)
proof (induction hs arbitrary: i bf v r)
  case Nil
  then show ?case by simp
next
  case (Cons h hs)
  have pos: "0 \<le> int i * pl" "0 \<le> int (length hs) * pl" "int i * pl + pl + int (length hs) * pl \<le> max_int64"
    using assms(2) Cons.prems(2) by (simp_all add: algebra_simps)
  have len: "tot < int i * pl + int (length hs) * pl" using Cons.prems(1) by (simp add: algebra_simps)
  have "in_int64 (int i * pl)" "in_int64 (tot - int i * pl)"
    unfolding in_int64_def min_int64_def using assms(2,3) len pos max_int64_def by linarith+
  then have w: "wrap64 (int i * pl) = int i * pl" "wrap64 (tot - int i * pl) = tot - int i * pl"
    by (simp_all add: wrap64_id)
  show ?case
  proof (cases "tot < int i * pl")
    case True
    then have "(if tot - int i * pl < pl then tot - int i * pl else pl) < 0" using assms(2) by simp
    then show ?thesis by (simp only: verifyLoop.simps(2) Let_def w if_True)
  next
    case False
    then have "hs \<noteq> []" using len by auto
    then have IH: "verifyLoop rd tot pl hs (Suc i) bf v r = None" for bf v r
      using Cons.prems(1,2) by (intro Cons.IH) simp_all
    show ?thesis by (simp only: verifyLoop.simps(2) Let_def IH split: if_splits prod.splits) simp
  qed
qed

section \<open>Properties\<close>

lemma mw_files_write: "mw_files (fst (mw_write s k data)) = mw_files (fst s)"
  by (auto simp: mw_write_def WriteAt_def split: prod.splits if_splits)

lemma mw_files_writes: "mw_files (fst (foldl (\<lambda>s (k, data). mw_write s k data) s ps)) = mw_files (fst s)"
  by (induction ps arbitrary: s) (auto simp: mw_files_write)

lemma concat_nth_part:
  "i < length xs \<Longrightarrow> xs ! i = take (length (xs ! i)) (drop (sum_list (map length (take i xs))) (concat xs))"
  by (induction xs arbitrary: i) (auto simp: nth_Cons split: nat.split)

lemma ready_content:
  assumes "mw_ready (mw, d)" "fe \<in> set (mw_files mw)"
  shows "d_files d (fe_path fe) = Some (seg d fe)"
proof -
  obtain b where b: "d_files d (fe_path fe) = Some b" "nat (fe_length fe) \<le> length b"
    using assms by (auto simp: mw_ready_def readable_def)
  moreover have "length b \<le> nat (fe_length fe)"
    using assms b(1) by (fastforce simp: mw_ready_def content_def)
  ultimately show ?thesis by (simp add: seg_def content_def file_trunc_def pad_to_def)
qed

text \<open>
  C20: The files of a torrent behave as one stream. In a writer whose files are preallocated, a write
  that fits succeeds, reports all its bytes, and changes the stream exactly as overwriting that range
  would, across file boundaries; files of other torrents stay as they are; a read that fits then
  returns exactly that part of the new stream.
\<close>

theorem multifile_is_one_stream:
  assumes "mw_ready (mw, d)" "k + length data \<le> length (mw_view (mw, d))" "j + n \<le> length (mw_view (mw, d))"
  shows "\<exists>d' mw' mw''. WriteAt mw d data (int k) = (length data, None, d', mw') \<and> mw_ready (mw', d') \<and>
    mw_view (mw', d') = overlay (mw_view (mw, d)) k data \<and>
    (\<forall>q. q \<notin> fe_path ` set (mw_files mw) \<longrightarrow> content d' q = content d q) \<and>
    ReadAt mw' d' n (int j) = (take n (drop j (overlay (mw_view (mw, d)) k data)), None, mw'')"
proof -
  obtain d' mw' where w: "WriteAt mw d data (int k) = (length data, None, d', mw')" "mw_ready (mw', d')"
    "mw_view (mw', d') = overlay (mw_view (mw, d)) k data" "mw_files mw' = mw_files mw"
    "\<forall>q. q \<notin> fe_path ` set (mw_files mw) \<longrightarrow> content d' q = content d q"
    using WriteAt_ready [OF assms(1,2)] by metis
  have "\<not> mw_closed mw'" "layout 0 (mw_files mw')" "readable d' (mw_handles mw') (mw_files mw')"
    using w(2) by (simp_all add: mw_ready_def)
  moreover have "stream d' (mw_files mw') = overlay (mw_view (mw, d)) k data"
    using w(3) by (simp add: mw_view_def)
  moreover from this have "j + n \<le> length (stream d' (mw_files mw'))" using assms(2,3) by simp
  ultimately obtain hs where
    "ReadAt mw' d' n (int j) = (take n (drop j (overlay (mw_view (mw, d)) k data)), None, mw'\<lparr>mw_handles := hs\<rparr>)"
    using ReadAt_readable by metis
  with w show ?thesis by blast
qed

definition demo_disk :: Disk where
  "demo_disk = \<lparr>d_files = \<lambda>_. None, d_denied = \<lambda>_. False, d_werr = \<lambda>_. False\<rparr>"

definition demo_multi :: TorrentFile where
  "demo_multi = \<lparr>Announce = [], AnnounceList = [],
     tf_Info = \<lparr>Name = gostr ''t'', PieceLength = 4, PieceHashes = [sha1_Sum [1, 2, 3, 4], sha1_Sum [5]], i_Length = 0,
       Files = [\<lparr>f_Length = 3, f_Path = [gostr ''a'']\<rparr>, \<lparr>f_Length = 2, f_Path = [gostr ''b'', gostr ''c'']\<rparr>],
       Private = False, FileTree = None\<rparr>,
     tf_InfoHash = [], InfoHashV2 = [], MetaVersion = 1, WebSeedURLs = []\<rparr>"

definition demo_entries :: "fileEntry list" where
  "demo_entries = [\<lparr>fe_path = gostr ''/d/a'', fe_offset = 0, fe_length = 3\<rparr>,
     \<lparr>fe_path = gostr ''/d/b/c'', fe_offset = 3, fe_length = 2\<rparr>]"

definition demo_writer :: MultiFileWriter where
  "demo_writer = \<lparr>mw_baseDir = gostr ''/d'', mw_files = demo_entries, mw_total = 5, mw_handles = {}, mw_closed = False\<rparr>"

lemmas demo_defs = demo_disk_def demo_multi_def demo_writer_def demo_entries_def

lemmas writer_eval = NewMultiFileWriter_def Clean_def Let_def comps_def clean_comps_def clean_step_def is_rooted_def
  slash_def dot_def dotdot_def HasPrefix_def gostr_def wrap64_id in_int64_def min_int64_def max_int64_def

lemma demo_new: "NewMultiFileWriter demo_disk (gostr ''/d'') demo_multi = Inr demo_writer"
  by (simp add: demo_defs writer_eval)


lemma demo_writable: "writable demo_disk {} demo_entries"
  by (simp add: writable_def demo_defs)

definition demo_full :: Disk where
  "demo_full = demo_disk\<lparr>d_files := [gostr ''/d/a'' \<mapsto> [1, 2, 3], gostr ''/d/b/c'' \<mapsto> [4, 5]]\<rparr>"

lemma demo_ready: "mw_ready (demo_writer, demo_full)"
  by (simp add: mw_ready_def writable_def readable_def content_def demo_full_def demo_defs max_int64_def)

lemma demo_view: "mw_view (demo_writer, demo_full) = [1, 2, 3, 4, 5]"
  by (simp add: mw_view_def stream_def seg_def file_trunc_def pad_to_def content_def demo_full_def demo_defs)

theorem multifile_is_one_stream_witness:
  "\<exists>d' mw' mw''. WriteAt demo_writer demo_full [8, 9] 2 = (2, None, d', mw') \<and> mw_ready (mw', d') \<and>
    mw_view (mw', d') = [1, 2, 8, 9, 5] \<and> content d' [] = content demo_full [] \<and>
    ReadAt mw' d' 3 1 = ([2, 8, 9], None, mw'')"
proof -
  have "[] \<notin> fe_path ` set (mw_files demo_writer)" by (simp add: demo_defs gostr_def)
  moreover have "overlay [1, 2, 3, 4, 5 :: byte] 2 [8, 9] = [1, 2, 8, 9, 5]" by (simp add: overlay_def)
  ultimately show ?thesis
    using multifile_is_one_stream [OF demo_ready, of 2 "[8, 9]" 1 3, unfolded demo_view]
    by (simp add: numeral_eq_Suc) blast
qed

text \<open>
  C21: A download assembles its files. Take a new writer for a torrent whose files have distinct
  paths that can be opened and written, preallocate, and write every piece of the data in any order,
  some perhaps more than once: every write lands, and at the end each file of the torrent holds
  exactly its part of the data, at its exact length.
\<close>

definition lengths_ok :: "TorrentFile \<Rightarrow> bool" where
  "lengths_ok tf \<longleftrightarrow> (\<forall>f\<in>set (Files (tf_Info tf)). 0 \<le> f_Length f) \<and>
     sum_list (map f_Length (Files (tf_Info tf))) \<le> max_int64"

theorem pieces_assemble:
  assumes "NewMultiFileWriter d base tf = Inr mw" "lengths_ok tf" "writable d {} (mw_files mw)"
    and "int (length T) = sum_list (map f_Length (Files (tf_Info tf)))" "0 < pl"
    and "set ps = (\<lambda>i. (i * pl, take pl (drop (i * pl) T))) ` {i. i * pl < length T}"
  shows "\<exists>d1 mw1. PreallocateFiles mw d = (None, d1, mw1) \<and>
    (case foldl (\<lambda>s (k, data). mw_write s k data) (mw1, d1) ps of (mw2, d2) \<Rightarrow>
      \<forall>i<length (Files (tf_Info tf)). d_files d2 (fe_path (mw_files mw ! i)) =
        Some (take (nat (f_Length (Files (tf_Info tf) ! i)))
          (drop (sum_list (map (nat \<circ> f_Length) (take i (Files (tf_Info tf))))) T)))"
proof -
  let ?fs = "Files (tf_Info tf)" and ?es = "mw_files mw"
  have l: "layout 0 ?es" "map fe_length ?es = map f_Length ?fs" "\<not> mw_closed mw" "mw_handles mw = {}"
    using NewMultiFileWriter_layout [OF assms(1)] assms(2) by (auto simp: lengths_ok_def)
  obtain d1 mw1 where p: "PreallocateFiles mw d = (None, d1, mw1)" "mw_ready (mw1, d1)" "mw_files mw1 = ?es"
    using PreallocateFiles_ready [OF l(3,1), of d] assms(3) unfolding l(4) by blast
  obtain mw2 d2 where s2: "foldl (\<lambda>s (k, data). mw_write s k data) (mw1, d1) ps = (mw2, d2)"
    by (cases "foldl (\<lambda>s (k, data). mw_write s k data) (mw1, d1) ps")
  have "length (mw_view (mw1, d1)) = length T"
    using length_mw_view [OF p(2)] p(3) l(2) assms(4) by simp
  from multi.pieces [OF p(2) this assms(5,6)] have r: "mw_ready (mw2, d2)" "mw_view (mw2, d2) = T"
    by (simp_all add: s2)
  have es: "mw_files mw2 = ?es" using mw_files_writes [of "(mw1, d1)" ps] p(3) by (simp add: s2)
  have len: "length ?es = length ?fs" using l(2) by (metis length_map)
  have "d_files d2 (fe_path (?es ! i)) = Some (take (nat (f_Length (?fs ! i)))
      (drop (sum_list (map (nat \<circ> f_Length) (take i ?fs))) T))" if i: "i < length ?fs" for i
  proof -
    have "T = concat (map (seg d2) ?es)" using r(2) es by (simp add: mw_view_def stream_def)
    then have "seg d2 (?es ! i) = take (nat (fe_length (?es ! i)))
        (drop (sum_list (map length (take i (map (seg d2) ?es)))) T)"
      using concat_nth_part [of i "map (seg d2) ?es"] i len by simp
    moreover have "map length (take i (map (seg d2) ?es)) = map nat (take i (map fe_length ?es))"
      by (simp add: take_map o_def)
    moreover have "fe_length (?es ! i) = f_Length (?fs ! i)"
      using l(2) i len by (metis nth_map)
    ultimately show ?thesis
      using ready_content [OF r(1), of "?es ! i"] i len es l(2) by (simp add: take_map o_def)
  qed
  then show ?thesis using p(1) s2 by auto
qed

theorem pieces_assemble_witness:
  "\<exists>d1 mw1. PreallocateFiles demo_writer demo_disk = (None, d1, mw1) \<and>
    (case foldl (\<lambda>s (k, data). mw_write s k data) (mw1, d1) [(4, [5]), (0, [1, 2, 3, 4])] of (mw2, d2) \<Rightarrow>
      d_files d2 (gostr ''/d/a'') = Some [1, 2, 3] \<and> d_files d2 (gostr ''/d/b/c'') = Some [4, 5])"
proof -
  have s: "{i. i * 4 < length [1, 2, 3, 4, 5 :: byte]} = {0, 1}" by auto
  have a: "set [(4, [5]), (0, [1, 2, 3, 4 :: byte])] =
      (\<lambda>i. (i * 4, take 4 (drop (i * 4) [1, 2, 3, 4, 5]))) ` {i. i * 4 < length [1, 2, 3, 4, 5 :: byte]}"
    unfolding s by (simp add: insert_commute)
  have b: "lengths_ok demo_multi" "writable demo_disk {} (mw_files demo_writer)"
    "int (length [1, 2, 3, 4, 5 :: byte]) = sum_list (map f_Length (Files (tf_Info demo_multi)))" "0 < (4 :: nat)"
    using demo_writable by (simp_all add: lengths_ok_def demo_defs max_int64_def)
  obtain d1 mw1 where p: "PreallocateFiles demo_writer demo_disk = (None, d1, mw1)"
    "case foldl (\<lambda>s (k, data). mw_write s k data) (mw1, d1) [(4, [5]), (0, [1, 2, 3, 4])] of (mw2, d2) \<Rightarrow>
      \<forall>i<length (Files (tf_Info demo_multi)). d_files d2 (fe_path (mw_files demo_writer ! i)) =
        Some (take (nat (f_Length (Files (tf_Info demo_multi) ! i)))
          (drop (sum_list (map (nat \<circ> f_Length) (take i (Files (tf_Info demo_multi))))) [1, 2, 3, 4, 5]))"
    using pieces_assemble [OF demo_new b a] by (elim exE conjE) (rule that)
  have "length (Files (tf_Info demo_multi)) = 2" by (simp add: demo_defs)
  then show ?thesis
    using p by (intro exI [of _ d1] exI [of _ mw1]) (simp add: split_beta demo_defs All_less_Suc2 numeral_2_eq_2)
qed

lemma buildEntries_paths:
  assumes "buildEntries d base cb off fs = Inr (es, tot)"
  shows "length es = length fs \<and>
    (\<forall>fe\<in>set es. \<exists>f\<in>set fs. fe_path fe = Clean (Join [base, Join (f_Path f)]) \<and> HasPrefix (fe_path fe) cb)"
  using assms
proof (induction fs arbitrary: off es)
  case (Cons f fs)
  from Cons.prems obtain es' where
    "buildEntries d base cb (wrap64 (off + f_Length f)) fs = Inr (es', tot)"
    "es = \<lparr>fe_path = Clean (Join [base, Join (f_Path f)]), fe_offset = off, fe_length = f_Length f\<rparr> # es'"
    "HasPrefix (Clean (Join [base, Join (f_Path f)])) cb"
    by (auto simp: Let_def split: if_splits sum.splits)
  then show ?case using Cons.IH by (simp del: Join.simps)
qed simp

text \<open>
  With the base \<open>..\<close> the check of \<open>NewMultiFileWriter\<close> accepts a file outside the base.
\<close>

definition demo_escape :: TorrentFile where
  "demo_escape = demo_multi\<lparr>tf_Info := (tf_Info demo_multi)\<lparr>Files := [\<lparr>f_Length = 1, f_Path = [gostr ''..'', gostr ''x'']\<rparr>]\<rparr>\<rparr>"

lemma relative_base_escape:
  "\<exists>mw. NewMultiFileWriter demo_disk (gostr ''..'') demo_escape = Inr mw \<and> map fe_path (mw_files mw) = [gostr ''../../x'']"
  by (simp add: demo_escape_def demo_defs writer_eval)

text \<open>
  C22: Where the files of a torrent can lie. Whatever the path components in the torrent are (empty,
  \<open>..\<close>, with separators) and whatever the base, a writer is created only if every file's path is the
  base directory followed by one or more ordinary names, none of them empty, \<open>.\<close> or \<open>..\<close>. There is one
  exception, in which the check of the code is not enough: after a relative base that consists of
  \<open>..\<close> only, the ordinary names may be preceded by further \<open>..\<close>. The session never uses such a base.
\<close>

theorem files_stay_inside:
  assumes "NewMultiFileWriter d base tf = Inr mw"
  shows "length (mw_files mw) = length (Files (tf_Info tf)) \<and>
    (\<forall>fe\<in>set (mw_files mw). \<exists>R. R \<noteq> [] \<and> fe_path fe = Clean base @ slash # join_with slash R \<and>
       (list_all plain R \<or>
        \<not> is_rooted base \<and> set (comps base) = {dotdot} \<and> (\<exists>n S. R = replicate n dotdot @ S \<and> list_all plain S)))"
proof -
  obtain es tot where "buildEntries d base (Clean base @ [slash]) 0 (Files (tf_Info tf)) = Inr (es, tot)" "es = mw_files mw"
    using assms by (auto simp: NewMultiFileWriter_def split: if_splits sum.splits)
  from buildEntries_paths [OF this(1), unfolded this(2)] show ?thesis
    using inside_base_any by metis
qed

theorem files_stay_inside_witness:
  "length (mw_files demo_writer) = 2 \<and>
   (\<exists>R. R \<noteq> [] \<and> list_all plain R \<and> gostr ''/d/b/c'' = Clean (gostr ''/d'') @ slash # join_with slash R)"
proof -
  have "is_rooted (gostr ''/d'')" by (simp add: is_rooted_def slash_def gostr_def)
  then show ?thesis using files_stay_inside [OF demo_new] by (simp add: demo_defs) blast
qed

text \<open>
  C23: Verification marks exactly the pieces that are right. If no piece starts after the end of the
  data, \<open>VerifyPieces\<close> returns a bitfield for all pieces whose bit \<open>j\<close> is set exactly when the bytes of
  piece \<open>j\<close> are on disk, the last piece shortened to what remains, and hash to the value in the
  torrent; the count is the number of such pieces. This holds for a single file of any length, and
  for the files of a multi-file torrent when they are all there.
\<close>

definition data_on_disk :: "Disk \<Rightarrow> bytes \<Rightarrow> TorrentFile \<Rightarrow> bytes \<Rightarrow> bool" where
  "data_on_disk d path tf T \<longleftrightarrow>
     (if IsMultiFile tf
      then (case NewMultiFileWriter d path tf of
              Inl e \<Rightarrow> False
            | Inr mw \<Rightarrow> i_Length (tf_Info tf) = 0 \<and> lengths_ok tf \<and> readable d {} (mw_files mw) \<and> T = stream d (mw_files mw))
      else \<not> d_denied d path \<and> d_files d path = Some T)"

theorem VerifyPieces_correct:
  assumes "data_on_disk d path tf T" "0 < PieceLength (tf_Info tf)"
    and "int (length (PieceHashes (tf_Info tf))) * PieceLength (tf_Info tf) \<le> TotalSize tf + PieceLength (tf_Info tf)"
    and "TotalSize tf + PieceLength (tf_Info tf) \<le> max_int64"
  shows "\<exists>bf. VerifyPieces d path tf =
      Some (bf, length (filter (valid_piece T (TotalSize tf) (PieceLength (tf_Info tf)) (PieceHashes (tf_Info tf)))
        [0..<length (PieceHashes (tf_Info tf))])) \<and>
    length bf = (length (PieceHashes (tf_Info tf)) + 7) div 8 \<and>
    (\<forall>j. HasPiece bf j \<longleftrightarrow> 0 \<le> j \<and> j < int (length (PieceHashes (tf_Info tf))) \<and>
       valid_piece T (TotalSize tf) (PieceLength (tf_Info tf)) (PieceHashes (tf_Info tf)) (nat j))"
proof -
  let ?hs = "PieceHashes (tf_Info tf)" and ?pl = "PieceLength (tf_Info tf)"
  let ?bf = "replicate ((length ?hs + 7) div 8) 0 :: Bitfield"
  have room: "0 + length ?hs \<le> 8 * length ?bf" by simp
  have len: "int (0 + length ?hs) * ?pl \<le> TotalSize tf + ?pl" using assms(3) by simp
  have empty: "\<not> HasPiece ?bf j" for j by (simp add: HasPiece_iff)
  show ?thesis
  proof (cases "IsMultiFile tf")
    case True
    then obtain mw where mw: "NewMultiFileWriter d path tf = Inr mw" "lengths_ok tf" "readable d {} (mw_files mw)"
      "T = stream d (mw_files mw)" "i_Length (tf_Info tf) = 0"
      using assms(1) by (auto simp: data_on_disk_def split: sum.splits)
    note l = NewMultiFileWriter_layout [OF mw(1)]
    have L: "\<forall>f\<in>set (Files (tf_Info tf)). 0 \<le> f_Length f" "sum_list (map f_Length (Files (tf_Info tf))) \<le> max_int64"
      using mw(2) by (simp_all add: lengths_ok_def)
    have tot: "TotalSize tf = sum_list (map fe_length (mw_files mw))"
      using foldl_total [OF order_refl L(1)] L(2) l(2) [OF L] mw(5) by (simp add: TotalSize_def)
    have "open_files d (mw_files mw) mw" using l(1,6,7) [OF L] mw(3) by (simp add: open_files_def)
    from on_files.verifyLoop_correct [OF this assms(2), folded tot, OF len assms(4) room, where v = 0]
    show ?thesis using True mw(1,4) empty
      by (simp add: VerifyPieces_def Let_def)
  next
    case False
    then have f: "\<not> d_denied d path" "d_files d path = Some T" using assms(1) by (simp_all add: data_on_disk_def)
    from on_file.verifyLoop_correct [where b = T and v = 0, OF refl assms(2) len assms(4) room]
    show ?thesis using False f empty
      by (simp add: VerifyPieces_def Let_def)
  qed
qed

theorem VerifyPieces_correct_witness:
  "\<exists>bf. VerifyPieces demo_full (gostr ''/d'') demo_multi = Some (bf, 2) \<and> length bf = 1 \<and>
    HasPiece bf 0 \<and> HasPiece bf 1 \<and> \<not> HasPiece bf 2"
proof -
  have n: "NewMultiFileWriter demo_full (gostr ''/d'') demo_multi = Inr demo_writer"
    by (simp add: demo_full_def demo_defs writer_eval)
  have d: "data_on_disk demo_full (gostr ''/d'') demo_multi [1, 2, 3, 4, 5]"
    using demo_ready demo_view
    by (simp add: data_on_disk_def n mw_ready_def mw_view_def lengths_ok_def IsMultiFile_def)
      (simp add: demo_defs max_int64_def)
  have h: "PieceHashes (tf_Info demo_multi) = [sha1_Sum [1, 2, 3, 4], sha1_Sum [5]]" "PieceLength (tf_Info demo_multi) = 4"
    "TotalSize demo_multi = 5"
    by (simp_all add: demo_defs TotalSize_def wrap64_id in_int64_def min_int64_def max_int64_def)
  have v: "valid_piece [1, 2, 3, 4, 5] 5 4 [sha1_Sum [1, 2, 3, 4], sha1_Sum [5]] 0"
    "valid_piece [1, 2, 3, 4, 5] 5 4 [sha1_Sum [1, 2, 3, 4], sha1_Sum [5]] (Suc 0)"
    by (simp_all add: valid_piece_def have_piece_def piece_len_def)
  show ?thesis
    using VerifyPieces_correct [OF d, unfolded h] v
    by (auto simp: max_int64_def upt_rec numeral_2_eq_2)
qed

text \<open>A torrent with a piece that starts after the end of its data makes \<open>VerifyPieces\<close> panic.\<close>

lemma VerifyPieces_panics:
  assumes "\<not> IsMultiFile tf" "\<not> d_denied d path" "d_files d path = Some T" "0 < PieceLength (tf_Info tf)"
    and "0 \<le> TotalSize tf" "PieceHashes (tf_Info tf) \<noteq> []"
    and "TotalSize tf < int (length (PieceHashes (tf_Info tf)) - 1) * PieceLength (tf_Info tf)"
    and "int (length (PieceHashes (tf_Info tf))) * PieceLength (tf_Info tf) \<le> max_int64"
  shows "VerifyPieces d path tf = None"
proof -
  have "verifyLoop rd (TotalSize tf) (PieceLength (tf_Info tf)) (PieceHashes (tf_Info tf)) 0 bf v T = None" for rd bf v
    by (rule verifyLoop_panics) (use assms(4-8) in \<open>simp_all only: add_0 not_False_eq_True\<close>)
  then show ?thesis using assms(1-3) by (simp add: VerifyPieces_def Let_def)
qed

end
