(* ===== verification/Engine_Files.thy ===== *)
theory Engine_Files
  imports Storage_Access
begin

text \<open>
  What the engine derives from the pieces it has: the pieces it need not download because all their
  files are skipped (\<^verbatim>\<open>src/engine/skip_mask.go\<close>), the progress of each file (\<^verbatim>\<open>file_progress.go\<close> and
  \<open>Session.Files\<close>), and the files completed by each arriving piece (\<^verbatim>\<open>src/engine/session.go\<close>). The
  specifications speak of the bytes of the torrent and the file each byte lies in.
\<close>

section \<open>Skipped pieces\<close>

definition PriorityNormal :: int where "PriorityNormal = 0"
definition PrioritySkip :: int where "PrioritySkip = -1"

record fileRange =
  fr_start :: int
  fr_end :: int
  fr_skip :: bool

primrec buildRanges :: "int list \<Rightarrow> nat \<Rightarrow> int \<Rightarrow> File list \<Rightarrow> fileRange list" where
  "buildRanges priorities i offset [] = []"
| "buildRanges priorities i offset (f # fs) =
     \<lparr>fr_start = offset, fr_end = wrap64 (offset + f_Length f),
      fr_skip = (i < length priorities \<and> priorities ! i = PrioritySkip)\<rparr> #
     buildRanges priorities (Suc i) (wrap64 (offset + f_Length f)) fs"

text \<open>The walk over the ranges for one piece: whether any overlaps it, and whether all that do are skipped.\<close>

primrec scanRanges :: "fileRange list \<Rightarrow> int \<Rightarrow> int \<Rightarrow> bool \<Rightarrow> bool \<times> bool" where
  "scanRanges [] pieceStart pieceEnd coveredAny = (coveredAny, True)"
| "scanRanges (r # rs) pieceStart pieceEnd coveredAny =
     (if fr_end r \<le> pieceStart \<or> fr_start r \<ge> pieceEnd then scanRanges rs pieceStart pieceEnd coveredAny
      else if \<not> fr_skip r then (True, False)
      else scanRanges rs pieceStart pieceEnd True)"

definition skipPiece :: "fileRange list \<Rightarrow> int \<Rightarrow> int \<Rightarrow> nat \<Rightarrow> bool" where
  "skipPiece ranges pieceLength totalBytes i =
     (let pieceStart = wrap64 (int i * pieceLength);
          pieceEnd0 = wrap64 (pieceStart + pieceLength);
          pieceEnd = (if pieceEnd0 > totalBytes then totalBytes else pieceEnd0)
      in if pieceEnd \<le> pieceStart then False
         else case scanRanges ranges pieceStart pieceEnd False of
                (coveredAny, allSkipped) \<Rightarrow> coveredAny \<and> allSkipped)"

definition ComputeSkippedPieceMask :: "File list \<Rightarrow> int list \<Rightarrow> int \<Rightarrow> int \<Rightarrow> nat \<Rightarrow> Bitfield option" where
  "ComputeSkippedPieceMask files priorities pieceLength totalBytes numPieces =
     (if numPieces = 0 \<or> pieceLength \<le> 0 \<or> files = [] then None
      else
        (let ranges = buildRanges priorities 0 0 files
         in Some (foldl (\<lambda>bf i. if skipPiece ranges pieceLength totalBytes i then snd (SetPiece bf (int i)) else bf)
                    (replicate ((numPieces + 7) div 8) 0) [0..<numPieces])))"

definition computeSkipMaskFromRecord :: "TorrentFile option \<Rightarrow> int list \<Rightarrow> Bitfield option" where
  "computeSkipMaskFromRecord tfo priorities =
     (case tfo of
        None \<Rightarrow> None
      | Some tf \<Rightarrow>
          if priorities = [] then None
          else if PrioritySkip \<notin> set priorities then None
          else
            (let files = (if Files (tf_Info tf) = []
                          then [\<lparr>f_Length = i_Length (tf_Info tf), f_Path = [Name (tf_Info tf)]\<rparr>]
                          else Files (tf_Info tf))
             in ComputeSkippedPieceMask files priorities (PieceLength (tf_Info tf)) (TotalSize tf)
                  (length (PieceHashes (tf_Info tf)))))"

section \<open>Progress of files\<close>

definition downloadStep :: "Bitfield \<Rightarrow> int \<Rightarrow> int \<Rightarrow> int \<Rightarrow> int \<Rightarrow> int \<Rightarrow> int \<Rightarrow> int" where
  "downloadStep bf offset fileEnd pieceLength totalBytes downloaded i =
     (if \<not> HasPiece bf i then downloaded
      else
        (let pieceStart = wrap64 (i * pieceLength);
             pieceEnd0 = wrap64 (pieceStart + pieceLength);
             pieceEnd = (if pieceEnd0 > totalBytes then totalBytes else pieceEnd0);
             start = (if pieceStart < offset then offset else pieceStart);
             finish = (if pieceEnd > fileEnd then fileEnd else pieceEnd)
         in if finish > start then wrap64 (downloaded + (finish - start)) else downloaded))"

definition computeFileDownloaded :: "Bitfield option \<Rightarrow> int \<Rightarrow> int \<Rightarrow> int \<Rightarrow> int \<Rightarrow> int \<Rightarrow> int" where
  "computeFileDownloaded bfo offset len pieceLength totalBytes numPieces =
     (case bfo of
        None \<Rightarrow> 0
      | Some bf \<Rightarrow>
          if len \<le> 0 \<or> pieceLength \<le> 0 then 0
          else
            (let fileEnd = wrap64 (offset + len);
                 firstPiece = go_div offset pieceLength;
                 lastPiece0 = go_div (fileEnd - 1) pieceLength;
                 lastPiece = (if lastPiece0 \<ge> numPieces then numPieces - 1 else lastPiece0)
             in foldl (downloadStep bf offset fileEnd pieceLength totalBytes) 0 [firstPiece..lastPiece]))"

section \<open>Where a byte of the torrent lies\<close>

definition file_start :: "File list \<Rightarrow> nat \<Rightarrow> int" where
  "file_start files j = sum_list (map f_Length (take j files))"

definition in_file :: "File list \<Rightarrow> nat \<Rightarrow> int \<Rightarrow> bool" where
  "in_file files j b \<longleftrightarrow> j < length files \<and> file_start files j \<le> b \<and> b < file_start files j + f_Length (files ! j)"

definition sizes_ok :: "File list \<Rightarrow> bool" where
  "sizes_ok files \<longleftrightarrow> (\<forall>f\<in>set files. 0 \<le> f_Length f) \<and> sum_list (map f_Length files) \<le> max_int64"

lemma file_start_0 [simp]: "file_start files 0 = 0"
  by (simp add: file_start_def)

lemma file_start_Suc: "j < length files \<Longrightarrow> file_start files (Suc j) = file_start files j + f_Length (files ! j)"
  by (simp add: file_start_def take_Suc_conv_app_nth)

lemma file_start_length: "file_start files (length files) = sum_list (map f_Length files)"
  by (simp add: file_start_def)

lemma file_start_mono:
  assumes "sizes_ok files" "i \<le> j" "j \<le> length files"
  shows "file_start files i \<le> file_start files j"
  using assms(2,3)
proof (induction rule: dec_induct)
  case (step n)
  moreover have "0 \<le> f_Length (files ! n)" using assms(1) step by (simp add: sizes_ok_def)
  ultimately show ?case by (simp add: file_start_Suc)
qed simp

lemma file_start_range: "sizes_ok files \<Longrightarrow> j \<le> length files \<Longrightarrow> 0 \<le> file_start files j \<and> file_start files j \<le> max_int64"
  using file_start_mono [of files 0 j] file_start_mono [of files j "length files"]
  by (simp add: file_start_length sizes_ok_def)

lemma in_file_exists: "0 \<le> b \<Longrightarrow> b < file_start files n \<Longrightarrow> n \<le> length files \<Longrightarrow> \<exists>j. in_file files j b"
proof (induction n)
  case (Suc n)
  show ?case
  proof (cases "b < file_start files n")
    case True
    then show ?thesis using Suc.IH Suc.prems by simp
  next
    case False
    then have "in_file files n b" using Suc.prems by (simp add: in_file_def file_start_Suc)
    then show ?thesis ..
  qed
qed simp

lemma in_file_unique:
  assumes "sizes_ok files" "in_file files i b" "in_file files j b"
  shows "i = j"
proof (rule ccontr)
  have *: False if "in_file files i b" "in_file files j b" "i < j" for i j
    using file_start_mono [OF assms(1), of "Suc i" j] that by (auto simp: in_file_def file_start_Suc)
  assume "i \<noteq> j"
  then show False using * [of i j] * [of j i] assms(2,3) by linarith
qed

section \<open>The mask, byte by byte\<close>

lemma nth_buildRanges:
  assumes "sizes_ok files"
  shows "k \<le> length files \<Longrightarrow> j < length files - k \<Longrightarrow>
    buildRanges prios k (file_start files k) (drop k files) ! j =
      \<lparr>fr_start = file_start files (k + j), fr_end = file_start files (Suc (k + j)),
       fr_skip = (k + j < length prios \<and> prios ! (k + j) = PrioritySkip)\<rparr>"
proof (induction j arbitrary: k)
  case 0
  then have d: "drop k files = files ! k # drop (Suc k) files" by (simp add: Cons_nth_drop_Suc)
  have "wrap64 (file_start files k + f_Length (files ! k)) = file_start files (Suc k)"
    using 0 file_start_range [OF assms, of "Suc k"] by (simp add: file_start_Suc wrap64_range)
  then show ?case using 0 by (simp add: d)
next
  case (Suc j)
  then have d: "drop k files = files ! k # drop (Suc k) files" by (simp add: Cons_nth_drop_Suc)
  have "wrap64 (file_start files k + f_Length (files ! k)) = file_start files (Suc k)"
    using Suc file_start_range [OF assms, of "Suc k"] by (simp add: file_start_Suc wrap64_range)
  then show ?case using Suc.IH [of "Suc k"] Suc.prems by (simp add: d)
qed

lemma length_buildRanges [simp]: "length (buildRanges prios k off files) = length files"
  by (induction files arbitrary: k off) auto

definition skipped_file :: "int list \<Rightarrow> nat \<Rightarrow> bool" where
  "skipped_file prios j \<longleftrightarrow> j < length prios \<and> prios ! j = PrioritySkip"

lemma set_buildRanges:
  assumes "sizes_ok files"
  shows "set (buildRanges prios 0 0 files) =
    (\<lambda>j. \<lparr>fr_start = file_start files j, fr_end = file_start files (Suc j), fr_skip = skipped_file prios j\<rparr>) `
      {..<length files}"
proof -
  have "buildRanges prios 0 0 files ! j =
      \<lparr>fr_start = file_start files j, fr_end = file_start files (Suc j), fr_skip = skipped_file prios j\<rparr>"
    if "j < length files" for j
    using nth_buildRanges [OF assms, of 0 j] that by (simp add: skipped_file_def)
  then show ?thesis by (force simp: set_conv_nth)
qed

lemma scanRanges_result:
  "scanRanges rs ps pe cov = (c, a) \<Longrightarrow> c \<and> a \<longleftrightarrow>
     (cov \<or> (\<exists>r\<in>set rs. ps < fr_end r \<and> fr_start r < pe)) \<and>
     (\<forall>r\<in>set rs. ps < fr_end r \<and> fr_start r < pe \<longrightarrow> fr_skip r)"
  by (induction rs arbitrary: cov) (auto split: if_splits)

definition piece_bytes :: "int \<Rightarrow> int \<Rightarrow> nat \<Rightarrow> int set" where
  "piece_bytes pl tot i = {int i * pl..<min (int i * pl + pl) tot}"

lemma skipPiece_iff:
  assumes "sizes_ok files" "0 < pl" "int i * pl + pl \<le> max_int64"
  shows "skipPiece (buildRanges prios 0 0 files) pl tot i \<longleftrightarrow> piece_bytes pl tot i \<noteq> {} \<and>
    (\<exists>j<length files. int i * pl < file_start files (Suc j) \<and> file_start files j < min (int i * pl + pl) tot) \<and>
    (\<forall>j<length files. int i * pl < file_start files (Suc j) \<and> file_start files j < min (int i * pl + pl) tot \<longrightarrow>
       skipped_file prios j)"
proof -
  have w: "wrap64 (int i * pl) = int i * pl" "wrap64 (int i * pl + pl) = int i * pl + pl"
    using assms(2,3) by (simp_all add: wrap64_range)
  have m: "(if int i * pl + pl > tot then tot else int i * pl + pl) = min (int i * pl + pl) tot" by simp
  obtain c a where s: "scanRanges (buildRanges prios 0 0 files) (int i * pl) (min (int i * pl + pl) tot) False = (c, a)"
    by fastforce
  have "skipPiece (buildRanges prios 0 0 files) pl tot i \<longleftrightarrow> int i * pl < min (int i * pl + pl) tot \<and> c \<and> a"
    unfolding skipPiece_def Let_def w m s by auto
  also have "c \<and> a \<longleftrightarrow>
    (\<exists>j<length files. int i * pl < file_start files (Suc j) \<and> file_start files j < min (int i * pl + pl) tot) \<and>
    (\<forall>j<length files. int i * pl < file_start files (Suc j) \<and> file_start files j < min (int i * pl + pl) tot \<longrightarrow>
       skipped_file prios j)"
    using scanRanges_result [OF s] unfolding set_buildRanges [OF assms(1)] bex_simps ball_simps fileRange.simps
    by (simp add: Bex_def Ball_def)
  also have "int i * pl < min (int i * pl + pl) tot \<longleftrightarrow> piece_bytes pl tot i \<noteq> {}"
    by (simp add: piece_bytes_def)
  finally show ?thesis .
qed

lemma skipPiece_bytes:
  assumes "sizes_ok files" "0 < pl" "int i * pl + pl \<le> max_int64" "tot \<le> sum_list (map f_Length files)"
  shows "skipPiece (buildRanges prios 0 0 files) pl tot i \<Longrightarrow>
      piece_bytes pl tot i \<noteq> {} \<and> (\<forall>b\<in>piece_bytes pl tot i. \<exists>j. in_file files j b \<and> skipped_file prios j)"
    and "\<lbrakk>\<forall>f\<in>set files. 0 < f_Length f; piece_bytes pl tot i \<noteq> {};
       \<forall>b\<in>piece_bytes pl tot i. \<exists>j. in_file files j b \<and> skipped_file prios j\<rbrakk> \<Longrightarrow>
      skipPiece (buildRanges prios 0 0 files) pl tot i"
proof -
  let ?ps = "int i * pl" and ?pe = "min (int i * pl + pl) tot"
  have ex: "\<exists>j. in_file files j b" if "b \<in> piece_bytes pl tot i" for b
  proof (rule in_file_exists [of b files "length files"])
    have "0 \<le> ?ps" "?ps \<le> b" using assms(2) that by (simp_all add: piece_bytes_def)
    then show "0 \<le> b" by (rule order_trans)
    show "b < file_start files (length files)"
      using that assms(4) by (simp add: piece_bytes_def file_start_length)
  qed simp
  have ov: "?ps < file_start files (Suc j) \<and> file_start files j < ?pe" if "in_file files j b" "b \<in> piece_bytes pl tot i" for j b
    using that by (auto simp: in_file_def piece_bytes_def file_start_Suc)
  {
    assume "skipPiece (buildRanges prios 0 0 files) pl tot i"
    then have "piece_bytes pl tot i \<noteq> {}"
      "\<forall>j<length files. ?ps < file_start files (Suc j) \<and> file_start files j < ?pe \<longrightarrow> skipped_file prios j"
      using skipPiece_iff [OF assms(1-3)] by blast+
    then show "piece_bytes pl tot i \<noteq> {} \<and> (\<forall>b\<in>piece_bytes pl tot i. \<exists>j. in_file files j b \<and> skipped_file prios j)"
      using ex ov by (meson in_file_def)
  }
  assume pos: "\<forall>f\<in>set files. 0 < f_Length f" and ne: "piece_bytes pl tot i \<noteq> {}"
    and all: "\<forall>b\<in>piece_bytes pl tot i. \<exists>j. in_file files j b \<and> skipped_file prios j"
  obtain b where b: "b \<in> piece_bytes pl tot i" using ne by blast
  obtain j where "in_file files j b" using ex [OF b] by blast
  then have cov: "\<exists>j<length files. ?ps < file_start files (Suc j) \<and> file_start files j < ?pe"
    using ov b by (meson in_file_def)
  have "skipped_file prios j" if j: "j < length files" "?ps < file_start files (Suc j)" "file_start files j < ?pe" for j
  proof -
    define b where "b = max ?ps (file_start files j)"
    have "0 < f_Length (files ! j)" using pos j(1) by simp
    then have "in_file files j b" "b \<in> piece_bytes pl tot i"
      using j ne by (auto simp: b_def in_file_def file_start_Suc piece_bytes_def max_def)
    then show ?thesis using all in_file_unique [OF assms(1)] by metis
  qed
  then show "skipPiece (buildRanges prios 0 0 files) pl tot i"
    using skipPiece_iff [OF assms(1-3)] ne cov by blast
qed

section \<open>Counting bytes\<close>

lemma HasPiece_foldl:
  "n \<le> 8 * length b \<Longrightarrow>
     length (foldl (\<lambda>bf i. if P i then snd (SetPiece bf (int i)) else bf) b [0..<n]) = length b \<and>
     (HasPiece (foldl (\<lambda>bf i. if P i then snd (SetPiece bf (int i)) else bf) b [0..<n]) j \<longleftrightarrow>
        HasPiece b j \<or> (0 \<le> j \<and> j < int n \<and> P (nat j)))"
proof (induction n)
  case (Suc n)
  have "j < int (Suc n) \<longleftrightarrow> j < int n \<or> j = int n" by auto
  then show ?case using Suc by (auto simp: HasPiece_SetPiece)
qed auto

lemma no_pieces [simp]: "\<not> HasPiece (replicate n 0) j"
  by (simp add: HasPiece_iff)

lemma div_bounds: "0 < (p :: int) \<Longrightarrow> x div p * p \<le> x" "0 < p \<Longrightarrow> x < x div p * p + p"
proof -
  assume "0 < p"
  then have "x = x div p * p + x mod p" "0 \<le> x mod p" "x mod p < p" by simp_all
  then show "x div p * p \<le> x" "x < x div p * p + p" by linarith+
qed

definition got_bytes :: "Bitfield \<Rightarrow> int \<Rightarrow> int \<Rightarrow> int \<Rightarrow> int \<Rightarrow> int set" where
  "got_bytes bf pl tot lo hi = {b. lo \<le> b \<and> b < hi \<and> b < tot \<and> HasPiece bf (b div pl)}"

lemma finite_got_bytes [simp]: "finite (got_bytes bf pl tot lo hi)"
  by (rule finite_subset [of _ "{lo..<hi}"]) (auto simp: got_bytes_def)

lemma card_got_bytes_le: "card (got_bytes bf pl tot lo hi) \<le> nat (hi - lo)"
proof -
  have "card (got_bytes bf pl tot lo hi) \<le> card {lo..<hi}"
    by (rule card_mono) (auto simp: got_bytes_def)
  then show ?thesis by simp
qed

lemma got_bytes_split:
  "lo \<le> m \<Longrightarrow> m \<le> hi \<Longrightarrow> card (got_bytes bf pl tot lo hi) = card (got_bytes bf pl tot lo m) + card (got_bytes bf pl tot m hi)"
proof -
  assume "lo \<le> m" "m \<le> hi"
  then have "got_bytes bf pl tot lo hi = got_bytes bf pl tot lo m \<union> got_bytes bf pl tot m hi"
    by (auto simp: got_bytes_def)
  moreover have "got_bytes bf pl tot lo m \<inter> got_bytes bf pl tot m hi = {}" by (auto simp: got_bytes_def)
  ultimately show ?thesis by (simp add: card_Un_disjoint)
qed

lemma got_bytes_piece:
  assumes "0 < pl" "i * pl \<le> lo" "hi \<le> i * pl + pl"
  shows "int (card (got_bytes bf pl tot lo hi)) = (if HasPiece bf i then max 0 (min hi tot - lo) else 0)"
proof -
  have d: "b div pl = i" if "lo \<le> b" "b < hi" for b
  proof (rule int_div_pos_eq [of _ _ _ "b - i * pl"])
    show "b = pl * i + (b - i * pl)" by simp
  qed (use that assms in auto)
  show ?thesis
  proof (cases "HasPiece bf i")
    case True
    then have "got_bytes bf pl tot lo hi = {lo..<min hi tot}" using d by (auto simp: got_bytes_def)
    then show ?thesis using True by (auto simp: max_def)
  next
    case False
    then have "got_bytes bf pl tot lo hi = {}" using d by (auto simp: got_bytes_def)
    then show ?thesis using False by simp
  qed
qed

text \<open>Up to piece \<open>i\<close> the loop has counted the bytes of the file before the end of that piece.\<close>

lemma downloadStep_counts:
  assumes "0 < pl" "0 \<le> i" "i * pl + pl \<le> max_int64" "0 \<le> off" "off < i * pl + pl" "i * pl < fe"
    and "off < fe" "fe \<le> max_int64"
  shows "downloadStep bf off fe pl tot (int (card (got_bytes bf pl tot off (i * pl)))) i =
    int (card (got_bytes bf pl tot off (min fe (i * pl + pl))))"
proof -
  let ?lo = "max off (i * pl)" and ?hi = "min fe (i * pl + pl)"
  let ?n = "card (got_bytes bf pl tot off (i * pl))"
  have pos: "0 \<le> i * pl" using assms(1,2) by simp
  have w: "wrap64 (i * pl) = i * pl" "wrap64 (i * pl + pl) = i * pl + pl"
    using pos assms(1,3) by (simp_all add: wrap64_range)
  have split: "card (got_bytes bf pl tot off ?hi) = ?n + card (got_bytes bf pl tot ?lo ?hi)"
  proof (cases "i * pl \<le> off")
    case True
    then have "got_bytes bf pl tot off (i * pl) = {}" by (auto simp: got_bytes_def)
    then show ?thesis using True by (simp add: max_def)
  next
    case False
    then show ?thesis using got_bytes_split [of off "i * pl" ?hi bf pl tot] assms(1,6) by (simp add: max_def)
  qed
  have piece: "int (card (got_bytes bf pl tot ?lo ?hi)) = (if HasPiece bf i then max 0 (min ?hi tot - ?lo) else 0)"
    using assms(1) by (intro got_bytes_piece) auto
  have le: "int ?n + int (card (got_bytes bf pl tot ?lo ?hi)) \<le> max_int64"
    using card_got_bytes_le [of bf pl tot off ?hi] split assms(4,7,8) by linarith
  have s: "(if i * pl < off then off else i * pl) = ?lo" "(if (if i * pl + pl > tot then tot else i * pl + pl) > fe then fe else
      (if i * pl + pl > tot then tot else i * pl + pl)) = min ?hi tot" by auto
  show ?thesis
  proof (cases "HasPiece bf i")
    case False
    then show ?thesis using split piece by (simp add: downloadStep_def)
  next
    case True
    then have "downloadStep bf off fe pl tot (int ?n) i =
        (if min ?hi tot > ?lo then wrap64 (int ?n + (min ?hi tot - ?lo)) else int ?n)"
      by (simp only: downloadStep_def Let_def w s if_False not_True_eq_False)
    also have "\<dots> = int ?n + int (card (got_bytes bf pl tot ?lo ?hi))"
    proof -
      define X L where "X = min ?hi tot" and "L = ?lo"
      have "int (card (got_bytes bf pl tot ?lo ?hi)) = max 0 (X - L)" using piece True by (simp only: X_def L_def if_True)
      then show ?thesis using le wrap64_range [of "int ?n + (X - L)"]
        unfolding X_def [symmetric] L_def [symmetric] by (cases "L < X") simp_all
    qed
    finally show ?thesis using split by simp
  qed
qed

lemma downloadLoop_counts:
  assumes "0 < pl" "0 \<le> off" "off < fe" "fe \<le> max_int64" "f = off div pl" "f - 1 \<le> l" "l * pl < fe" "l * pl + pl \<le> max_int64"
  shows "foldl (downloadStep bf off fe pl tot) 0 [f..l] = int (card (got_bytes bf pl tot off (min fe (l * pl + pl))))"
  using assms(6-8)
proof (induction l rule: int_ge_induct)
  case base
  have "(f - 1) * pl + pl \<le> off"
    using div_bounds(1) [OF assms(1), of off] unfolding assms(5) by (simp add: left_diff_distrib)
  then have "got_bytes bf pl tot off (min fe ((f - 1) * pl + pl)) = {}" by (auto simp: got_bytes_def)
  then show ?case by simp
next
  case (step l)
  have f: "0 \<le> f" using assms(1,2,5) by (simp add: pos_imp_zdiv_nonneg_iff)
  have e: "(l + 1) * pl = l * pl + pl" by (simp add: algebra_simps)
  have "off < (l + 1) * pl + pl"
  proof -
    have "f * pl \<le> (l + 1) * pl" using step.hyps assms(1) by simp
    then show ?thesis using div_bounds(2) [OF assms(1), of off] unfolding assms(5) by linarith
  qed
  moreover have "foldl (downloadStep bf off fe pl tot) 0 [f..l] = int (card (got_bytes bf pl tot off ((l + 1) * pl)))"
    using step assms(1) by (simp add: e)
  moreover have "[f..l + 1] = [f..l] @ [l + 1]" using step.hyps by (simp add: upto_rec2)
  ultimately show ?case
    using downloadStep_counts [of pl "l + 1" off fe bf tot] step f assms by simp
qed

lemma computeFileDownloaded_counts:
  assumes "0 < pl" "0 \<le> off" "0 \<le> len" "off + len \<le> tot" "tot \<le> n * pl" "n * pl \<le> max_int64"
  shows "computeFileDownloaded (Some bf) off len pl tot n = int (card (got_bytes bf pl tot off (off + len)))"
proof (cases "len = 0")
  case True
  then have "got_bytes bf pl tot off (off + len) = {}" by (auto simp: got_bytes_def)
  with True show ?thesis by (simp add: computeFileDownloaded_def)
next
  case False
  let ?l = "(off + len - 1) div pl"
  have w: "wrap64 (off + len) = off + len" using assms by (simp add: wrap64_range)
  have l: "?l * pl \<le> off + len - 1" "off + len - 1 < ?l * pl + pl"
    by (rule div_bounds [OF assms(1)])+
  have n: "?l < n" using l(1) assms(1,4,5) by (smt (verit) mult_le_cancel_right)
  then have "(?l + 1) * pl \<le> n * pl" using assms(1) by simp
  then have "?l * pl + pl \<le> max_int64" using assms(6) by (simp add: algebra_simps)
  moreover have "off div pl - 1 \<le> ?l" using False assms(1,3) by (smt (verit) zdiv_mono1)
  ultimately have "foldl (downloadStep bf off (off + len) pl tot) 0 [off div pl..?l] =
      int (card (got_bytes bf pl tot off (min (off + len) (?l * pl + pl))))"
    using assms l False by (intro downloadLoop_counts) auto
  moreover have "min (off + len) (?l * pl + pl) = off + len" using l(2) by simp
  ultimately show ?thesis
    using False assms n w by (simp add: computeFileDownloaded_def Let_def)
qed

section \<open>The file list of a session\<close>

record FileEntry =
  en_Path :: bytes
  en_Length :: int
  en_Downloaded :: int
  en_Priority :: int

definition priorityOf :: "int list \<Rightarrow> nat \<Rightarrow> int" where
  "priorityOf prios i = (if i < length prios then prios ! i else PriorityNormal)"

primrec filesLoop :: "Bitfield option \<Rightarrow> int list \<Rightarrow> int \<Rightarrow> int \<Rightarrow> int \<Rightarrow> nat \<Rightarrow> int \<Rightarrow> File list \<Rightarrow> FileEntry list" where
  "filesLoop bf prios pieceLength totalBytes numPieces i offset [] = []"
| "filesLoop bf prios pieceLength totalBytes numPieces i offset (f # fs) =
     \<lparr>en_Path = Join (f_Path f), en_Length = f_Length f,
      en_Downloaded = computeFileDownloaded bf offset (f_Length f) pieceLength totalBytes numPieces,
      en_Priority = priorityOf prios i\<rparr> #
     filesLoop bf prios pieceLength totalBytes numPieces (Suc i) (wrap64 (offset + f_Length f)) fs"

text \<open>
  \<open>Session.Files\<close>: the torrent is the resolved one, or else parsed from the stored data; the bitfield
  is the live one, or else the stored one.
\<close>

definition session_Files :: "TorrentFile option \<Rightarrow> bytes \<Rightarrow> Bitfield option \<Rightarrow> bytes \<Rightarrow> int list \<Rightarrow> FileEntry list" where
  "session_Files tfo data haveBF recordBF prios =
     (let bf = (case haveBF of Some b \<Rightarrow> Some b | None \<Rightarrow> if recordBF = [] then None else Some recordBF);
          tfo' = (case tfo of
                    Some tf \<Rightarrow> Some tf
                  | None \<Rightarrow> if data = [] then None else (case Parse data of Inl e \<Rightarrow> None | Inr tf \<Rightarrow> Some tf))
      in case tfo' of
           None \<Rightarrow> []
         | Some tf \<Rightarrow>
             (let info = tf_Info tf; numPieces = int (length (PieceHashes info)); tot = TotalSize tf
              in if Files info = []
                 then [\<lparr>en_Path = Name info, en_Length = i_Length info,
                        en_Downloaded = computeFileDownloaded bf 0 (i_Length info) (PieceLength info) tot numPieces,
                        en_Priority = priorityOf prios 0\<rparr>]
                 else filesLoop bf prios (PieceLength info) tot numPieces 0 0 (Files info)))"

section \<open>Completed files\<close>

text \<open>The inner loop of \<open>popCount\<close>: clear the lowest set bit until none is left.\<close>

function popByte :: "byte \<Rightarrow> nat \<Rightarrow> nat" where
  "popByte b n = (if b = 0 then n else popByte (b AND (b - 1)) (n + 1))"
  by auto
termination
proof (relation "measure (\<lambda>(b, n). unat b)")
  fix b :: byte and n :: nat
  assume "b \<noteq> 0"
  then have "unat (b - 1) < unat b" by (simp add: unat_minus_one unat_gt_0)
  moreover have "unat (b AND (b - 1)) \<le> unat (b - 1)" using word_and_le1 [of b "b - 1"] by (simp only: word_le_nat_alt)
  ultimately show "((b AND (b - 1), n + 1), b, n) \<in> measure (\<lambda>(b, n). unat b)" by simp
qed simp

declare popByte.simps [simp del]

definition popCount :: "Bitfield \<Rightarrow> nat" where
  "popCount bf = foldl (\<lambda>n b. popByte b n) 0 bf"

record fileRangeEntry =
  fre_index :: nat
  fre_path :: bytes
  fre_size :: int
  fre_firstPiece :: int
  fre_lastPiece :: int

definition rangeFor :: "int \<Rightarrow> int \<Rightarrow> int \<Rightarrow> int \<Rightarrow> int \<times> int" where
  "rangeFor pieceLen numPieces start len =
     (if len \<le> 0
      then (let first0 = go_div start pieceLen;
                first = (if first0 \<ge> numPieces then numPieces - 1 else first0)
            in (first, first))
      else (let last0 = go_div (wrap64 (start + len) - 1) pieceLen
            in (go_div start pieceLen, if last0 \<ge> numPieces then numPieces - 1 else last0)))"

primrec fileRangesLoop :: "int \<Rightarrow> int \<Rightarrow> nat \<Rightarrow> int \<Rightarrow> File list \<Rightarrow> fileRangeEntry list" where
  "fileRangesLoop pieceLen numPieces i offset [] = []"
| "fileRangesLoop pieceLen numPieces i offset (f # fs) =
     (let (first, last) = rangeFor pieceLen numPieces offset (f_Length f)
      in \<lparr>fre_index = i, fre_path = Join (f_Path f), fre_size = f_Length f, fre_firstPiece = first, fre_lastPiece = last\<rparr>) #
     fileRangesLoop pieceLen numPieces (Suc i) (wrap64 (offset + f_Length f)) fs"

definition computeFileRanges :: "TorrentFile \<Rightarrow> fileRangeEntry list" where
  "computeFileRanges tf =
     (let info = tf_Info tf; pieceLen = PieceLength info; numPieces = int (length (PieceHashes info))
      in if pieceLen \<le> 0 then []
         else if numPieces \<le> 0 then []
         else if Files info = []
         then (let (first, last) = rangeFor pieceLen numPieces 0 (i_Length info)
               in [\<lparr>fre_index = 0, fre_path = Name info, fre_size = i_Length info,
                    fre_firstPiece = first, fre_lastPiece = last\<rparr>])
         else fileRangesLoop pieceLen numPieces 0 0 (Files info))"

definition rangeComplete :: "Bitfield \<Rightarrow> fileRangeEntry \<Rightarrow> bool" where
  "rangeComplete bf fr \<longleftrightarrow> list_all (HasPiece bf) [fre_firstPiece fr..fre_lastPiece fr]"

primrec collectLoop :: "Bitfield \<Rightarrow> fileRangeEntry list \<Rightarrow> nat set \<Rightarrow> fileRangeEntry list \<times> nat set" where
  "collectLoop bf [] completed = ([], completed)"
| "collectLoop bf (fr # frs) completed =
     (if fre_index fr \<in> completed then collectLoop bf frs completed
      else if \<not> rangeComplete bf fr then collectLoop bf frs completed
      else (case collectLoop bf frs (insert (fre_index fr) completed) of
              (done, completed') \<Rightarrow> (fr # done, completed')))"

definition collectNewlyCompletedFiles ::
  "fileRangeEntry list \<Rightarrow> Bitfield \<Rightarrow> nat set \<Rightarrow> fileRangeEntry list \<times> nat set"
where
  "collectNewlyCompletedFiles ranges bf completed =
     (if ranges = [] \<or> bf = [] then ([], completed) else collectLoop bf ranges completed)"

text \<open>What \<open>phaseDownload\<close> starts with: the files a resumed bitfield already completes.\<close>

definition seedCompleted :: "fileRangeEntry list \<Rightarrow> Bitfield option \<Rightarrow> nat set" where
  "seedCompleted ranges haveBitfield =
     (case haveBitfield of
        None \<Rightarrow> {}
      | Some bf \<Rightarrow> fre_index ` set (filter (rangeComplete bf) ranges))"

datatype piece_event =
    PieceComplete int nat nat
  | FileCompleted nat bytes int

record have_state =
  uploadBF :: Bitfield
  recordBitfield :: bytes
  completedFiles :: "nat set"

text \<open>The \<open>OnPiece\<close> callback, with the events it publishes.\<close>

definition onPiece :: "fileRangeEntry list \<Rightarrow> nat \<Rightarrow> have_state \<Rightarrow> int \<Rightarrow> piece_event list \<times> have_state" where
  "onPiece fileRanges numPieces s index =
     (let bf = snd (SetPiece (uploadBF s) index);
          (newlyDone, completed) = collectNewlyCompletedFiles fileRanges bf (completedFiles s)
      in (PieceComplete index (popCount bf) numPieces #
            map (\<lambda>fr. FileCompleted (fre_index fr) (fre_path fr) (fre_size fr)) newlyDone,
          \<lparr>uploadBF = bf, recordBitfield = bf, completedFiles = completed\<rparr>))"

primrec onPieces :: "fileRangeEntry list \<Rightarrow> nat \<Rightarrow> have_state \<Rightarrow> int list \<Rightarrow> piece_event list \<times> have_state" where
  "onPieces frs n s [] = ([], s)"
| "onPieces frs n s (i # is) =
     (case onPiece frs n s i of (ev, s') \<Rightarrow> case onPieces frs n s' is of (evs, s'') \<Rightarrow> (ev @ evs, s''))"

section \<open>Counting bits\<close>

lemma clear_lowest_bit:
  fixes b :: "'a::len word"
  assumes "bit b k" "\<And>i. i < k \<Longrightarrow> \<not> bit b i"
  shows "b AND (b - 1) = unset_bit k b"
proof -
  let ?a = "unset_bit k b"
  have k: "k < LENGTH('a)" using assms(1) by (rule bit_imp_le_length)
  have "b = ?a OR push_bit k 1"
    using assms(1) k by (intro bit_word_eqI) (auto simp: bit_simps)
  also have "\<dots> = ?a + push_bit k 1"
    by (rule disjunctive_add [symmetric]) (auto simp: bit_simps)
  finally have "b - 1 = ?a + (push_bit k 1 - 1)" by simp
  also have "push_bit k 1 - 1 = (mask k :: 'a word)"
    by (simp add: mask_eq_exp_minus_1 push_bit_eq_mult)
  also have "?a + mask k = ?a OR mask k"
    by (rule disjunctive_add) (use assms(2) in \<open>auto simp: bit_simps\<close>)
  finally show ?thesis
    using assms(2) by (intro bit_word_eqI) (auto simp: bit_simps)
qed

lemma popByte_card: "popByte b n = n + card {i. bit b i}"
proof (induction b n rule: popByte.induct)
  case (1 b n)
  show ?case
  proof (cases "b = 0")
    case True
    then show ?thesis by (simp add: popByte.simps)
  next
    case False
    then obtain j where "bit b j" by (metis bit_0_eq bit_word_eqI bot_apply bot_bool_def)
    define k where "k = (LEAST i. bit b i)"
    have k: "bit b k" unfolding k_def using \<open>bit b j\<close> by (rule LeastI)
    have "\<not> bit b i" if "i < k" for i using that unfolding k_def by (rule not_less_Least)
    then have "b AND (b - 1) = unset_bit k b" by (rule clear_lowest_bit [OF k])
    moreover have "{i. bit (unset_bit k b) i} = {i. bit b i} - {k}"
      using bit_imp_le_length by (auto simp: bit_simps)
    moreover have "card {i. bit b i} = Suc (card ({i. bit b i} - {k}))"
      using k by (intro card.remove [THEN trans]) (auto intro: finite_subset [of _ "{..<8}"] dest: bit_imp_le_length)
    ultimately show ?thesis using 1 False by (simp add: popByte.simps [of b])
  qed
qed

lemma HasPiece_Cons: "HasPiece (b # bf) i \<longleftrightarrow> (0 \<le> i \<and> i < 8 \<and> bit b (7 - nat i)) \<or> HasPiece bf (i - 8)"
proof -
  consider "i < 0" | "0 \<le> i" "i < 8" | "8 \<le> i" by linarith
  then show ?thesis
  proof cases
    case 3
    define j where "j = i - 8"
    have "(j + 8) div 8 = j div 8 + 1" "(j + 8) mod 8 = j mod 8" by simp_all
    then have "i div 8 = (i - 8) div 8 + 1" "i mod 8 = (i - 8) mod 8" by (simp_all add: j_def)
    moreover have "0 \<le> (i - 8) div 8" using 3 by simp
    ultimately have "nat (i div 8) = Suc (nat ((i - 8) div 8))" "i mod 8 = (i - 8) mod 8"
      by (simp_all only: nat_add_distrib nat_one_as_int [symmetric] Suc_eq_plus1)
    then show ?thesis using 3 by (auto simp: HasPiece_iff)
  qed (auto simp: HasPiece_iff)
qed

lemma card_HasPiece_Cons: "card {i. HasPiece (b # bf) i} = card {i. bit b i} + card {i. HasPiece bf i}"
proof -
  let ?f = "\<lambda>k. 7 - int k"
  have bits: "k < 8" if "bit b k" for k using bit_imp_le_length [OF that] by simp
  have "{i. HasPiece (b # bf) i} = ?f ` {k. bit b k} \<union> (\<lambda>i. i + 8) ` {i. HasPiece bf i}"
  proof -
    have "(0 \<le> i \<and> i < 8 \<and> bit b (7 - nat i)) \<longleftrightarrow> i \<in> ?f ` {k. bit b k}" for i
    proof
      assume "0 \<le> i \<and> i < 8 \<and> bit b (7 - nat i)"
      then show "i \<in> ?f ` {k. bit b k}" by (intro image_eqI [of _ _ "7 - nat i"]) auto
    next
      assume "i \<in> ?f ` {k. bit b k}"
      then obtain k where "bit b k" "i = 7 - int k" by blast
      moreover from this have "nat i = 7 - k" "k < 8" using bits by auto
      ultimately show "0 \<le> i \<and> i < 8 \<and> bit b (7 - nat i)" by auto
    qed
    moreover have "HasPiece bf (i - 8) \<longleftrightarrow> i \<in> (\<lambda>i. i + 8) ` {i. HasPiece bf i}" for i
      by (auto intro: image_eqI [of _ _ "i - 8"])
    ultimately show ?thesis unfolding HasPiece_Cons by blast
  qed
  moreover have "?f ` {k. bit b k} \<inter> (\<lambda>i. i + 8) ` {i. HasPiece bf i} = {}"
    by (auto simp: HasPiece_iff)
  moreover have "finite {k. bit b k}"
  proof (rule finite_subset)
    show "{k. bit b k} \<subseteq> {..<8}" using bits by blast
  qed simp
  moreover have "finite {i. HasPiece bf i}" by (rule bitfield.finite_has)
  ultimately show ?thesis by (simp add: card_Un_disjoint card_image inj_on_def)
qed

lemma popCount_card: "popCount bf = card {i. HasPiece bf i}"
proof -
  have "foldl (\<lambda>n b. popByte b n) n bf = n + card {i. HasPiece bf i}" for n
  proof (induction bf arbitrary: n)
    case Nil
    have "{i. HasPiece [] i} = {}" by (auto simp: HasPiece_iff)
    then show ?case by simp
  next
    case (Cons b bf)
    then show ?case by (simp add: popByte_card card_HasPiece_Cons)
  qed
  then show ?thesis by (simp add: popCount_def)
qed

section \<open>Completed files\<close>

lemma nth_fileRangesLoop:
  assumes "sizes_ok files"
  shows "k \<le> length files \<Longrightarrow> j < length files - k \<Longrightarrow>
    fre_index (fileRangesLoop pl n k (file_start files k) (drop k files) ! j) = k + j \<and>
    (fre_firstPiece (fileRangesLoop pl n k (file_start files k) (drop k files) ! j),
     fre_lastPiece (fileRangesLoop pl n k (file_start files k) (drop k files) ! j)) =
      rangeFor pl n (file_start files (k + j)) (f_Length (files ! (k + j)))"
proof (induction j arbitrary: k)
  case 0
  then have d: "drop k files = files ! k # drop (Suc k) files" by (simp add: Cons_nth_drop_Suc)
  show ?case by (simp add: d split: prod.split)
next
  case (Suc j)
  then have d: "drop k files = files ! k # drop (Suc k) files" by (simp add: Cons_nth_drop_Suc)
  have "wrap64 (file_start files k + f_Length (files ! k)) = file_start files (Suc k)"
    using Suc file_start_range [OF assms, of "Suc k"] by (simp add: file_start_Suc wrap64_range)
  then show ?case using Suc.IH [of "Suc k"] Suc.prems by (simp add: d)
qed

lemma length_fileRangesLoop [simp]: "length (fileRangesLoop pl n k off files) = length files"
  by (induction files arbitrary: k off) auto

lemma rangeFor_bytes:
  assumes "0 < pl" "0 \<le> s" "0 < len" "s + len \<le> n * pl" "n * pl \<le> max_int64" "rangeFor pl n s len = (a, z)"
  shows "(\<forall>p. a \<le> p \<and> p \<le> z \<longrightarrow> Q p) \<longleftrightarrow> (\<forall>b. s \<le> b \<and> b < s + len \<longrightarrow> Q (b div pl))"
proof -
  have w: "wrap64 (s + len) = s + len" using assms by (simp add: wrap64_range)
  have "(s + len - 1) div pl < n"
    using div_bounds(1) [OF assms(1), of "s + len - 1"] assms(1,4) by (smt (verit) mult_le_cancel_right)
  then have az: "a = s div pl" "z = (s + len - 1) div pl"
    using assms(6,1,2,3) by (simp_all add: rangeFor_def w Let_def)
  show ?thesis
  proof (intro iffI allI impI)
    fix b
    assume "\<forall>p. a \<le> p \<and> p \<le> z \<longrightarrow> Q p" "s \<le> b \<and> b < s + len"
    moreover from this have "s div pl \<le> b div pl" "b div pl \<le> (s + len - 1) div pl"
      using assms(1) by (simp_all add: zdiv_mono1)
    ultimately show "Q (b div pl)" by (simp add: az)
  next
    fix p
    assume h: "\<forall>b. s \<le> b \<and> b < s + len \<longrightarrow> Q (b div pl)" and p: "a \<le> p \<and> p \<le> z"
    have "max s (p * pl) div pl = p"
    proof (cases "s \<le> p * pl")
      case True
      then show ?thesis using assms(1) by simp
    next
      case False
      then have "p \<le> s div pl" using assms(1) by (metis less_le_not_le linear mult_div_mod_eq nonzero_mult_div_cancel_right order_less_irrefl zdiv_mono1)
      then show ?thesis using p False by (simp add: az)
    qed
    moreover have "max s (p * pl) < s + len"
    proof -
      have "p * pl \<le> z * pl" using p assms(1) by simp
      then show ?thesis using div_bounds(1) [OF assms(1), of "s + len - 1"] assms(3) unfolding az by linarith
    qed
    ultimately show "Q p" using h [rule_format, of "max s (p * pl)"] by simp
  qed
qed

definition file_complete :: "Bitfield \<Rightarrow> int \<Rightarrow> File list \<Rightarrow> nat \<Rightarrow> bool" where
  "file_complete bf pl files j \<longleftrightarrow> (\<forall>b. in_file files j b \<longrightarrow> HasPiece bf (b div pl))"

lemma rangeComplete_file:
  assumes "sizes_ok files" "0 < pl" "sum_list (map f_Length files) \<le> n * pl" "n * pl \<le> max_int64"
    and "j < length files" "0 < f_Length (files ! j)"
  shows "rangeComplete bf (fileRangesLoop pl n 0 0 files ! j) \<longleftrightarrow> file_complete bf pl files j"
proof -
  let ?fr = "fileRangesLoop pl n 0 0 files ! j"
  have r: "rangeFor pl n (file_start files j) (f_Length (files ! j)) = (fre_firstPiece ?fr, fre_lastPiece ?fr)"
    using nth_fileRangesLoop [OF assms(1), of 0 j pl n] assms(5) by simp
  have "file_start files (Suc j) \<le> sum_list (map f_Length files)"
    using file_start_mono [OF assms(1), of "Suc j" "length files"] assms(5) by (simp add: file_start_length)
  then have e: "file_start files j + f_Length (files ! j) \<le> n * pl"
    using assms(3,5) by (simp add: file_start_Suc)
  have s: "0 \<le> file_start files j" using file_start_range [OF assms(1), of j] assms(5) by simp
  show ?thesis
    using rangeFor_bytes [OF assms(2) s assms(6) e assms(4) r, of "HasPiece bf"] assms(5)
    by (simp add: rangeComplete_def list_all_iff Ball_def file_complete_def in_file_def)
qed

definition file_events :: "piece_event list \<Rightarrow> nat list" where
  "file_events evs = concat (map (\<lambda>e. case e of FileCompleted j p s \<Rightarrow> [j] | PieceComplete i h t \<Rightarrow> []) evs)"

lemma file_events_simps [simp]:
  "file_events [] = []" "file_events (xs @ ys) = file_events xs @ file_events ys"
  "file_events (PieceComplete i h t # xs) = file_events xs"
  "file_events (map (\<lambda>fr. FileCompleted (fre_index fr) (fre_path fr) (fre_size fr)) frs) = map fre_index frs"
  by (auto simp: file_events_def o_def intro: concat_map_singleton)

definition complete_in :: "fileRangeEntry list \<Rightarrow> Bitfield \<Rightarrow> nat set" where
  "complete_in frs bf = fre_index ` {fr \<in> set frs. rangeComplete bf fr}"

lemma collectLoop_result:
  "distinct (map fre_index frs) \<Longrightarrow> collectLoop bf frs C = (done, C') \<Longrightarrow>
     distinct (map fre_index done) \<and> fre_index ` set done = complete_in frs bf - C \<and> C' = C \<union> complete_in frs bf"
proof (induction frs arbitrary: C "done" C')
  case (Cons fr frs)
  have n: "fre_index fr \<notin> complete_in frs bf" using Cons.prems(1) by (auto simp: complete_in_def)
  have c: "complete_in (fr # frs) bf = (if rangeComplete bf fr then insert (fre_index fr) (complete_in frs bf) else complete_in frs bf)"
    by (auto simp: complete_in_def)
  show ?case
  proof (cases "fre_index fr \<in> C \<or> \<not> rangeComplete bf fr")
    case True
    then show ?thesis using Cons.IH [of C "done" C'] Cons.prems c by (auto split: if_splits)
  next
    case False
    then obtain d where d: "collectLoop bf frs (insert (fre_index fr) C) = (d, C')" "done = fr # d"
      using Cons.prems(2) by (auto split: prod.splits)
    then show ?thesis using Cons.IH [OF _ d(1)] Cons.prems(1) False n c by auto
  qed
qed (simp add: complete_in_def)

lemma rangeComplete_mono: "rangeComplete bf fr \<Longrightarrow> rangeComplete (snd (SetPiece bf i)) fr"
  by (auto simp: rangeComplete_def list_all_iff HasPiece_SetPiece)

lemma onPiece_result:
  assumes "distinct (map fre_index frs)" "uploadBF s \<noteq> []" "onPiece frs n s i = (ev, s')"
  shows "uploadBF s' = snd (SetPiece (uploadBF s) i)" "recordBitfield s' = uploadBF s'"
    "distinct (file_events ev)" "set (file_events ev) = complete_in frs (uploadBF s') - completedFiles s"
    "completedFiles s' = completedFiles s \<union> complete_in frs (uploadBF s')"
proof -
  let ?bf = "snd (SetPiece (uploadBF s) i)"
  obtain d C where c: "collectNewlyCompletedFiles frs ?bf (completedFiles s) = (d, C)" by fastforce
  have ne: "?bf \<noteq> []" using assms(2) by (metis length_0_conv length_SetPiece)
  have r: "distinct (map fre_index d) \<and> fre_index ` set d = complete_in frs ?bf - completedFiles s \<and>
      C = completedFiles s \<union> complete_in frs ?bf"
  proof (cases "frs = []")
    case True
    then show ?thesis using c by (auto simp: collectNewlyCompletedFiles_def complete_in_def)
  next
    case False
    then show ?thesis using c ne collectLoop_result [OF assms(1)] by (simp add: collectNewlyCompletedFiles_def)
  qed
  have s': "ev = PieceComplete i (popCount ?bf) n # map (\<lambda>fr. FileCompleted (fre_index fr) (fre_path fr) (fre_size fr)) d"
    "s' = \<lparr>uploadBF = ?bf, recordBitfield = ?bf, completedFiles = C\<rparr>"
    using assms(3) unfolding onPiece_def Let_def c prod.case by (metis prod.inject)+
  show "uploadBF s' = snd (SetPiece (uploadBF s) i)" "recordBitfield s' = uploadBF s'"
    "distinct (file_events ev)" "set (file_events ev) = complete_in frs (uploadBF s') - completedFiles s"
    "completedFiles s' = completedFiles s \<union> complete_in frs (uploadBF s')"
    using r by (simp_all add: s')
qed

lemma complete_in_mono: "complete_in frs bf \<subseteq> complete_in frs (snd (SetPiece bf i))"
  using rangeComplete_mono by (auto simp: complete_in_def)

lemma onPieces_result:
  assumes "distinct (map fre_index frs)" "uploadBF s \<noteq> []" "complete_in frs (uploadBF s) \<subseteq> completedFiles s"
    and "onPieces frs n s is = (evs, s')"
  shows "distinct (file_events evs) \<and> set (file_events evs) = complete_in frs (uploadBF s') - completedFiles s \<and>
    complete_in frs (uploadBF s) \<subseteq> complete_in frs (uploadBF s') \<and>
    (\<forall>j. HasPiece (uploadBF s') j \<longleftrightarrow> HasPiece (uploadBF s) j \<or> (j \<in> set is \<and> 0 \<le> j \<and> j < 8 * int (length (uploadBF s))))"
  using assms(2-)
proof (induction "is" arbitrary: s evs)
  case (Cons i "is")
  obtain ev s1 where p: "onPiece frs n s i = (ev, s1)" by fastforce
  obtain evs' where q: "onPieces frs n s1 is = (evs', s')" "evs = ev @ evs'"
    using Cons.prems(3) by (auto simp: p split: prod.splits)
  note r = onPiece_result [OF assms(1) Cons.prems(1) p]
  have ne: "uploadBF s1 \<noteq> []" using Cons.prems(1) unfolding r(1) by (metis length_0_conv length_SetPiece)
  have m: "complete_in frs (uploadBF s) \<subseteq> complete_in frs (uploadBF s1)" unfolding r(1) by (rule complete_in_mono)
  have IH: "distinct (file_events evs')" "set (file_events evs') = complete_in frs (uploadBF s') - completedFiles s1"
    "complete_in frs (uploadBF s1) \<subseteq> complete_in frs (uploadBF s')"
    "\<forall>j. HasPiece (uploadBF s') j \<longleftrightarrow> HasPiece (uploadBF s1) j \<or> (j \<in> set is \<and> 0 \<le> j \<and> j < 8 * int (length (uploadBF s1)))"
    using Cons.IH [OF ne _ q(1)] r(5) by auto
  have "HasPiece (uploadBF s') j \<longleftrightarrow> HasPiece (uploadBF s) j \<or> (j \<in> set (i # is) \<and> 0 \<le> j \<and> j < 8 * int (length (uploadBF s)))" for j
    using IH(4) by (auto simp: r(1) HasPiece_SetPiece)
  moreover have "distinct (file_events evs)" using r(3,4,5) IH(1,2) by (auto simp: q(2))
  moreover have "set (file_events evs) = complete_in frs (uploadBF s') - completedFiles s"
    using r(4,5) IH(2,3) by (auto simp: q(2))
  ultimately show ?case using m IH(3) by blast
qed simp

lemma fre_index_fileRangesLoop: "map fre_index (fileRangesLoop pl n k off files) = [k..<k + length files]"
  by (induction files arbitrary: k off) (simp_all add: upt_conv_Cons del: upt_Suc split: prod.split)

lemma filesLoop_counts:
  assumes "sizes_ok files" "0 < pl" "sum_list (map f_Length files) = tot" "tot \<le> n * pl" "n * pl \<le> max_int64"
  shows "k \<le> length files \<Longrightarrow> j < length files - k \<Longrightarrow>
    en_Downloaded (filesLoop (Some bf) prios pl tot n k (file_start files k) (drop k files) ! j) =
      int (card {b. in_file files (k + j) b \<and> HasPiece bf (b div pl)})"
proof (induction j arbitrary: k)
  case 0
  then have d: "drop k files = files ! k # drop (Suc k) files" by (simp add: Cons_nth_drop_Suc)
  have f: "file_start files (Suc k) \<le> tot" "0 \<le> file_start files k" "0 \<le> f_Length (files ! k)"
    using file_start_mono [OF assms(1), of "Suc k" "length files"] file_start_range [OF assms(1), of k] 0 assms(1,3)
    by (simp_all add: file_start_length sizes_ok_def)
  then have "computeFileDownloaded (Some bf) (file_start files k) (f_Length (files ! k)) pl tot n =
      int (card (got_bytes bf pl tot (file_start files k) (file_start files k + f_Length (files ! k))))"
    using 0 assms by (intro computeFileDownloaded_counts) (simp_all add: file_start_Suc)
  moreover have "got_bytes bf pl tot (file_start files k) (file_start files k + f_Length (files ! k)) =
      {b. in_file files k b \<and> HasPiece bf (b div pl)}"
    using f(1) 0 by (auto simp: got_bytes_def in_file_def file_start_Suc)
  ultimately show ?case by (simp add: d)
next
  case (Suc j)
  then have d: "drop k files = files ! k # drop (Suc k) files" by (simp add: Cons_nth_drop_Suc)
  have "wrap64 (file_start files k + f_Length (files ! k)) = file_start files (Suc k)"
    using Suc file_start_range [OF assms(1), of "Suc k"] by (simp add: file_start_Suc wrap64_range)
  then show ?case using Suc.IH [of "Suc k"] Suc.prems by (simp add: d)
qed

lemma length_filesLoop [simp]: "length (filesLoop bf prios pl tot n k off files) = length files"
  by (induction files arbitrary: k off) auto

lemma sum_in_files:
  assumes "sizes_ok files" "n \<le> length files"
  shows "(\<Sum>j<n. card {b. in_file files j b \<and> P b}) = card {b. 0 \<le> b \<and> b < file_start files n \<and> P b}"
  using assms(2)
proof (induction n)
  case 0
  have "\<not> (0 \<le> b \<and> b < 0 \<and> P b)" for b :: int by linarith
  then show ?case by (simp only: file_start_0 lessThan_0 sum.empty card.empty empty_def [symmetric] simp_thms)
next
  case (Suc n)
  have fin: "finite {b. 0 \<le> b \<and> b < file_start files n \<and> P b}"
    by (rule finite_subset [of _ "{0..<file_start files n}"]) auto
  have fin2: "finite {b. in_file files n b \<and> P b}"
    by (rule finite_subset [of _ "{file_start files n..<file_start files n + f_Length (files ! n)}"]) (auto simp: in_file_def)
  have "0 \<le> file_start files n" "file_start files n \<le> file_start files (Suc n)"
    using file_start_range [OF assms(1), of n] file_start_mono [OF assms(1), of n "Suc n"] Suc.prems by simp_all
  then have "{b. 0 \<le> b \<and> b < file_start files (Suc n) \<and> P b} =
      {b. 0 \<le> b \<and> b < file_start files n \<and> P b} \<union> {b. in_file files n b \<and> P b}"
    using Suc.prems by (auto simp: in_file_def file_start_Suc)
  moreover have "{b. 0 \<le> b \<and> b < file_start files n \<and> P b} \<inter> {b. in_file files n b \<and> P b} = {}"
    by (auto simp: in_file_def)
  ultimately show ?case using Suc fin fin2 by (simp add: card_Un_disjoint)
qed

section \<open>Properties\<close>

text \<open>
  C24: The skip mask is right byte by byte. A piece is marked only if it has bytes and every one of
  them belongs to a file the user skips, so no byte of a wanted file is lost; and when no file is
  empty, every such piece is marked.
\<close>

theorem skip_mask_exact:
  assumes "sizes_ok files" "files \<noteq> []" "0 < pl" "0 < n" "int n * pl \<le> max_int64" "tot \<le> sum_list (map f_Length files)"
  shows "\<exists>bf. ComputeSkippedPieceMask files prios pl tot n = Some bf \<and> length bf = (n + 7) div 8 \<and>
    (\<forall>i. HasPiece bf i \<longrightarrow> 0 \<le> i \<and> i < int n \<and> piece_bytes pl tot (nat i) \<noteq> {} \<and>
       (\<forall>b\<in>piece_bytes pl tot (nat i). \<exists>j. in_file files j b \<and> skipped_file prios j)) \<and>
    ((\<forall>f\<in>set files. 0 < f_Length f) \<longrightarrow>
       (\<forall>i<n. piece_bytes pl tot i \<noteq> {} \<and> (\<forall>b\<in>piece_bytes pl tot i. \<exists>j. in_file files j b \<and> skipped_file prios j) \<longrightarrow>
          HasPiece bf (int i)))"
proof -
  let ?P = "skipPiece (buildRanges prios 0 0 files) pl tot"
  define bf where "bf = foldl (\<lambda>bf i. if ?P i then snd (SetPiece bf (int i)) else bf) (replicate ((n + 7) div 8) 0) [0..<n]"
  have room: "n \<le> 8 * length (replicate ((n + 7) div 8) (0 :: byte))" by simp
  have bf: "length bf = (n + 7) div 8" "HasPiece bf j \<longleftrightarrow> 0 \<le> j \<and> j < int n \<and> ?P (nat j)" for j
    using HasPiece_foldl [OF room, of ?P j] by (simp_all add: bf_def)
  have le: "int i * pl + pl \<le> max_int64" if "i < n" for i
  proof -
    have "int (Suc i) * pl \<le> int n * pl" using that assms(3) by (intro mult_right_mono) simp_all
    then show ?thesis using assms(5) by (simp add: algebra_simps)
  qed
  note bytes = skipPiece_bytes [OF assms(1,3) le assms(6)]
  have "ComputeSkippedPieceMask files prios pl tot n = Some bf"
    using assms(2,3,4) by (simp add: ComputeSkippedPieceMask_def bf_def)
  moreover have "0 \<le> i \<and> i < int n \<and> piece_bytes pl tot (nat i) \<noteq> {} \<and>
       (\<forall>b\<in>piece_bytes pl tot (nat i). \<exists>j. in_file files j b \<and> skipped_file prios j)" if "HasPiece bf i" for i
  proof -
    have i: "0 \<le> i" "i < int n" "?P (nat i)" "nat i < n" using that unfolding bf(2) by auto
    from bytes(1) [OF i(4,3)] i(1,2) show ?thesis by blast
  qed
  moreover have "HasPiece bf (int i)"
    if "\<forall>f\<in>set files. 0 < f_Length f" "i < n" "piece_bytes pl tot i \<noteq> {}"
      "\<forall>b\<in>piece_bytes pl tot i. \<exists>j. in_file files j b \<and> skipped_file prios j" for i
    using bytes(2) [OF that(2,1,3,4)] that(2) unfolding bf(2) by simp
  ultimately show ?thesis using bf(1) by blast
qed

definition demo_files :: "File list" where
  "demo_files = [\<lparr>f_Length = 5, f_Path = [gostr ''a'']\<rparr>, \<lparr>f_Length = 5, f_Path = [gostr ''b'']\<rparr>]"

lemma demo_in_file: "in_file demo_files j b \<longleftrightarrow> (j = 0 \<and> 0 \<le> b \<and> b < 5) \<or> (j = 1 \<and> 5 \<le> b \<and> b < 10)"
  by (cases j; cases "j - 1") (auto simp: in_file_def demo_files_def file_start_def)

theorem skip_mask_exact_witness:
  "\<exists>bf. ComputeSkippedPieceMask demo_files [0, -1] 4 10 3 = Some bf \<and> length bf = 1 \<and>
    \<not> HasPiece bf 1 \<and> HasPiece bf 2"
proof -
  have p: "piece_bytes 4 10 (nat 1) = {4..<8}" "piece_bytes 4 10 2 = {8..<10}" by (simp_all add: piece_bytes_def)
  have no: "\<not> (\<exists>j. in_file demo_files j 4 \<and> skipped_file [0, -1] j)"
    by (auto simp: demo_in_file skipped_file_def PrioritySkip_def)
  have yes: "\<forall>b\<in>{8..<10}. \<exists>j. in_file demo_files j b \<and> skipped_file [0, -1] j"
    by (auto simp: demo_in_file skipped_file_def PrioritySkip_def intro!: exI [of _ 1])
  have d: "sizes_ok demo_files" "demo_files \<noteq> []" "(0 :: int) < 4" "(0 :: nat) < 3" "int 3 * 4 \<le> max_int64"
    "(10 :: int) \<le> sum_list (map f_Length demo_files)"
    by (simp_all add: sizes_ok_def demo_files_def max_int64_def)
  obtain bf where bf: "ComputeSkippedPieceMask demo_files [0, -1] 4 10 3 = Some bf" "length bf = (3 + 7) div 8"
    "\<forall>i. HasPiece bf i \<longrightarrow> 0 \<le> i \<and> i < int 3 \<and> piece_bytes 4 10 (nat i) \<noteq> {} \<and>
       (\<forall>b\<in>piece_bytes 4 10 (nat i). \<exists>j. in_file demo_files j b \<and> skipped_file [0, -1] j)"
    "(\<forall>f\<in>set demo_files. 0 < f_Length f) \<longrightarrow>
       (\<forall>i<3. piece_bytes 4 10 i \<noteq> {} \<and> (\<forall>b\<in>piece_bytes 4 10 i. \<exists>j. in_file demo_files j b \<and> skipped_file [0, -1] j) \<longrightarrow>
          HasPiece bf (int i))"
    using skip_mask_exact [OF d, of "[0, -1]"] by blast
  have "\<not> HasPiece bf 1"
  proof
    assume "HasPiece bf 1"
    with bf(3) have "\<forall>b\<in>{4..<8}. \<exists>j. in_file demo_files j b \<and> skipped_file [0, -1] j" unfolding p [symmetric] by blast
    then show False using no by (meson atLeastLessThan_iff order_refl numeral_less_iff semiring_norm(76,78))
  qed
  moreover have "HasPiece bf (int 2)"
  proof -
    have "\<forall>f\<in>set demo_files. 0 < f_Length f" "(2 :: nat) < 3" "piece_bytes 4 10 2 \<noteq> {}"
      by (simp_all add: demo_files_def p)
    then show ?thesis using bf(4) yes unfolding p [symmetric] by blast
  qed
  ultimately show ?thesis using bf(1,2) by simp
qed

text \<open>
  C25: The progress shown for a file is the number of its bytes that lie in pieces already had, and
  the progress of all files adds up to the number of bytes of the torrent in such pieces.
\<close>

theorem file_progress_counts_bytes:
  assumes "Files (tf_Info tf) = files" "files \<noteq> []" "sizes_ok files" "i_Length (tf_Info tf) = 0"
    and "PieceLength (tf_Info tf) = pl" "0 < pl" "length (PieceHashes (tf_Info tf)) = n"
    and "sum_list (map f_Length files) \<le> int n * pl" "int n * pl \<le> max_int64"
  shows "length (session_Files (Some tf) data (Some bf) rb prios) = length files \<and>
    (\<forall>j<length files. en_Downloaded (session_Files (Some tf) data (Some bf) rb prios ! j) =
       int (card {b. in_file files j b \<and> HasPiece bf (b div pl)})) \<and>
    sum_list (map en_Downloaded (session_Files (Some tf) data (Some bf) rb prios)) =
      int (card {b. 0 \<le> b \<and> b < TotalSize tf \<and> HasPiece bf (b div pl)})"
proof -
  have tot: "TotalSize tf = sum_list (map f_Length files)"
    using foldl_total [of 0 files] assms(1,3,4) by (simp add: TotalSize_def sizes_ok_def)
  let ?fs = "session_Files (Some tf) data (Some bf) rb prios"
  have fs: "?fs = filesLoop (Some bf) prios pl (TotalSize tf) (int n) 0 0 files"
    using assms(1,2,5,7) by (simp add: session_Files_def Let_def)
  have each: "en_Downloaded (?fs ! j) = int (card {b. in_file files j b \<and> HasPiece bf (b div pl)})" if "j < length files" for j
    using filesLoop_counts [OF assms(3,6) refl assms(8,9), of 0 j bf prios] that unfolding fs tot by simp
  have "sum_list (map en_Downloaded ?fs) = (\<Sum>j<length files. en_Downloaded (?fs ! j))"
    by (simp add: sum_list_sum_nth fs lessThan_atLeast0)
  also have "\<dots> = int (\<Sum>j<length files. card {b. in_file files j b \<and> HasPiece bf (b div pl)})"
    using each by simp
  also have "\<dots> = int (card {b. 0 \<le> b \<and> b < TotalSize tf \<and> HasPiece bf (b div pl)})"
    using sum_in_files [OF assms(3) order_refl] by (simp add: file_start_length tot)
  finally show ?thesis using each by (simp add: fs)
qed

lemma demo_multi_facts:
  "Files (tf_Info demo_multi) = [\<lparr>f_Length = 3, f_Path = [gostr ''a'']\<rparr>, \<lparr>f_Length = 2, f_Path = [gostr ''b'', gostr ''c'']\<rparr>]"
  "i_Length (tf_Info demo_multi) = 0" "PieceLength (tf_Info demo_multi) = 4" "length (PieceHashes (tf_Info demo_multi)) = 2"
  "TotalSize demo_multi = 5" "sizes_ok (Files (tf_Info demo_multi))" "Files (tf_Info demo_multi) \<noteq> []"
  "sum_list (map f_Length (Files (tf_Info demo_multi))) \<le> int 2 * 4" "int 2 * 4 \<le> max_int64"
  by (simp_all add: demo_multi_def TotalSize_def sizes_ok_def wrap64_range max_int64_def)

theorem file_progress_counts_bytes_witness:
  "length (session_Files (Some demo_multi) [] (Some [128]) [] []) = 2 \<and>
   sum_list (map en_Downloaded (session_Files (Some demo_multi) [] (Some [128]) [] [])) =
     int (card {b. 0 \<le> b \<and> b < 5 \<and> HasPiece [128] (b div 4)})"
  using file_progress_counts_bytes [OF refl demo_multi_facts(7,6,2,3) _ demo_multi_facts(4,8,9), of "[]" "[128]" "[]" "[]"]
  unfolding demo_multi_facts(5) by (simp add: demo_multi_facts(1))

text \<open>
  C26: Each file is announced once, when its last byte arrives. Start from a bitfield with the files
  it completes marked as announced, and let pieces complete in any order, with repetitions. Every
  file that is not empty is announced exactly if all its bytes are there at the end and were not all
  there at the start; no file is announced twice; and the bitfield holds what it held plus the
  completed pieces.
\<close>

theorem file_completed_once:
  assumes "Files (tf_Info tf) = files" "files \<noteq> []" "sizes_ok files" "PieceLength (tf_Info tf) = pl" "0 < pl"
    and "length (PieceHashes (tf_Info tf)) = n" "0 < n" "sum_list (map f_Length files) \<le> int n * pl" "int n * pl \<le> max_int64"
    and "uploadBF s \<noteq> []" "completedFiles s = seedCompleted (computeFileRanges tf) (Some (uploadBF s))"
    and "onPieces (computeFileRanges tf) n s is = (evs, s')"
  shows "distinct (file_events evs) \<and>
    (\<forall>j<length files. 0 < f_Length (files ! j) \<longrightarrow>
       (j \<in> set (file_events evs) \<longleftrightarrow> file_complete (uploadBF s') pl files j \<and> \<not> file_complete (uploadBF s) pl files j)) \<and>
    (\<forall>i. HasPiece (uploadBF s') i \<longleftrightarrow> HasPiece (uploadBF s) i \<or> (i \<in> set is \<and> 0 \<le> i \<and> i < 8 * int (length (uploadBF s))))"
proof -
  let ?frs = "computeFileRanges tf"
  have frs: "?frs = fileRangesLoop pl (int n) 0 0 files"
    using assms(1,2,4-7) by (simp add: computeFileRanges_def Let_def)
  have dist: "distinct (map fre_index ?frs)" by (simp add: frs fre_index_fileRangesLoop)
  have seed: "completedFiles s = complete_in ?frs (uploadBF s)"
    using assms(11) by (auto simp: seedCompleted_def complete_in_def)
  note r = onPieces_result [OF dist assms(10) _ assms(12), unfolded seed, OF order_refl]
  have in_iff: "j \<in> complete_in ?frs bf \<longleftrightarrow> file_complete bf pl files j" if "j < length files" "0 < f_Length (files ! j)" for bf j
  proof -
    have idx: "fre_index (?frs ! k) = k" if "k < length files" for k
      using nth_fileRangesLoop [OF assms(3), of 0 k pl "int n"] that by (simp add: frs)
    have "j \<in> complete_in ?frs bf \<longleftrightarrow> rangeComplete bf (?frs ! j)"
      using that(1) idx by (auto simp: complete_in_def in_set_conv_nth frs image_iff)
    then show ?thesis using rangeComplete_file [OF assms(3,5,8,9) that] by (simp add: frs)
  qed
  have "j \<in> set (file_events evs) \<longleftrightarrow> file_complete (uploadBF s') pl files j \<and> \<not> file_complete (uploadBF s) pl files j"
    if "j < length files" "0 < f_Length (files ! j)" for j
  proof -
    have "set (file_events evs) = complete_in ?frs (uploadBF s') - complete_in ?frs (uploadBF s)" using r by blast
    then show ?thesis using in_iff [OF that] by blast
  qed
  then show ?thesis using r by blast
qed

theorem file_completed_once_witness:
  "\<exists>evs s'. onPieces (computeFileRanges demo_multi) 2 \<lparr>uploadBF = [0], recordBitfield = [], completedFiles = {}\<rparr> [0, 1] = (evs, s') \<and>
     distinct (file_events evs) \<and> (0 \<in> set (file_events evs) \<longleftrightarrow>
       file_complete (uploadBF s') 4 (Files (tf_Info demo_multi)) 0 \<and> \<not> file_complete [0] 4 (Files (tf_Info demo_multi)) 0)"
proof -
  let ?s = "\<lparr>uploadBF = [0], recordBitfield = [], completedFiles = {}\<rparr>"
  obtain evs s' where e: "onPieces (computeFileRanges demo_multi) 2 ?s [0, 1] = (evs, s')" by fastforce
  have none: "\<not> HasPiece [0] i" for i using no_pieces [of 1 i] by simp
  have "computeFileRanges demo_multi =
      [\<lparr>fre_index = 0, fre_path = Join [gostr ''a''], fre_size = 3, fre_firstPiece = 0, fre_lastPiece = 0\<rparr>,
       \<lparr>fre_index = 1, fre_path = Join [gostr ''b'', gostr ''c''], fre_size = 2, fre_firstPiece = 0, fre_lastPiece = 1\<rparr>]"
    using demo_multi_facts(1,3,4) by (simp add: computeFileRanges_def rangeFor_def wrap64_range max_int64_def del: Join.simps)
  then have seed: "completedFiles ?s = seedCompleted (computeFileRanges demo_multi) (Some (uploadBF ?s))"
    by (simp add: seedCompleted_def rangeComplete_def none upto_rec1)
  have "uploadBF ?s \<noteq> []" by simp
  from file_completed_once [OF refl demo_multi_facts(7,6,3) _ demo_multi_facts(4) _ demo_multi_facts(8,9) this seed e]
  show ?thesis using e by (auto simp: demo_multi_facts(1))
qed

end
