(* ===== verification/Go_Float.thy ===== *)
theory Go_Float
  imports Go_Prelude Complex_Main
begin

text \<open>
  The type \<open>float64\<close>: real numbers, with the result of every operation rounded to a significand of 53 bits,
  to the nearest and ties to even, as IEEE 754 prescribes. The range of the exponent is not limited;
  the values that occur in the program are far from its ends. The locale \<open>rounding\<close> is what the proofs use.
  At the end, durations and their conversion to seconds.
\<close>

section \<open>Rounding to the nearest float64\<close>

text \<open>Rounding to the nearest integer, ties to the even one.\<close>

definition rne :: "real \<Rightarrow> int" where
  "rne x = (let f = \<lfloor>x\<rfloor>; r = x - of_int f
            in if r < 1/2 then f else if r > 1/2 then f + 1 else if even f then f else f + 1)"

definition ulp_exp :: "real \<Rightarrow> int" where
  "ulp_exp x = \<lfloor>log 2 x\<rfloor> - 52"

definition float64_round :: "real \<Rightarrow> real" where
  "float64_round x = sgn x * (of_int (rne (\<bar>x\<bar> / 2 powi ulp_exp \<bar>x\<bar>)) * 2 powi ulp_exp \<bar>x\<bar>)"

lemma rne_bounds: "\<lfloor>x\<rfloor> \<le> rne x" "rne x \<le> \<lfloor>x\<rfloor> + 1"
  by (auto simp: rne_def Let_def)

lemma rne_int [simp]: "rne (of_int n) = n"
  by (simp add: rne_def)

lemma rne_mono: "x \<le> y \<Longrightarrow> rne x \<le> rne y"
proof -
  assume xy: "x \<le> y"
  then have "\<lfloor>x\<rfloor> \<le> \<lfloor>y\<rfloor>" by (rule floor_mono)
  then consider "\<lfloor>x\<rfloor> < \<lfloor>y\<rfloor>" | "\<lfloor>x\<rfloor> = \<lfloor>y\<rfloor>" by linarith
  then show ?thesis
  proof cases
    case 1
    then show ?thesis using rne_bounds(2) [of x] rne_bounds(1) [of y] by linarith
  next
    case 2
    then show ?thesis using xy by (auto simp: rne_def Let_def)
  qed
qed

lemma rne_ge: "of_int n \<le> x \<Longrightarrow> n \<le> rne x"
  using rne_mono [of "of_int n" x] by simp

lemma rne_le: "x \<le> of_int n \<Longrightarrow> rne x \<le> n"
  using rne_mono [of x "of_int n"] by simp

lemma powi_2_pos [simp]: "0 < (2::real) powi e"
  by simp

lemma ulp_exp_mono: "0 < x \<Longrightarrow> x \<le> y \<Longrightarrow> ulp_exp x \<le> ulp_exp y"
  unfolding ulp_exp_def by (intro diff_right_mono floor_mono) simp

lemma powi_log: "0 < x \<Longrightarrow> 2 powi e \<le> x \<longleftrightarrow> e \<le> \<lfloor>log 2 x\<rfloor>"
proof -
  assume x: "0 < x"
  have "e \<le> \<lfloor>log 2 x\<rfloor> \<longleftrightarrow> of_int e \<le> log 2 x" by (rule le_floor_iff)
  also have "\<dots> \<longleftrightarrow> 2 powr of_int e \<le> x" using x by (simp add: le_log_iff)
  finally show ?thesis by (simp add: powr_real_of_int')
qed

text \<open>The significand of a positive number lies between \<open>2 ^ 52\<close> and \<open>2 ^ 53\<close>.\<close>

lemma significand:
  assumes "0 < x"
  shows "2 ^ 52 \<le> x / 2 powi ulp_exp x" "x / 2 powi ulp_exp x < 2 ^ 53"
proof -
  let ?l = "\<lfloor>log 2 x\<rfloor>"
  have e: "2 powi ?l = 2 ^ 52 * (2::real) powi ulp_exp x" "2 powi (?l + 1) = 2 ^ 53 * (2::real) powi ulp_exp x"
    using power_int_add [of "2::real" 52 "ulp_exp x"] power_int_add [of "2::real" 53 "ulp_exp x"]
    by (simp_all add: ulp_exp_def add.commute)
  have "2 powi ?l \<le> x" "x < 2 powi (?l + 1)"
    using powi_log [OF assms, of ?l] powi_log [OF assms, of "?l + 1"] by simp_all
  then show "2 ^ 52 \<le> x / 2 powi ulp_exp x" "x / 2 powi ulp_exp x < 2 ^ 53"
    unfolding e by (simp_all add: field_simps)
qed

lemma rne_significand:
  assumes "0 < x"
  shows "2 ^ 52 \<le> rne (x / 2 powi ulp_exp x)" "rne (x / 2 powi ulp_exp x) \<le> 2 ^ 53"
  using significand [OF assms] by (auto intro: rne_ge rne_le)

lemma round_pos_bounds:
  assumes "0 < x"
  shows "2 ^ 52 * 2 powi ulp_exp x \<le> float64_round x" "float64_round x \<le> 2 ^ 53 * 2 powi ulp_exp x"
proof -
  have "2 ^ 52 \<le> rne (x / 2 powi ulp_exp x)" "rne (x / 2 powi ulp_exp x) \<le> 2 ^ 53" by (rule rne_significand [OF assms])+
  then have "real_of_int (2 ^ 52) \<le> of_int (rne (x / 2 powi ulp_exp x))" "of_int (rne (x / 2 powi ulp_exp x)) \<le> real_of_int (2 ^ 53)"
    by (simp_all only: of_int_le_iff)
  then show "2 ^ 52 * 2 powi ulp_exp x \<le> float64_round x" "float64_round x \<le> 2 ^ 53 * 2 powi ulp_exp x"
    using assms by (simp_all add: float64_round_def)
qed

lemma round_pos_mono:
  assumes "0 < x" "x \<le> y"
  shows "float64_round x \<le> float64_round y"
proof (cases "ulp_exp x = ulp_exp y")
  case True
  have "x / 2 powi ulp_exp y \<le> y / 2 powi ulp_exp y" using assms by (simp add: divide_right_mono)
  then have "rne (x / 2 powi ulp_exp y) \<le> rne (y / 2 powi ulp_exp y)" by (rule rne_mono)
  then show ?thesis using assms by (simp add: float64_round_def True)
next
  case False
  then have "ulp_exp x + 1 \<le> ulp_exp y" using ulp_exp_mono [OF assms] by simp
  then have "(2::real) powi (ulp_exp x + 1) \<le> 2 powi ulp_exp y" by (intro power_int_increasing) simp_all
  then have "2 ^ 53 * 2 powi ulp_exp x \<le> 2 ^ 52 * (2::real) powi ulp_exp y" by (simp add: power_int_add)
  then show ?thesis using round_pos_bounds(2) [OF assms(1)] round_pos_bounds(1) [of y] assms by linarith
qed

lemma round_0 [simp]: "float64_round 0 = 0"
  by (simp add: float64_round_def)

lemma round_minus [simp]: "float64_round (- x) = - float64_round x"
  by (simp add: float64_round_def sgn_minus)

lemma round_nonneg: "0 \<le> x \<Longrightarrow> 0 \<le> float64_round x"
proof (cases "x = 0")
  case False
  assume "0 \<le> x"
  with False have "0 < x" by simp
  from round_pos_bounds(1) [OF this] show ?thesis by (rule order_trans [rotated]) simp
qed simp

lemma round_mono: "x \<le> y \<Longrightarrow> float64_round x \<le> float64_round y"
proof -
  assume xy: "x \<le> y"
  consider "0 < x" | "x \<le> 0" "0 \<le> y" | "y < 0" using xy by linarith
  then show ?thesis
  proof cases
    case 1
    then show ?thesis using xy by (rule round_pos_mono)
  next
    case 2
    then show ?thesis using round_nonneg [of y] round_nonneg [of "- x"] by simp
  next
    case 3
    then have "float64_round (- y) \<le> float64_round (- x)" using xy by (intro round_pos_mono) simp_all
    then show ?thesis by simp
  qed
qed

text \<open>Numbers with a significand of at most 53 bits are exact.\<close>

lemma round_exact_pos:
  assumes "0 < m" "m < 2 ^ 53"
  shows "float64_round (of_int m * 2 powi k) = of_int m * 2 powi k"
proof -
  let ?x = "of_int m * 2 powi k :: real"
  have x: "0 < ?x" using assms(1) by simp
  have "?x < 2 ^ 53 * 2 powi k" using assms(2) by (simp add: mult_strict_right_mono)
  then have "?x < 2 powi (53 + k)" by (simp add: power_int_add)
  then have "\<lfloor>log 2 ?x\<rfloor> < 53 + k" using powi_log [OF x, of "53 + k"] by linarith
  then have k: "ulp_exp ?x \<le> k" by (simp add: ulp_exp_def)
  define u where "u = ulp_exp ?x"
  define d where "d = nat (k - u)"
  have "(2::real) powi k = 2 powi (int d + u)" using k by (simp add: d_def u_def)
  then have kd: "(2::real) powi k = 2 ^ d * 2 powi u" by (simp add: power_int_add)
  then have "?x / 2 powi u = of_int (m * 2 ^ d)" by simp
  then have "float64_round ?x = of_int (m * 2 ^ d) * 2 powi u"
    using x unfolding float64_round_def by (simp only: abs_of_pos sgn_1_pos u_def [symmetric] rne_int) simp
  also have "\<dots> = ?x" unfolding of_int_mult of_int_power using kd by simp
  finally show ?thesis .
qed

lemma round_exact:
  assumes "\<bar>m\<bar> \<le> 2 ^ 53"
  shows "float64_round (of_int m * 2 powi k) = of_int m * 2 powi k"
proof -
  have pos: "float64_round (of_int m * 2 powi k) = of_int m * 2 powi k" if "0 < m" "m \<le> 2 ^ 53" for m
  proof (cases "m = 2 ^ 53")
    case True
    have "of_int m * 2 powi k = of_int 1 * (2::real) powi (53 + k)" by (simp add: True power_int_add)
    then show ?thesis using round_exact_pos [of 1 "53 + k"] by simp
  next
    case False
    then show ?thesis using that by (intro round_exact_pos) simp_all
  qed
  consider "m = 0" | "0 < m" | "m < 0" by linarith
  then show ?thesis
  proof cases
    case 3
    then have "float64_round (- (of_int m * 2 powi k)) = - (of_int m * 2 powi k)" using pos [of "- m"] assms by simp
    then show ?thesis by simp
  qed (use pos [of m] assms in auto)
qed

lemma round_idem: "float64_round (float64_round x) = float64_round x"
proof -
  have pos: "float64_round (float64_round x) = float64_round x" if "0 < x" for x
  proof -
    have e: "float64_round x = of_int (rne (x / 2 powi ulp_exp x)) * 2 powi ulp_exp x" using that by (simp add: float64_round_def)
    have "\<bar>rne (x / 2 powi ulp_exp x)\<bar> \<le> 2 ^ 53"
      using rne_significand [OF that] by (simp add: abs_le_iff)
    from round_exact [OF this] show ?thesis unfolding e .
  qed
  consider "x = 0" | "0 < x" | "0 < - x" by linarith
  then show ?thesis by cases (use pos [of x] pos [of "- x"] in auto)
qed

lemma round_int [simp]: "\<bar>n\<bar> \<le> 2 ^ 53 \<Longrightarrow> float64_round (of_int n) = of_int n"
  using round_exact [of n 0] by simp

section \<open>The contract of floating-point rounding\<close>

text \<open>What proofs about floating-point code rely on: rounding is monotone and keeps every number of 53 bits.\<close>

locale rounding =
  fixes rnd :: "real \<Rightarrow> real"
  assumes mono: "x \<le> y \<Longrightarrow> rnd x \<le> rnd y"
    and exact: "\<bar>m\<bar> \<le> 2 ^ 53 \<Longrightarrow> rnd (of_int m * 2 powi k) = of_int m * 2 powi k"
    and idem: "rnd (rnd x) = rnd x"
begin

lemma int_exact: "\<bar>n\<bar> \<le> 2 ^ 53 \<Longrightarrow> rnd (of_int n) = of_int n"
  using exact [of n 0] by simp

lemma zero [simp]: "rnd 0 = 0"
  using int_exact [of 0] by simp

lemma sign: "0 \<le> x \<Longrightarrow> 0 \<le> rnd x" "x \<le> 0 \<Longrightarrow> rnd x \<le> 0"
  using mono [of 0 x] mono [of x 0] by simp_all

lemma between: "rnd a = a \<Longrightarrow> rnd b = b \<Longrightarrow> a \<le> x \<Longrightarrow> x \<le> b \<Longrightarrow> a \<le> rnd x \<and> rnd x \<le> b"
  using mono [of a x] mono [of x b] by simp

end

interpretation f64: rounding float64_round
  by unfold_locales (fact round_mono, fact round_exact, fact round_idem)

section \<open>Conversion to integers and durations\<close>

definition go_int :: "real \<Rightarrow> int" where
  "go_int x = (if x < 0 then \<lceil>x\<rceil> else \<lfloor>x\<rfloor>)"

definition Second :: int where "Second = 1000000000"

text \<open>\<open>time.Duration.Seconds\<close>, with the truncating division and remainder of Go.\<close>

definition Duration_Seconds :: "int \<Rightarrow> real" where
  "Duration_Seconds d =
     (let sec = go_div d Second; nsec = d - sec * Second
      in float64_round (float64_round (of_int sec) + float64_round (float64_round (of_int nsec) / of_int Second)))"

lemma go_int_minus: "go_int (- x) = - go_int x"
  by (auto simp: go_int_def ceiling_minus floor_minus)

lemma go_div_minus: "go_div (- d) b = - go_div d b"
  by (simp add: go_div_def sgn_minus)

lemma Duration_Seconds_minus: "Duration_Seconds (- d) = - Duration_Seconds d"
proof -
  have "- d - - go_div d Second * Second = - (d - go_div d Second * Second)" by simp
  then show ?thesis
    unfolding Duration_Seconds_def Let_def go_div_minus
    by (simp only: of_int_minus round_minus minus_divide_left [symmetric] minus_add_distrib [symmetric])
qed

text \<open>Up to \<open>2 ^ 23\<close> seconds, 97 days, the rounding does not reach the next second.\<close>

lemma seconds_whole:
  assumes "\<bar>d\<bar> < 2 ^ 23 * Second"
  shows "go_int (Duration_Seconds d) = go_div d Second"
proof -
  have pos: "go_int (Duration_Seconds d) = go_div d Second" if d: "0 \<le> d" "d < 2 ^ 23 * Second" for d
  proof -
    define s n where "s = d div Second" and "n = d mod Second"
    have s: "go_div d Second = s" "d - s * Second = n" "0 \<le> s" "s < 2 ^ 23" "0 \<le> n" "n \<le> 999999999"
      using d by (simp_all add: s_def n_def Second_def pos_imp_zdiv_nonneg_iff minus_div_mult_eq_mod)
    define r where "r = float64_round (of_int n / of_int Second)"
    define top where "top = 1 - 1 / (2::real) ^ 30"
    have top: "float64_round top = top"
      using round_exact [of "2 ^ 30 - 1" "- 30"] by (simp add: top_def power_int_minus field_simps)
    have "0 \<le> r \<and> r \<le> top"
    proof -
      have "of_int n / of_int Second \<le> (999999999 / 1000000000 :: real)" using s(6) by (simp add: Second_def)
      also have "\<dots> \<le> top" by (simp add: top_def field_simps)
      finally show ?thesis unfolding r_def using s(5) f64.between [of 0 top "of_int n / of_int Second"] top by (simp add: Second_def)
    qed
    moreover have sf: "float64_round (of_int s + top) = of_int s + top"
    proof -
      have "of_int s + top = of_int ((s + 1) * 2 ^ 30 - 1) * 2 powi (- 30)"
        by (simp add: top_def power_int_minus field_simps)
      moreover have "\<bar>(s + 1) * 2 ^ 30 - 1\<bar> \<le> 2 ^ 53" using s(3,4) by (simp add: abs_le_iff)
      ultimately show ?thesis using round_exact by presburger
    qed
    moreover have si: "float64_round (of_int s) = of_int s" "float64_round (of_int n) = of_int n" using s(3-6) by simp_all
    ultimately have "of_int s \<le> float64_round (of_int s + r) \<and> float64_round (of_int s + r) \<le> of_int s + top"
      by (intro f64.between) simp_all
    moreover have "top < 1" by (simp add: top_def)
    moreover have "Duration_Seconds d = float64_round (of_int s + r)"
      unfolding Duration_Seconds_def Let_def s(1) s(2) si r_def ..
    ultimately have "\<lfloor>Duration_Seconds d\<rfloor> = s" "0 \<le> Duration_Seconds d" using s(3) by (auto simp: floor_eq_iff)
    then show ?thesis using s(1) by (simp add: go_int_def)
  qed
  show ?thesis
  proof (cases "0 \<le> d")
    case True
    then show ?thesis using assms by (intro pos) simp_all
  next
    case False
    then have "go_int (Duration_Seconds (- d)) = go_div (- d) Second" using assms by (intro pos) simp_all
    then show ?thesis by (simp add: Duration_Seconds_minus go_int_minus go_div_minus)
  qed
qed

end
