(* ===== verification/Engine_Guards.thy ===== *)
theory Engine_Guards
  imports Go_Path Go_Float
begin

text \<open>
  Two guards of the engine: the check of the torrent name before it becomes part of a path
  (\<^verbatim>\<open>src/engine/sanitize.go\<close>), and the detection of downloads without peers
  (\<^verbatim>\<open>src/engine/stall_detector.go\<close>).
\<close>

section \<open>Names of torrents\<close>

datatype nerror = NameEmpty | NameNull | NameAbsolute | NameDrive | NameTraversal

definition backslash :: byte where "backslash = 92"

definition normalizeSep :: "byte \<Rightarrow> byte" where
  "normalizeSep c = (if c = backslash then slash else c)"

definition sanitizeTorrentName :: "bytes \<Rightarrow> nerror option" where
  "sanitizeTorrentName name =
     (if name = [] then Some NameEmpty
      else if 0 \<in> set name then Some NameNull
      else if is_rooted name then Some NameAbsolute
      else if length name \<ge> 2 \<and> name ! 1 = 58 then Some NameDrive
      else if list_ex (\<lambda>part. part = dotdot \<or> part = dot) (split_on slash (map normalizeSep name))
      then Some NameTraversal
      else None)"

lemma sanitized_parts:
  assumes "sanitizeTorrentName name = None"
  shows "\<forall>p\<in>set (split_on slash name). p = [] \<or> plain p" "filter (\<lambda>p. p \<noteq> []) (split_on slash name) \<noteq> []"
proof -
  have name: "name \<noteq> []" "\<not> is_rooted name"
    "\<forall>q\<in>set (split_on slash (map normalizeSep name)). q \<noteq> dotdot \<and> q \<noteq> dot"
    using assms by (auto simp: sanitizeTorrentName_def list_ex_iff split: if_splits)
  have "q \<in> set (split_on slash (map normalizeSep name))"
    if "q \<in> set (split_on slash name)" "map normalizeSep q = q" for q
  proof -
    have "split_on slash (map normalizeSep q) = [q]" using split_components [OF that(1)] that(2) by (simp add: split_on_no_sep)
    then show ?thesis
      using that(1) split_on_map [of normalizeSep slash name] by (force simp: normalizeSep_def)
  qed
  moreover have "map normalizeSep dot = dot" "map normalizeSep dotdot = dotdot"
    by (simp_all add: normalizeSep_def dot_def dotdot_def backslash_def)
  ultimately show "\<forall>p\<in>set (split_on slash name). p = [] \<or> plain p"
    using name(3) split_components [of _ slash name] by (metis plain_def)
  obtain c cs where n: "name = c # cs" "c \<noteq> slash" using name(1,2) by (cases name) (auto simp: is_rooted_def)
  then have "hd (split_on slash name) \<noteq> []" by (auto split: list.split)
  then show "filter (\<lambda>p. p \<noteq> []) (split_on slash name) \<noteq> []"
    by (cases "split_on slash name") auto
qed

lemma savePath_comps:
  assumes "sanitizeTorrentName name = None"
  shows "\<exists>R. R \<noteq> [] \<and> list_all plain R \<and> comps (Join [dir, name]) = comps dir @ R \<and>
    is_rooted (Join [dir, name]) = is_rooted dir"
proof -
  let ?R = "filter (\<lambda>p. p \<noteq> []) (split_on slash name)"
  note p = sanitized_parts [OF assms]
  have name: "name \<noteq> []" "\<not> is_rooted name"
    using assms by (auto simp: sanitizeTorrentName_def split: if_splits)
  have "comps (Join [dir, name]) = comps dir @ ?R"
  proof (cases "dir = []")
    case True
    then show ?thesis
      using name foldl_clean_plain_or_empty [OF p(1)] by (simp add: comps_Clean comps_Nil) (simp add: comps_def clean_comps_def)
  next
    case False
    then show ?thesis
      using foldl_clean_plain_or_empty [OF p(1)] by (simp add: comps_Clean comps_append)
  qed
  moreover have "is_rooted (Join [dir, name]) = is_rooted dir"
    using name by (cases dir) (simp_all add: is_rooted_def [of "[]"], simp add: is_rooted_def)
  moreover have "list_all plain ?R" using p(1) by (auto simp: list_all_iff)
  ultimately show ?thesis using p(2) by blast
qed

section \<open>Stall detection\<close>

text \<open>
  Times are nanoseconds since 1970 and durations nanoseconds. \<open>Sub\<close> saturates as \<open>time.Time.Sub\<close> does. The zero time,
  which stands for no stall, is \<open>None\<close>. A tick is its time and the peer count read at it; \<open>hasBus\<close> tells
  whether there is an event bus to publish to.
\<close>

definition stallThreshold :: int where "stallThreshold = 30 * Second"

definition zeroTime :: int where "zeroTime = - 62135596800 * Second"

definition time_Sub :: "int \<Rightarrow> int \<Rightarrow> int" where
  "time_Sub t u = (if t - u > max_int64 then max_int64 else if t - u < min_int64 then min_int64 else t - u)"

datatype stall_event =
    Stalled (ev_TorrentID: bytes) (ev_DurationSeconds: int) (ev_Reason: bytes)
  | StallCleared (ev_TorrentID: bytes) (ev_StalledForSeconds: int)

record stallState =
  stalledSince :: "int option"
  stalled :: bool

definition publishStalled :: "bool \<Rightarrow> bytes \<Rightarrow> int \<Rightarrow> stall_event list" where
  "publishStalled hasBus torrentID dur =
     (if \<not> hasBus then [] else [Stalled torrentID (go_int (Duration_Seconds dur)) (gostr ''no_peers'')])"

definition publishCleared :: "bool \<Rightarrow> bytes \<Rightarrow> int \<Rightarrow> stall_event list" where
  "publishCleared hasBus torrentID dur =
     (if \<not> hasBus then [] else [StallCleared torrentID (go_int (Duration_Seconds dur))])"

definition stall_step ::
  "bool \<Rightarrow> bytes \<Rightarrow> int \<Rightarrow> stallState \<Rightarrow> int \<times> int \<Rightarrow> stall_event list \<times> stallState" where
  "stall_step hasBus torrentID threshold s tick =
     (case tick of (t, peers) \<Rightarrow>
        if peers \<le> 0
        then (let since = (case stalledSince s of None \<Rightarrow> t | Some t0 \<Rightarrow> t0);
                  s1 = s\<lparr>stalledSince := Some since\<rparr>
              in if \<not> stalled s1 \<and> time_Sub t since \<ge> threshold
                 then (publishStalled hasBus torrentID (time_Sub t since), s1\<lparr>stalled := True\<rparr>)
                 else ([], s1))
        else
          (let since = (case stalledSince s of None \<Rightarrow> zeroTime | Some t0 \<Rightarrow> t0)
           in (if stalled s then publishCleared hasBus torrentID (time_Sub t since) else [],
               s\<lparr>stalledSince := None, stalled := False\<rparr>)))"

primrec stall_loop ::
  "bool \<Rightarrow> bytes \<Rightarrow> int \<Rightarrow> stallState \<Rightarrow> (int \<times> int) list \<Rightarrow> stall_event list list \<times> stallState" where
  "stall_loop hasBus torrentID threshold s [] = ([], s)"
| "stall_loop hasBus torrentID threshold s (tick # ticks) =
     (case stall_step hasBus torrentID threshold s tick of
        (ev, s') \<Rightarrow> case stall_loop hasBus torrentID threshold s' ticks of (evs, s'') \<Rightarrow> (ev # evs, s''))"

definition stall_run :: "bool \<Rightarrow> bytes \<Rightarrow> int \<Rightarrow> (int \<times> int) list \<Rightarrow> stall_event list list \<times> stallState" where
  "stall_run hasBus torrentID threshold ticks =
     stall_loop hasBus torrentID (if threshold \<le> 0 then stallThreshold else threshold)
       \<lparr>stalledSince = None, stalled = False\<rparr> ticks"

text \<open>The specification: the ticks since there last was a peer.\<close>

definition trailing :: "(int \<times> int) list \<Rightarrow> (int \<times> int) list" where
  "trailing ticks = rev (takeWhile (\<lambda>(t, peers). peers \<le> 0) (rev ticks))"

definition stall_start :: "(int \<times> int) list \<Rightarrow> int option" where
  "stall_start ticks = (case trailing ticks of [] \<Rightarrow> None | (t, p) # _ \<Rightarrow> Some t)"

definition is_stalled :: "int \<Rightarrow> (int \<times> int) list \<Rightarrow> bool" where
  "is_stalled threshold ticks \<longleftrightarrow>
     (\<exists>t0. stall_start ticks = Some t0 \<and> (\<exists>(t, p)\<in>set (trailing ticks). threshold \<le> t - t0))"

definition stall_spec :: "int \<Rightarrow> (int \<times> int) list \<Rightarrow> stallState" where
  "stall_spec threshold ticks = \<lparr>stalledSince = stall_start ticks, stalled = is_stalled threshold ticks\<rparr>"

definition whole_seconds :: "int \<Rightarrow> int" where
  "whole_seconds d = sgn d * (\<bar>d\<bar> div 1000000000)"

definition stall_events :: "bytes \<Rightarrow> int \<Rightarrow> (int \<times> int) list \<Rightarrow> int \<times> int \<Rightarrow> stall_event list" where
  "stall_events torrentID threshold ticks tick =
     (if is_stalled threshold (ticks @ [tick]) \<and> \<not> is_stalled threshold ticks
      then [Stalled torrentID (whole_seconds (fst tick - the (stall_start (ticks @ [tick])))) (gostr ''no_peers'')]
      else if \<not> is_stalled threshold (ticks @ [tick]) \<and> is_stalled threshold ticks
      then [StallCleared torrentID (whole_seconds (fst tick - the (stall_start ticks)))]
      else [])"

text \<open>All ticks lie within 97 days, so that the conversion of durations to \<open>float64\<close> is exact to the second.\<close>

definition within_days :: "(int \<times> int) list \<Rightarrow> bool" where
  "within_days ticks \<longleftrightarrow> (\<forall>(t, p)\<in>set ticks. \<forall>(t', p')\<in>set ticks. t - t' < 2 ^ 23 * 1000000000)"

lemma trailing_snoc: "trailing (ticks @ [(t, p)]) = (if p \<le> 0 then trailing ticks @ [(t, p)] else [])"
  by (simp add: trailing_def)

lemma stall_start_mem: "stall_start ticks = Some t0 \<Longrightarrow> \<exists>p. (t0, p) \<in> set ticks"
proof -
  assume "stall_start ticks = Some t0"
  then obtain p where "(t0, p) \<in> set (trailing ticks)"
    by (auto simp: stall_start_def split: list.splits)
  then have "(t0, p) \<in> set (takeWhile (\<lambda>(t, peers). peers \<le> 0) (rev ticks))" by (simp add: trailing_def)
  from set_takeWhileD [OF this] show ?thesis by auto
qed

lemma within_days_subset: "within_days ticks \<Longrightarrow> set ticks' \<subseteq> set ticks \<Longrightarrow> within_days ticks'"
  unfolding within_days_def by blast

lemma published_seconds:
  assumes "within_days ticks" "(t, p) \<in> set ticks" "(t0, p0) \<in> set ticks"
  shows "time_Sub t t0 = t - t0" "go_int (Duration_Seconds (t - t0)) = whole_seconds (t - t0)"
proof -
  have "t - t0 < 2 ^ 23 * 1000000000" "t0 - t < 2 ^ 23 * 1000000000"
    using assms unfolding within_days_def by blast+
  then show "time_Sub t t0 = t - t0" "go_int (Duration_Seconds (t - t0)) = whole_seconds (t - t0)"
    by (simp_all add: time_Sub_def max_int64_def min_int64_def seconds_whole Second_def abs_less_iff whole_seconds_def go_div_def)
qed

lemma stall_step_spec:
  assumes "within_days (ticks @ [tick])"
  shows "stall_step True torrentID threshold (stall_spec threshold ticks) tick =
    (stall_events torrentID threshold ticks tick, stall_spec threshold (ticks @ [tick]))"
proof -
  obtain t p where tick: "tick = (t, p)" by (cases tick)
  have sec: "time_Sub t t0 = t - t0" "go_int (Duration_Seconds (t - t0)) = whole_seconds (t - t0)"
    if "stall_start ticks = Some t0 \<or> t0 = t" for t0
    using that published_seconds [OF assms, of t p] stall_start_mem [of ticks t0] by (auto simp: tick)
  show ?thesis
  proof (cases "p \<le> 0")
    case False
    then show ?thesis
      using sec by (auto simp: tick stall_step_def stall_spec_def stall_events_def is_stalled_def stall_start_def trailing_snoc
          publishCleared_def)
  next
    case True
    let ?t0 = "case stall_start ticks of None \<Rightarrow> t | Some t0 \<Rightarrow> t0"
    have start: "stall_start (ticks @ [(t, p)]) = Some ?t0"
      using True by (auto simp: stall_start_def trailing_snoc split: list.split)
    have "is_stalled threshold (ticks @ [(t, p)]) \<longleftrightarrow> is_stalled threshold ticks \<or> threshold \<le> t - ?t0"
    proof (cases "stall_start ticks")
      case None
      then have "trailing ticks = []" by (auto simp: stall_start_def split: list.splits)
      then show ?thesis using None True by (simp add: is_stalled_def start trailing_snoc)
    next
      case (Some t0)
      then show ?thesis using True by (auto simp: is_stalled_def start trailing_snoc)
    qed
    moreover have "time_Sub t ?t0 = t - ?t0" "go_int (Duration_Seconds (t - ?t0)) = whole_seconds (t - ?t0)"
      by (rule sec, simp split: option.split)+
    ultimately show ?thesis
      using True by (auto simp: tick stall_step_def stall_spec_def stall_events_def start Let_def publishStalled_def)
  qed
qed

lemma stall_loop_spec:
  "stall_loop True torrentID threshold (stall_spec threshold before) ticks = (evs, s) \<Longrightarrow> within_days (before @ ticks) \<Longrightarrow>
     s = stall_spec threshold (before @ ticks) \<and> length evs = length ticks \<and>
     (\<forall>k<length ticks. evs ! k = stall_events torrentID threshold (before @ take k ticks) (ticks ! k))"
proof (induction ticks arbitrary: before evs)
  case (Cons tick ticks)
  have "within_days (before @ [tick])" by (rule within_days_subset [OF Cons.prems(2)]) auto
  note step = stall_step_spec [OF this]
  obtain evs' where e: "stall_loop True torrentID threshold (stall_spec threshold (before @ [tick])) ticks = (evs', s)"
    "evs = stall_events torrentID threshold before tick # evs'"
    using Cons.prems(1) by (auto simp: step split: prod.splits)
  from Cons.IH [OF e(1)] Cons.prems(2) show ?case by (auto simp: e(2) less_Suc_eq_0_disj nth_Cons')
qed simp

lemma stall_silent: "\<forall>ev\<in>set (fst (stall_loop False torrentID th s ticks)). ev = []"
proof (induction ticks arbitrary: s)
  case (Cons tick ticks)
  have "fst (stall_step False torrentID th s tick) = []"
    by (simp add: stall_step_def publishStalled_def publishCleared_def Let_def split: prod.split)
  then show ?case using Cons [of "snd (stall_step False torrentID th s tick)"] by (simp add: split_beta)
qed simp

text \<open>
  C27: The stall detector follows the peer count exactly. For any sequence of ticks within 97 days,
  it is stalled when, since the last tick with a peer, some tick came at least the threshold after
  the first one without; \<open>Stalled\<close> is published at exactly the tick where that becomes true and
  \<open>StallCleared\<close> at exactly the tick where it ends, each with the torrent's ID and the whole seconds since the
  stall began, although the code computes them in floating point. A threshold that is not positive
  means thirty seconds. Without a bus nothing is published.
\<close>

theorem stall_detector_exact:
  assumes "within_days ticks"
  shows "(\<exists>evs. stall_run True torrentID threshold ticks =
       (evs, stall_spec (if threshold \<le> 0 then 30000000000 else threshold) ticks) \<and>
     evs = map (\<lambda>k. stall_events torrentID (if threshold \<le> 0 then 30000000000 else threshold) (take k ticks) (ticks ! k))
             [0..<length ticks]) \<and>
    (\<forall>ev\<in>set (fst (stall_run False torrentID threshold ticks)). ev = [])"
proof -
  let ?th = "if threshold \<le> 0 then stallThreshold else threshold"
  have th: "stallThreshold = 30000000000" by (simp add: stallThreshold_def Second_def)
  have init: "\<lparr>stalledSince = None, stalled = False\<rparr> = stall_spec ?th []"
    by (simp add: stall_spec_def stall_start_def trailing_def is_stalled_def)
  obtain evs s where r: "stall_loop True torrentID ?th (stall_spec ?th []) ticks = (evs, s)" by fastforce
  from stall_loop_spec [OF r] assms have s: "s = stall_spec ?th ticks" and evs: "length evs = length ticks"
    "\<forall>k<length ticks. evs ! k = stall_events torrentID ?th (take k ticks) (ticks ! k)" by simp_all
  have "evs = map (\<lambda>k. stall_events torrentID ?th (take k ticks) (ticks ! k)) [0..<length ticks]"
    using evs by (intro nth_equalityI) simp_all
  moreover have "stall_run True torrentID threshold ticks = (evs, stall_spec ?th ticks)"
    unfolding stall_run_def init r s ..
  moreover have "\<forall>ev\<in>set (fst (stall_run False torrentID threshold ticks)). ev = []"
    unfolding stall_run_def by (rule stall_silent)
  ultimately show ?thesis unfolding th by blast
qed

theorem stall_detector_exact_witness:
  "\<exists>s. stall_run True [7] 0 [(0, 0), (31500000000, 0), (62900000000, 2)] =
     ([[], [Stalled [7] 31 (gostr ''no_peers'')], [StallCleared [7] 62]], s)"
proof -
  let ?ticks = "[(0, 0), (31500000000, 0), (62900000000, 2)] :: (int \<times> int) list"
  have w: "within_days ?ticks" by (simp add: within_days_def)
  have ev: "stall_events [7] 30000000000 [] (0, 0) = []"
    "stall_events [7] 30000000000 [(0, 0)] (31500000000, 0) = [Stalled [7] 31 (gostr ''no_peers'')]"
    "stall_events [7] 30000000000 [(0, 0), (31500000000, 0)] (62900000000, 2) = [StallCleared [7] 62]"
    by (auto simp: stall_events_def is_stalled_def stall_start_def trailing_def whole_seconds_def)
  have k: "map f [0..<length ?ticks] = [f 0, f 1, f 2]" for f :: "nat \<Rightarrow> stall_event list" by (simp add: upt_rec numeral_2_eq_2)
  show ?thesis using stall_detector_exact [OF w, of "[7]" 0] unfolding k by (simp add: ev)
qed

end
