(* ===== verification/Go_Addr.thy ===== *)
theory Go_Addr
  imports Go_Net Go_Path Go_Strconv
begin

text \<open>
  Addresses as text, as package \<^verbatim>\<open>net\<close> of the standard library has them: the kinds of addresses the program
  refuses, \<open>IP.String\<close>, \<open>ParseIP\<close>, \<open>SplitHostPort\<close> and \<open>JoinHostPort\<close>. A printed address parses to the same
  address, with the run of zero groups of an IPv6 address abbreviated or not.
\<close>

section \<open>Kinds of addresses\<close>

definition IsLoopback :: "IP \<Rightarrow> bool" where
  "IsLoopback ip =
     (case To4 ip of Some ip4 \<Rightarrow> ip4 ! 0 = 127 | None \<Rightarrow> ip = replicate 15 0 @ [1])"

definition IsPrivate :: "IP \<Rightarrow> bool" where
  "IsPrivate ip =
     (case To4 ip of
        Some ip4 \<Rightarrow> ip4 ! 0 = 10 \<or> ip4 ! 0 = 172 \<and> ip4 ! 1 AND 0xf0 = 16 \<or> ip4 ! 0 = 192 \<and> ip4 ! 1 = 168
      | None \<Rightarrow> length ip = 16 \<and> ip ! 0 AND 0xfe = 0xfc)"

definition IsLinkLocalUnicast :: "IP \<Rightarrow> bool" where
  "IsLinkLocalUnicast ip =
     (case To4 ip of
        Some ip4 \<Rightarrow> ip4 ! 0 = 169 \<and> ip4 ! 1 = 254
      | None \<Rightarrow> length ip = 16 \<and> ip ! 0 = 0xfe \<and> ip ! 1 AND 0xc0 = 0x80)"

definition IsLinkLocalMulticast :: "IP \<Rightarrow> bool" where
  "IsLinkLocalMulticast ip =
     (case To4 ip of
        Some ip4 \<Rightarrow> ip4 ! 0 = 224 \<and> ip4 ! 1 = 0 \<and> ip4 ! 2 = 0
      | None \<Rightarrow> length ip = 16 \<and> ip ! 0 = 0xff \<and> ip ! 1 AND 0x0f = 0x02)"

definition IsUnspecified :: "IP \<Rightarrow> bool" where
  "IsUnspecified ip \<longleftrightarrow> To4 ip = Some (replicate 4 0) \<or> ip = replicate 16 0"

section \<open>Printing\<close>

definition colon :: byte where "colon = 58"
definition period :: byte where "period = 46"

definition is_hex :: "byte \<Rightarrow> bool" where
  "is_hex b \<longleftrightarrow> is_digit b \<or> 97 \<le> b \<and> b \<le> 102 \<or> 65 \<le> b \<and> b \<le> 70"

definition hex_digit_val :: "byte \<Rightarrow> nat" where
  "hex_digit_val b = (if is_digit b then digit_val b else if 97 \<le> b then unat b - 87 else unat b - 55)"

definition hex_byte :: "nat \<Rightarrow> byte" where
  "hex_byte d = (if d < 10 then digit_byte d else of_nat (87 + d))"

fun fmt_hex :: "nat \<Rightarrow> bytes" where
  "fmt_hex n = (if n < 16 then [hex_byte n] else fmt_hex (n div 16) @ [hex_byte (n mod 16)])"

declare fmt_hex.simps [simp del]

definition hex_val :: "bytes \<Rightarrow> nat" where
  "hex_val ds = foldl (\<lambda>acc d. 16 * acc + hex_digit_val d) 0 ds"

text \<open>The longest run of at least two zero groups, the first one of that length.\<close>

definition zeros_at :: "16 word list \<Rightarrow> nat \<Rightarrow> nat" where
  "zeros_at ws i = length (takeWhile (\<lambda>w. w = 0) (drop i ws))"

definition zeroRun :: "16 word list \<Rightarrow> (nat \<times> nat) option" where
  "zeroRun ws =
     foldl (\<lambda>best i.
        let l = zeros_at ws i
        in if l \<ge> 2 \<and> l > (case best of None \<Rightarrow> 0 | Some (_, l') \<Rightarrow> l') then Some (i, l) else best)
       None [0..<8]"

definition groups :: "IP \<Rightarrow> 16 word list" where
  "groups ip = map Uint16 (chunks 2 8 ip)"

definition group_string :: "16 word list \<Rightarrow> bytes" where
  "group_string ws = join_with colon (map (\<lambda>w. fmt_hex (unat w)) ws)"

definition IPv6_String :: "IP \<Rightarrow> bytes" where
  "IPv6_String ip =
     (let ws = groups ip
      in case zeroRun ws of
           None \<Rightarrow> group_string ws
         | Some (i, l) \<Rightarrow> group_string (take i ws) @ [colon, colon] @ group_string (drop (i + l) ws))"

definition IPv4_String :: "IP \<Rightarrow> bytes" where
  "IPv4_String ip4 = join_with period (map (\<lambda>b. fmt_nat (unat b)) ip4)"

definition hexString :: "bytes \<Rightarrow> bytes" where
  "hexString bs = concat (map (\<lambda>b. [hex_byte (unat b div 16), hex_byte (unat b mod 16)]) bs)"

definition IP_String :: "IP \<Rightarrow> bytes" where
  "IP_String ip =
     (if ip = [] then gostr ''<nil>''
      else case To4 ip of
             Some ip4 \<Rightarrow> IPv4_String ip4
           | None \<Rightarrow> if length ip = 16 then IPv6_String ip else gostr ''?'' @ hexString ip)"

section \<open>Parsing\<close>

definition octet_ok :: "bytes \<Rightarrow> bool" where
  "octet_ok f \<longleftrightarrow> f \<noteq> [] \<and> list_all is_digit f \<and> (hd f = 48 \<longrightarrow> length f = 1) \<and> dec_val f \<le> 255"

definition parseIPv4 :: "bytes \<Rightarrow> IP option" where
  "parseIPv4 s =
     (let fields = split_on period s
      in if length fields = 4 \<and> list_all octet_ok fields then Some (map (\<lambda>f. of_nat (dec_val f)) fields) else None)"

lemma dropWhile_shorter: "dropWhile P s = c # t \<Longrightarrow> length t < length s"
  using length_dropWhile_le [of P s] by simp

text \<open>
  The loop over the groups: the text to come, the bytes so far and the place of \<open>::\<close>. It returns
  them at the end of the text or when 16 bytes are filled.
\<close>

function v6loop :: "bytes \<Rightarrow> bytes \<Rightarrow> nat option \<Rightarrow> (bytes \<times> nat option \<times> bytes) option" where
  "v6loop s acc ell =
     (if length acc \<ge> 16 then Some (acc, ell, s)
      else
        (let h = takeWhile is_hex s; rest = dropWhile is_hex s; acc' = acc @ PutUint16 (of_nat (hex_val h))
         in if h = [] \<or> length h > 4 then None
            else case rest of
              [] \<Rightarrow> Some (acc', ell, [])
            | c # rest' \<Rightarrow>
                if c = period
                then (if ell = None \<and> length acc \<noteq> 12 \<or> length acc + 4 > 16 then None
                      else case parseIPv4 s of None \<Rightarrow> None | Some f \<Rightarrow> Some (acc @ f, ell, []))
                else if c \<noteq> colon then None
                else case rest' of
                  [] \<Rightarrow> None
                | c2 # rest'' \<Rightarrow>
                    if c2 \<noteq> colon then v6loop rest' acc' ell
                    else if ell \<noteq> None then None
                    else if rest'' = [] then Some (acc', Some (length acc'), [])
                    else v6loop rest'' acc' (Some (length acc'))))"
  by pat_completeness auto
termination
  by (relation "measure (\<lambda>(s, acc, ell). length s)") (auto dest!: dropWhile_shorter [OF sym])

declare v6loop.simps [simp del]

definition expandEllipsis :: "bytes \<Rightarrow> nat option \<Rightarrow> IP option" where
  "expandEllipsis acc ell =
     (if length acc < 16
      then (case ell of None \<Rightarrow> None | Some e \<Rightarrow> Some (take e acc @ replicate (16 - length acc) 0 @ drop e acc))
      else if ell \<noteq> None then None else Some acc)"

definition parseIPv6 :: "bytes \<Rightarrow> IP option" where
  "parseIPv6 s =
     (let (s', ell) = (if take 2 s = [colon, colon] then (drop 2 s, Some 0) else (s, None))
      in if ell = Some 0 \<and> s' = [] then Some (replicate 16 0)
         else case v6loop s' [] ell of
                None \<Rightarrow> None
              | Some (acc, e, left) \<Rightarrow> if left \<noteq> [] then None else expandEllipsis acc e)"

text \<open>A zone makes \<open>net.ParseIP\<close> return nil, so an address with \<open>%\<close> is refused.\<close>

definition ParseIP :: "bytes \<Rightarrow> IP option" where
  "ParseIP s =
     (case find (\<lambda>b. b = period \<or> b = colon \<or> b = 37) s of
        None \<Rightarrow> None
      | Some c \<Rightarrow>
          if c = period then map_option (\<lambda>ip. v4InV6Prefix @ ip) (parseIPv4 s)
          else if c = colon then (if 37 \<in> set s then None else parseIPv6 s)
          else None)"

section \<open>Host and port\<close>

definition last_index :: "byte \<Rightarrow> bytes \<Rightarrow> nat option" where
  "last_index c s = (if c \<in> set s then Some (length s - 1 - length (takeWhile (\<lambda>b. b \<noteq> c) (rev s))) else None)"

definition bracket_open :: byte where "bracket_open = 91"
definition bracket_close :: byte where "bracket_close = 93"

definition SplitHostPort :: "bytes \<Rightarrow> (bytes \<times> bytes) option" where
  "SplitHostPort hostport =
     (case last_index colon hostport of
        None \<Rightarrow> None
      | Some i \<Rightarrow>
          (let port = drop (i + 1) hostport;
               e = length (takeWhile (\<lambda>b. b \<noteq> bracket_close) hostport)
           in if hostport ! 0 = bracket_open
              then (if bracket_close \<notin> set hostport \<or> e + 1 \<noteq> i
                       \<or> bracket_open \<in> set (drop 1 hostport) \<or> bracket_close \<in> set (drop (e + 1) hostport) then None
                    else Some (slice 1 e hostport, port))
              else (if colon \<in> set (take i hostport)
                       \<or> bracket_open \<in> set hostport \<or> bracket_close \<in> set hostport then None
                    else Some (take i hostport, port))))"

definition JoinHostPort :: "bytes \<Rightarrow> bytes \<Rightarrow> bytes" where
  "JoinHostPort host port =
     (if colon \<in> set host then [bracket_open] @ host @ [bracket_close, colon] @ port else host @ [colon] @ port)"

section \<open>Printing and parsing IPv4\<close>

lemma fmt_nat_octet: "octet_ok (fmt_nat n)" if "n \<le> 255"
  using that fmt_nat_digits [of n] fmt_nat_leading_zero [of n]
  by (auto simp: octet_ok_def)

lemma no_period_digits: "list_all is_digit s \<Longrightarrow> period \<notin> set s"
  by (auto simp: list_all_iff period_def is_digit_def)

lemma parseIPv4_String:
  assumes "length ip = 4"
  shows "parseIPv4 (IPv4_String ip) = Some ip"
proof -
  have u: "unat (b :: byte) \<le> 255" for b using unsigned_less [of b, where ?'a = nat] by simp
  have "split_on period (IPv4_String ip) = map (\<lambda>b. fmt_nat (unat b)) ip"
    unfolding IPv4_String_def using assms
    by (intro split_join) (auto simp: no_period_digits fmt_nat_digits)
  then show ?thesis using assms u
    by (simp add: parseIPv4_def Let_def list_all_iff fmt_nat_octet comp_def)
qed

lemma set_join_with: "set (join_with c ps) \<subseteq> insert c (\<Union> (set ` set ps))"
  by (induction c ps rule: join_with.induct) auto

lemma find_first:
  "x \<in> set xs \<Longrightarrow> P x \<Longrightarrow> \<forall>y\<in>set xs. P y \<longrightarrow> y = x \<Longrightarrow> find P xs = Some x"
proof (induction xs)
  case (Cons a xs)
  show ?case
  proof (cases "P a")
    case True
    then have "a = x" using Cons.prems(3) by simp
    then show ?thesis using True by simp
  next
    case False
    then have "x \<in> set xs" using Cons.prems(1,2) by auto
    then have "find P xs = Some x" by (rule Cons.IH) (use Cons.prems in simp_all)
    then show ?thesis using False by simp
  qed
qed simp

lemma IPv4_String_bytes:
  assumes "b \<in> set (IPv4_String ip)"
  shows "is_digit b \<or> b = period"
proof -
  have "b = period \<or> (\<exists>x\<in>set ip. b \<in> set (fmt_nat (unat x)))"
    using assms set_join_with [of period "map (\<lambda>b. fmt_nat (unat b)) ip"] by (auto simp: IPv4_String_def)
  then show ?thesis using fmt_nat_digits by (auto simp: list_all_iff)
qed

lemma period_IPv4: "length ip = 4 \<Longrightarrow> period \<in> set (IPv4_String ip)"
  by (auto simp: IPv4_String_def length_Suc_conv numeral_eq_Suc)

lemma ParseIP_v4:
  assumes "length ip = 4"
  shows "ParseIP (IPv4_String ip) = Some (v4InV6Prefix @ ip)"
proof -
  have "find (\<lambda>b. b = period \<or> b = colon \<or> b = 37) (IPv4_String ip) = Some period"
    using period_IPv4 [OF assms]
    by (intro find_first) (auto dest!: IPv4_String_bytes simp: is_digit_def colon_def)
  then show ?thesis by (simp add: ParseIP_def parseIPv4_String [OF assms])
qed

section \<open>Printing and parsing IPv6\<close>

lemma hex_byte_val: "d < 16 \<Longrightarrow> is_hex (hex_byte d) \<and> hex_digit_val (hex_byte d) = d"
proof -
  assume "d < 16"
  then have "d \<in> set [0..<16]" by simp
  moreover have "\<forall>d\<in>set [0..<16]. is_hex (hex_byte d) \<and> hex_digit_val (hex_byte d) = d" by code_simp
  ultimately show ?thesis by blast
qed

lemma fmt_hex_digits: "list_all is_hex (fmt_hex n)"
proof (induction n rule: fmt_hex.induct)
  case (1 n)
  then show ?case by (subst fmt_hex.simps) (auto simp: hex_byte_val)
qed

lemma hex_val_snoc: "hex_val (ds @ [d]) = 16 * hex_val ds + hex_digit_val d"
  by (simp add: hex_val_def)

lemma hex_val_fmt_hex [simp]: "hex_val (fmt_hex n) = n"
proof (induction n rule: fmt_hex.induct)
  case (1 n)
  show ?case
  proof (cases "n < 16")
    case True
    then show ?thesis by (subst fmt_hex.simps) (simp add: hex_val_def hex_byte_val)
  next
    case False
    then show ?thesis using 1 by (subst fmt_hex.simps) (simp add: hex_val_snoc hex_byte_val)
  qed
qed

lemma fmt_hex_nonempty [simp]: "fmt_hex n \<noteq> []"
  by (subst fmt_hex.simps) simp

lemma fmt_hex_length: "n < 16 ^ k \<Longrightarrow> 0 < k \<Longrightarrow> length (fmt_hex n) \<le> k"
proof (induction k arbitrary: n)
  case (Suc k)
  show ?case
  proof (cases "n < 16")
    case False
    then have "0 < k" "n div 16 < 16 ^ k" using Suc.prems by (cases k; simp)+
    then show ?thesis using Suc.IH [of "n div 16"] False by (subst fmt_hex.simps) simp
  qed (subst fmt_hex.simps, simp)
qed simp

lemma group_hex:
  fixes w :: "16 word"
  shows "takeWhile is_hex (fmt_hex (unat w) @ colon # s) = fmt_hex (unat w)"
    "dropWhile is_hex (fmt_hex (unat w) @ colon # s) = colon # s"
    "takeWhile is_hex (fmt_hex (unat w)) = fmt_hex (unat w)"
    "dropWhile is_hex (fmt_hex (unat w)) = []"
    "\<not> 4 < length (fmt_hex (unat w))"
proof -
  have d: "list_all is_hex (fmt_hex (unat w))" by (rule fmt_hex_digits)
  have c: "\<not> is_hex colon" by (simp add: is_hex_def is_digit_def colon_def)
  show "takeWhile is_hex (fmt_hex (unat w) @ colon # s) = fmt_hex (unat w)"
    "dropWhile is_hex (fmt_hex (unat w) @ colon # s) = colon # s"
    "takeWhile is_hex (fmt_hex (unat w)) = fmt_hex (unat w)"
    "dropWhile is_hex (fmt_hex (unat w)) = []"
    using d c by (simp_all add: list_all_iff takeWhile_append dropWhile_append)
  have "length (fmt_hex (unat w)) \<le> 4"
    using unsigned_less [of w, where ?'a = nat] by (intro fmt_hex_length) simp_all
  then show "\<not> 4 < length (fmt_hex (unat w))" by simp
qed

lemma period_colon [simp]: "period \<noteq> colon" "colon \<noteq> period"
  by (simp_all add: period_def colon_def)

lemma fmt_hex_hd: "hd (fmt_hex n) \<noteq> colon" "fmt_hex n = c # t \<Longrightarrow> c \<noteq> colon"
  using fmt_hex_digits [of n] by (cases "fmt_hex n"; auto simp: is_hex_def is_digit_def colon_def)+

text \<open>One group followed by a colon and more text, and the last group.\<close>

lemma v6loop_group:
  assumes "length acc < 16" "s = c # t" "c \<noteq> colon"
  shows "v6loop (fmt_hex (unat w) @ colon # s) acc ell = v6loop s (acc @ PutUint16 w) ell"
  using assms by (subst v6loop.simps) (simp add: group_hex Let_def not_less)

lemma v6loop_last:
  "length acc < 16 \<Longrightarrow> v6loop (fmt_hex (unat w)) acc ell = Some (acc @ PutUint16 w, ell, [])"
  by (subst v6loop.simps) (simp add: group_hex Let_def not_less)

lemma v6loop_ellipsis:
  assumes "length acc < 16"
  shows "v6loop (fmt_hex (unat w) @ colon # colon # s) acc None =
    (if s = [] then Some (acc @ PutUint16 w, Some (length acc + 2), [])
     else v6loop s (acc @ PutUint16 w) (Some (length acc + 2)))"
  using assms by (subst v6loop.simps) (simp add: group_hex Let_def not_less)

abbreviation group_bytes :: "16 word list \<Rightarrow> bytes" where
  "group_bytes ws \<equiv> concat (map PutUint16 ws)"

lemma length_group_bytes: "length (group_bytes ws) = 2 * length ws"
  by (induction ws) simp_all

lemma group_string_Cons:
  "group_string (w # v # ws) = fmt_hex (unat w) @ colon # group_string (v # ws)"
  "group_string [w] = fmt_hex (unat w)"
  by (simp_all add: group_string_def)

lemma group_string_hd: "\<exists>c t. group_string (w # ws) = c # t \<and> c \<noteq> colon"
proof (cases "fmt_hex (unat w)")
  case (Cons c t)
  then show ?thesis using fmt_hex_hd(2) [OF Cons] by (cases ws) (auto simp: group_string_Cons)
qed simp

lemma v6loop_groups:
  assumes "length acc + 2 * length ws \<le> 16" "ws \<noteq> []"
  shows "v6loop (group_string ws) acc ell = Some (acc @ group_bytes ws, ell, [])"
  using assms
proof (induction ws arbitrary: acc)
  case (Cons w ws)
  show ?case
  proof (cases ws)
    case Nil
    then show ?thesis using Cons.prems by (simp add: group_string_Cons v6loop_last)
  next
    case (Cons v vs)
    obtain c t where "group_string (v # vs) = c # t" "c \<noteq> colon" using group_string_hd by blast
    then show ?thesis
      using Cons.prems Cons.IH [of "acc @ PutUint16 w"] v6loop_group [of acc "group_string (v # vs)" c t w ell]
      by (simp add: Cons group_string_Cons del: One_nat_def)
  qed
qed simp

lemma v6loop_groups_ellipsis:
  assumes "length acc + 2 * length ws < 16" "ws \<noteq> []"
  shows "v6loop (group_string ws @ colon # colon # s) acc None =
    (if s = [] then Some (acc @ group_bytes ws, Some (length acc + 2 * length ws), [])
     else v6loop s (acc @ group_bytes ws) (Some (length acc + 2 * length ws)))"
  using assms
proof (induction ws arbitrary: acc)
  case (Cons w ws)
  show ?case
  proof (cases ws)
    case Nil
    then show ?thesis using Cons.prems by (simp add: group_string_Cons v6loop_ellipsis)
  next
    case (Cons v vs)
    obtain c t where "group_string (v # vs) = c # t" "c \<noteq> colon" using group_string_hd by blast
    then show ?thesis
      using Cons.prems Cons.IH [of "acc @ PutUint16 w"]
        v6loop_group [of acc "group_string (v # vs) @ colon # colon # s" c "t @ colon # colon # s" w None]
      by (simp add: Cons group_string_Cons add.assoc del: One_nat_def)
  qed
qed simp

lemma zeros_at_run: "take (zeros_at ws i) (drop i ws) = replicate (zeros_at ws i) 0"
proof -
  have "take (zeros_at ws i) (drop i ws) = takeWhile (\<lambda>w. w = 0) (drop i ws)"
    unfolding zeros_at_def by (metis takeWhile_eq_take)
  moreover have "\<forall>w\<in>set (takeWhile (\<lambda>w. w = 0) (drop i ws)). w = 0" by (auto dest: set_takeWhileD)
  ultimately show ?thesis by (metis replicate_length_same zeros_at_def)
qed

lemma foldl_keeps: "I s \<Longrightarrow> (\<And>s x. I s \<Longrightarrow> I (f s x)) \<Longrightarrow> I (foldl f s xs)"
  by (induction xs arbitrary: s) simp_all

lemma zeroRun_Some:
  assumes "zeroRun ws = Some (i, l)"
  shows "2 \<le> l \<and> i + l \<le> length ws \<and> take l (drop i ws) = replicate l 0"
proof -
  have "\<forall>i l. zeroRun ws = Some (i, l) \<longrightarrow> 2 \<le> l \<and> l = zeros_at ws i"
    unfolding zeroRun_def by (rule foldl_keeps) (auto simp: Let_def split: if_splits)
  then have l: "2 \<le> l" "l = zeros_at ws i" using assms by simp_all
  have "l \<le> length ws - i" using length_takeWhile_le [of "\<lambda>w. w = 0" "drop i ws"] by (simp add: l(2) zeros_at_def)
  then show ?thesis using l zeros_at_run [of ws i] by simp
qed

lemma group_bytes_groups:
  assumes "length ip = 16"
  shows "group_bytes (groups ip) = ip" "length (groups ip) = 8"
proof -
  have "map PutUint16 (groups ip) = chunks 2 8 ip"
    unfolding groups_def map_map
    using assms length_chunk [of ip 8 2] by (intro map_idI) (simp add: be_simps)
  then show "group_bytes (groups ip) = ip" using concat_chunks [of ip 8 2] assms by simp
qed (simp add: groups_def)

lemma group_string_eq_Nil [simp]: "group_string ws = [] \<longleftrightarrow> ws = []"
  using group_string_hd by (cases ws) (auto simp: group_string_def, metis list.distinct(1))

lemma group_string_Nil [simp]: "group_string [] = []"
  by simp

lemma group_bytes_zero: "group_bytes (replicate l 0) = replicate (2 * l) 0"
  by (induction l) (simp_all add: PutUint16_def)

lemma not_ellipsis: "ws \<noteq> [] \<Longrightarrow> take 2 (group_string ws @ s) \<noteq> [colon, colon]"
  using group_string_hd by (cases ws) (auto, metis append_Cons list.sel(1) take_Suc_Cons numeral_2_eq_2)

lemma parseIPv6_String:
  assumes "length ip = 16"
  shows "parseIPv6 (IPv6_String ip) = Some ip"
proof (cases "zeroRun (groups ip)")
  case None
  have "groups ip \<noteq> []" using group_bytes_groups(2) [OF assms] by auto
  then show ?thesis
    using None assms not_ellipsis [of "groups ip" "[]"] v6loop_groups [of "[]" "groups ip" None]
    by (simp add: parseIPv6_def IPv6_String_def Let_def group_bytes_groups expandEllipsis_def)
next
  case (Some il)
  obtain i l where il: "zeroRun (groups ip) = Some (i, l)" using Some by (cases il) simp
  define a b where "a = take i (groups ip)" and "b = drop (i + l) (groups ip)"
  have l: "2 \<le> l" "i + l \<le> 8" "take l (drop i (groups ip)) = replicate l 0"
    using zeroRun_Some [OF il] by (simp_all add: group_bytes_groups(2) [OF assms])
  have "groups ip = a @ replicate l 0 @ b"
    unfolding a_def b_def l(3) [symmetric] by (metis append_take_drop_id drop_drop add.commute)
  then have ip: "ip = group_bytes a @ replicate (2 * l) 0 @ group_bytes b"
    using group_bytes_groups(1) [OF assms] by (metis concat_append map_append group_bytes_zero)
  have lens: "length a = i" "length b = 8 - (i + l)"
    using l(2) by (simp_all add: a_def b_def group_bytes_groups(2) [OF assms])
  have str: "IPv6_String ip = group_string a @ colon # colon # group_string b"
    by (simp add: IPv6_String_def il Let_def a_def b_def)
  have expand: "expandEllipsis (group_bytes a @ group_bytes b) (Some (2 * i)) = Some ip"
  proof -
    have "length (group_bytes a @ group_bytes b) = 16 - 2 * l" "16 - 2 * l < 16" "16 - (16 - 2 * l) = 2 * l"
      using l(1,2) lens by (simp_all add: length_group_bytes)
    then show ?thesis using lens by (simp add: expandEllipsis_def length_group_bytes ip)
  qed
  have loop: "b \<noteq> [] \<Longrightarrow> v6loop (group_string b) acc e = Some (acc @ group_bytes b, e, [])"
    if "length acc = 2 * i" for acc e
    using that l lens by (intro v6loop_groups) simp_all
  show ?thesis
  proof (cases "a = []")
    case True
    then have i: "i = 0" using lens by simp
    have s: "take 2 (IPv6_String ip) = [colon, colon]" "drop 2 (IPv6_String ip) = group_string b"
      by (simp_all add: str True)
    show ?thesis
    proof (cases "b = []")
      case True
      then have "ip = replicate 16 0" using ip \<open>a = []\<close> lens l by simp
      then show ?thesis using s True by (simp add: parseIPv6_def)
    next
      case False
      then show ?thesis
        using expand loop [of "[]" "Some 0"] s \<open>a = []\<close> i by (simp add: parseIPv6_def)
    qed
  next
    case False
    then show ?thesis
      using expand loop [of "group_bytes a" "Some (2 * i)"] l lens not_ellipsis [of a "colon # colon # group_string b"]
        v6loop_groups_ellipsis [of "[]" a "group_string b"]
      by (cases "b = []") (simp_all add: parseIPv6_def str Let_def length_group_bytes)
  qed
qed

lemma group_string_bytes: "b \<in> set (group_string ws) \<Longrightarrow> is_hex b \<or> b = colon"
  using set_join_with [of colon "map (\<lambda>w. fmt_hex (unat w)) ws"] fmt_hex_digits
  by (fastforce simp: group_string_def list_all_iff)

lemma IPv6_String_bytes:
  "b \<in> set (IPv6_String ip) \<Longrightarrow> is_hex b \<or> b = colon"
  by (auto simp: IPv6_String_def Let_def dest: group_string_bytes split: option.splits)

lemma colon_IPv6: "length ip = 16 \<Longrightarrow> colon \<in> set (IPv6_String ip)"
proof -
  assume "length ip = 16"
  then have "length (groups ip) = 8" by (rule group_bytes_groups(2))
  then obtain w v ws where "groups ip = w # v # ws" by (auto simp: length_Suc_conv numeral_eq_Suc)
  then show ?thesis by (auto simp: IPv6_String_def Let_def group_string_Cons split: option.split)
qed

lemma ParseIP_v6:
  assumes "length ip = 16"
  shows "ParseIP (IPv6_String ip) = Some ip"
proof -
  have h: "\<not> is_hex period" "\<not> is_hex 37" "colon \<noteq> 37"
    by (simp_all add: is_hex_def is_digit_def period_def colon_def)
  have "find (\<lambda>b. b = period \<or> b = colon \<or> b = 37) (IPv6_String ip) = Some colon"
    using colon_IPv6 [OF assms] h by (intro find_first) (auto dest!: IPv6_String_bytes)
  moreover have "37 \<notin> set (IPv6_String ip)" using h by (auto dest!: IPv6_String_bytes)
  ultimately show ?thesis by (simp add: ParseIP_def parseIPv6_String [OF assms])
qed

text \<open>A printed address parses to the address it was, in the 16-byte form.\<close>

lemma ParseIP_String:
  assumes "length ip = 4 \<or> length ip = 16"
  shows "ParseIP (IP_String ip) = To16 ip"
proof (cases "To4 ip")
  case None
  then have "length ip = 16" using assms by (auto simp: To4_def)
  moreover have "ip \<noteq> []" using assms by auto
  ultimately show ?thesis using None by (simp add: IP_String_def ParseIP_v6 To16_def)
next
  case (Some ip4)
  then have "To16 ip = Some (v4InV6Prefix @ ip4)" "length ip4 = 4"
    using To4_To16 [OF Some] To4_length [OF Some] by (simp_all add: To16_def)
  moreover have "ip \<noteq> []" using assms by auto
  ultimately show ?thesis using Some by (simp add: IP_String_def ParseIP_v4)
qed

lemma parseIPv4_length: "parseIPv4 s = Some x \<Longrightarrow> length x = 4"
  by (auto simp: parseIPv4_def Let_def split: if_splits)

definition v6_state_ok :: "bytes \<Rightarrow> nat option \<Rightarrow> bool" where
  "v6_state_ok acc e \<longleftrightarrow> length acc \<le> 16 \<and> even (length acc) \<and> (\<forall>x. e = Some x \<longrightarrow> x \<le> length acc)"

lemma v6_state_group:
  "v6_state_ok acc e \<Longrightarrow> length acc < 16 \<Longrightarrow>
     v6_state_ok (acc @ PutUint16 w) e \<and> v6_state_ok (acc @ PutUint16 w) (Some (length (acc @ PutUint16 w)))"
proof -
  assume a: "v6_state_ok acc e" "length acc < 16"
  have "n + 2 \<le> 16" if "even n" "n < 16" for n :: nat using that by presburger
  then have "length acc + 2 \<le> 16" using a by (simp add: v6_state_ok_def)
  then show ?thesis using a by (auto simp: v6_state_ok_def)
qed

lemma v6loop_eq:
  assumes "\<not> 16 \<le> length acc" "dropWhile is_hex s = c # r"
  shows "v6loop s acc ell =
    (let h = takeWhile is_hex s; acc' = acc @ PutUint16 (of_nat (hex_val h))
     in if h = [] \<or> length h > 4 then None
        else if c = period
        then (if ell = None \<and> length acc \<noteq> 12 \<or> length acc + 4 > 16 then None
              else case parseIPv4 s of None \<Rightarrow> None | Some f \<Rightarrow> Some (acc @ f, ell, []))
        else if c \<noteq> colon then None
        else case r of
               [] \<Rightarrow> None
             | c2 # r2 \<Rightarrow>
                 if c2 \<noteq> colon then v6loop r acc' ell
                 else if ell \<noteq> None then None
                 else if r2 = [] then Some (acc', Some (length acc'), [])
                 else v6loop r2 acc' (Some (length acc')))"
  by (subst v6loop.simps) (simp add: assms Let_def)

lemma v6loop_end:
  assumes "\<not> 16 \<le> length acc" "dropWhile is_hex s = []"
  shows "v6loop s acc ell =
    (let h = takeWhile is_hex s
     in if h = [] \<or> length h > 4 then None else Some (acc @ PutUint16 (of_nat (hex_val h)), ell, []))"
  by (subst v6loop.simps) (simp add: assms Let_def)

lemma v6loop_state:
  "v6loop s acc e = Some (a, e', l) \<Longrightarrow> v6_state_ok acc e \<Longrightarrow> v6_state_ok a e'"
proof (induction "length s" arbitrary: s acc e rule: less_induct)
  case less
  show ?case
  proof (cases "length acc \<ge> 16")
    case True
    then show ?thesis using less.prems by (subst (asm) v6loop.simps) simp
  next
    case False
    define w where "w = (of_nat (hex_val (takeWhile is_hex s)) :: 16 word)"
    have ok: "v6_state_ok (acc @ PutUint16 w) e" "v6_state_ok (acc @ PutUint16 w) (Some (length (acc @ PutUint16 w)))"
      using v6_state_group [OF less.prems(2)] False by simp_all
    have IH: "v6loop s' (acc @ PutUint16 w) e1 = Some (a, e', l) \<Longrightarrow> length s' < length s \<Longrightarrow>
        v6_state_ok (acc @ PutUint16 w) e1 \<Longrightarrow> v6_state_ok a e'" for s' e1
      by (rule less.hyps)
    show ?thesis
    proof (cases "dropWhile is_hex s")
      case Nil
      then show ?thesis using less.prems(1) ok unfolding v6loop_end [OF False Nil]
        by (auto simp: Let_def w_def split: if_splits)
    next
      case (Cons c r)
      have r: "length r < length s" by (rule dropWhile_shorter [OF Cons])
      show ?thesis
      proof (cases "c = period")
        case True
        then show ?thesis using less.prems unfolding v6loop_eq [OF False Cons]
          by (auto simp: Let_def v6_state_ok_def split: if_splits option.splits dest!: parseIPv4_length)
      next
        case False
        note c = this
        show ?thesis
        proof (cases r)
          case Nil
          then show ?thesis using less.prems(1) c unfolding v6loop_eq [OF \<open>\<not> 16 \<le> length acc\<close> \<open>dropWhile is_hex s = c # r\<close>]
            by (auto simp: Let_def split: if_splits)
        next
          case (Cons c2 r2)
          then have lens: "length (c2 # r2) < length s" "length r2 < length s" using r by simp_all
          show ?thesis
            using less.prems(1) c ok lens IH [of "c2 # r2" e] IH [of r2 "Some (length (acc @ PutUint16 w))"]
            unfolding v6loop_eq [OF \<open>\<not> 16 \<le> length acc\<close> \<open>dropWhile is_hex s = c # r\<close>]
            by (auto simp: Let_def Cons w_def split: if_splits)
        qed
      qed
    qed
  qed
qed

lemma ParseIP_length: "ParseIP s = Some ip \<Longrightarrow> length ip = 16"
proof -
  have v6: "length a \<le> 16" "\<And>x. e' = Some x \<Longrightarrow> x \<le> length a"
    if "v6loop s [] e = Some (a, e', l)" "e \<in> {None, Some 0}" for s e a e' l
    using v6loop_state [OF that(1)] that(2) by (auto simp: v6_state_ok_def)
  assume "ParseIP s = Some ip"
  then show ?thesis
    by (auto simp: ParseIP_def parseIPv6_def expandEllipsis_def v4InV6Prefix_def Let_def
        split: option.splits if_splits prod.splits dest: parseIPv4_length v6)
qed

section \<open>Addresses inside a network\<close>

text \<open>The condition under which the program refuses a peer or a tracker host.\<close>

definition reserved :: "IP \<Rightarrow> bool" where
  "reserved ip \<longleftrightarrow> IsLoopback ip \<or> IsPrivate ip \<or> IsLinkLocalUnicast ip \<or> IsLinkLocalMulticast ip \<or> IsUnspecified ip"

text \<open>The 16-byte form of an address is reserved exactly when the address is.\<close>

lemma To4_mapped [simp]: "length ip = 4 \<Longrightarrow> To4 (v4InV6Prefix @ ip) = Some ip"
  by (simp add: To4_def v4InV6Prefix_def)

lemma reserved_To16:
  assumes "To16 ip = Some ip16"
  shows "reserved ip16 \<longleftrightarrow> reserved ip"
proof (cases "length ip = 4")
  case True
  then have "ip16 = v4InV6Prefix @ ip" using assms by (simp add: To16_def)
  moreover have "(v4InV6Prefix @ ip) ! 10 \<noteq> replicate 16 0 ! 10" by (simp add: v4InV6Prefix_def nth_append)
  then have "v4InV6Prefix @ ip \<noteq> replicate 16 0" by metis
  moreover have "length ip \<noteq> length (replicate 16 (0 :: byte))" using True by simp
  then have "ip \<noteq> replicate 16 0" by metis
  ultimately show ?thesis
    using True by (simp add: reserved_def IsLoopback_def IsPrivate_def IsLinkLocalUnicast_def
        IsLinkLocalMulticast_def IsUnspecified_def To4_id)
next
  case False
  then show ?thesis using assms by (simp add: To16_def split: if_splits)
qed

section \<open>Joining and splitting host and port\<close>

lemma last_index_append: "c \<notin> set t \<Longrightarrow> last_index c (s @ c # t) = Some (length s)"
proof -
  assume "c \<notin> set t"
  then have "takeWhile (\<lambda>b. b \<noteq> c) (rev t @ c # rev s) = rev t" by (auto simp: takeWhile_append)
  then show ?thesis by (simp add: last_index_def)
qed

definition host_ok :: "bytes \<Rightarrow> bool" where
  "host_ok h \<longleftrightarrow> h \<noteq> [] \<and> bracket_open \<notin> set h \<and> bracket_close \<notin> set h"

lemma bracket_bytes: "bracket_open \<noteq> colon" "bracket_close \<noteq> colon" "bracket_open \<noteq> bracket_close"
  by (simp_all add: bracket_open_def bracket_close_def colon_def)

lemma Split_bracketed:
  assumes "host_ok host" "colon \<notin> set port" "bracket_open \<notin> set port" "bracket_close \<notin> set port"
  shows "SplitHostPort ([bracket_open] @ host @ [bracket_close, colon] @ port) = Some (host, port)"
proof -
  let ?s = "bracket_open # host @ bracket_close # colon # port"
  have "last_index colon ((bracket_open # host @ [bracket_close]) @ colon # port) = Some (length host + 2)"
    by (subst last_index_append) (simp_all add: assms)
  then have i: "last_index colon ?s = Some (length host + 2)" by simp
  have "takeWhile (\<lambda>b. b \<noteq> bracket_close) ?s = bracket_open # host"
    using assms(1) bracket_bytes by (simp add: host_ok_def takeWhile_append)
  then show ?thesis
    using assms bracket_bytes i by (simp add: SplitHostPort_def host_ok_def Let_def slice_def)
qed

lemma Split_plain:
  assumes "host_ok host" "colon \<notin> set host" "colon \<notin> set port" "bracket_open \<notin> set port" "bracket_close \<notin> set port"
  shows "SplitHostPort (host @ [colon] @ port) = Some (host, port)"
proof -
  have "host ! 0 \<noteq> bracket_open" using assms(1) by (cases host) (auto simp: host_ok_def)
  then show ?thesis
    using assms bracket_bytes last_index_append [of colon port host]
    by (simp add: SplitHostPort_def host_ok_def Let_def nth_append)
qed

lemma Split_Join:
  assumes "host_ok host" "colon \<notin> set port" "bracket_open \<notin> set port" "bracket_close \<notin> set port"
  shows "SplitHostPort (JoinHostPort host port) = Some (host, port)"
  using assms by (simp add: JoinHostPort_def Split_bracketed [simplified] Split_plain [simplified])

lemma IP_String_host_ok:
  assumes "length ip = 4 \<or> length ip = 16"
  shows "host_ok (IP_String ip)"
proof -
  have b: "\<not> is_hex bracket_open" "\<not> is_hex bracket_close" "\<not> is_digit bracket_open" "\<not> is_digit bracket_close"
    "bracket_open \<noteq> colon" "bracket_close \<noteq> colon" "bracket_open \<noteq> period" "bracket_close \<noteq> period"
    by (simp_all add: is_hex_def is_digit_def bracket_open_def bracket_close_def colon_def period_def)
  have v4: "host_ok (IPv4_String x)" if "length x = 4" for x
  proof -
    have "IPv4_String x \<noteq> []" using period_IPv4 [OF that] by (metis empty_iff list.set(1))
    then show ?thesis using b by (auto simp: host_ok_def dest: IPv4_String_bytes)
  qed
  have v6: "host_ok (IPv6_String x)" if "length x = 16" for x
  proof -
    have "IPv6_String x \<noteq> []" using colon_IPv6 [OF that] by (metis empty_iff list.set(1))
    then show ?thesis using b by (auto simp: host_ok_def dest: IPv6_String_bytes)
  qed
  have ne: "ip \<noteq> []" using assms by auto
  show ?thesis
  proof (cases "To4 ip")
    case None
    then have "length ip = 16" using assms by (auto simp: To4_def)
    then show ?thesis using v6 None ne by (simp add: IP_String_def)
  next
    case (Some ip4)
    then show ?thesis using v4 [OF To4_length [OF Some]] ne by (simp add: IP_String_def)
  qed
qed

lemma digits_port_ok:
  assumes "list_all is_digit port"
  shows "colon \<notin> set port" "bracket_open \<notin> set port" "bracket_close \<notin> set port"
  using assms by (auto simp: list_all_iff is_digit_def colon_def bracket_open_def bracket_close_def)

text \<open>An address and port printed as \<open>host:port\<close> give the same address and port when read.\<close>

lemma printed_addr:
  assumes "length ip = 4 \<or> length ip = 16"
  shows "SplitHostPort (JoinHostPort (IP_String ip) (fmt_nat p)) = Some (IP_String ip, fmt_nat p)"
  using Split_Join IP_String_host_ok [OF assms] digits_port_ok [OF fmt_nat_digits] by blast

end
