(* ===== verification/Dht_Table.thy ===== *)
theory Dht_Table
  imports Go_Net Go_Map Step_Systems
begin

text \<open>
  The Kademlia identifiers, their distance and the routing table (\<^verbatim>\<open>src/dht/id.go\<close>, \<^verbatim>\<open>src/dht/table.go\<close>).
  An ID is its 20 bytes; the distance of two IDs is read as a number by \<open>id_val\<close>. \<open>Update\<close> takes the
  current time as an argument.
\<close>

section \<open>Identifiers\<close>

type_synonym ID = bytes

definition IDFromBytes :: "bytes \<Rightarrow> ID" where
  "IDFromBytes b = take 20 (b @ replicate (20 - length b) 0)"

definition Distance :: "ID \<Rightarrow> ID \<Rightarrow> ID" where
  "Distance a b = map2 (\<lambda>x y. x XOR y) a b"

definition LeadingZeros8 :: "byte \<Rightarrow> nat" where
  "LeadingZeros8 b = length (takeWhile (\<lambda>i. \<not> bit b (7 - i)) [0..<8])"

primrec zeroPrefixFrom :: "ID \<Rightarrow> nat \<Rightarrow> nat" where
  "zeroPrefixFrom [] i = 160"
| "zeroPrefixFrom (b # bs) i = (if b \<noteq> 0 then i * 8 + LeadingZeros8 b else zeroPrefixFrom bs (Suc i))"

definition ZeroPrefixLen :: "ID \<Rightarrow> nat" where
  "ZeroPrefixLen d = zeroPrefixFrom d 0"

fun Less :: "ID \<Rightarrow> ID \<Rightarrow> bool" where
  "Less (a # as) (b # bs) = (if a \<noteq> b then a < b else Less as bs)"
| "Less _ _ = False"

record UDPAddr =
  ua_IP :: bytes
  ua_Port :: int

record CompactNodeInfo =
  ci_ID :: ID
  ci_Addr :: UDPAddr

definition portBytes :: "int \<Rightarrow> bytes" where
  "portBytes p = [of_int (p div 256), of_int p]"

definition marshalNode :: "CompactNodeInfo \<Rightarrow> bytes" where
  "marshalNode n =
     ci_ID n @ (case To4 (ua_IP (ci_Addr n)) of
                  None \<Rightarrow> replicate 6 0
                | Some ip \<Rightarrow> ip @ portBytes (ua_Port (ci_Addr n)))"

definition MarshalCompactNodeInfo :: "CompactNodeInfo list \<Rightarrow> bytes" where
  "MarshalCompactNodeInfo nodes = concat (map marshalNode nodes)"

definition marshalNode6 :: "CompactNodeInfo \<Rightarrow> bytes" where
  "marshalNode6 n =
     ci_ID n @ (if To16 (ua_IP (ci_Addr n)) \<noteq> None \<and> To4 (ua_IP (ci_Addr n)) = None
                then the (To16 (ua_IP (ci_Addr n))) else replicate 16 0) @ portBytes (ua_Port (ci_Addr n))"

definition MarshalCompactNodeInfo6 :: "CompactNodeInfo list \<Rightarrow> bytes" where
  "MarshalCompactNodeInfo6 nodes = concat (map marshalNode6 nodes)"

definition unmarshalNode :: "nat \<Rightarrow> bytes \<Rightarrow> CompactNodeInfo" where
  "unmarshalNode ipLen b =
     \<lparr>ci_ID = take 20 b,
      ci_Addr = \<lparr>ua_IP = slice 20 (20 + ipLen) b,
                 ua_Port = uint (b ! (20 + ipLen)) * 256 + uint (b ! (21 + ipLen))\<rparr>\<rparr>"

definition UnmarshalCompactNodeInfo6 :: "bytes \<Rightarrow> CompactNodeInfo list option" where
  "UnmarshalCompactNodeInfo6 data =
     (if length data mod 38 \<noteq> 0 then None
      else Some (map (unmarshalNode 16) (chunks 38 (length data div 38) data)))"

definition UnmarshalCompactNodeInfo :: "bytes \<Rightarrow> CompactNodeInfo list option" where
  "UnmarshalCompactNodeInfo data =
     (if length data mod 26 \<noteq> 0 then None
      else Some (map (unmarshalNode 4) (chunks 26 (length data div 26) data)))"

section \<open>The routing table\<close>

definition dht_K :: nat where "dht_K = 8"
definition NumBuckets :: nat where "NumBuckets = 160"

record Node =
  n_ID :: ID
  n_Addr :: UDPAddr
  n_LastSeen :: int

record RoutingTable =
  rt_self :: ID
  rt_buckets :: "Node list list"

definition NewRoutingTable :: "ID \<Rightarrow> RoutingTable" where
  "NewRoutingTable self = \<lparr>rt_self = self, rt_buckets = replicate NumBuckets []\<rparr>"

definition bucketIndex :: "RoutingTable \<Rightarrow> ID \<Rightarrow> nat" where
  "bucketIndex rt i =
     (let idx = ZeroPrefixLen (Distance (rt_self rt) i) in if idx \<ge> NumBuckets then NumBuckets - 1 else idx)"

text \<open>The first node with the given ID is refreshed and moved to the tail; \<open>now\<close> is the time.\<close>

primrec touch :: "int \<Rightarrow> Node \<Rightarrow> Node list \<Rightarrow> Node list option" where
  "touch now n [] = None"
| "touch now n (e # es) =
     (if n_ID e = n_ID n then Some (es @ [e\<lparr>n_Addr := n_Addr n, n_LastSeen := now\<rparr>])
      else map_option ((#) e) (touch now n es))"

definition Update :: "int \<Rightarrow> RoutingTable \<Rightarrow> Node \<Rightarrow> RoutingTable" where
  "Update now rt n =
     (if n_ID n = rt_self rt then rt
      else
        (let idx = bucketIndex rt (n_ID n); b = rt_buckets rt ! idx
         in case touch now n b of
              Some b' \<Rightarrow> rt\<lparr>rt_buckets := (rt_buckets rt)[idx := b']\<rparr>
            | None \<Rightarrow>
                if length b < dht_K
                then rt\<lparr>rt_buckets := (rt_buckets rt)[idx := b @ [n\<lparr>n_LastSeen := now\<rparr>]]\<rparr>
                else rt))"

text \<open>
  The insertion sort of \<open>sortByDistance\<close> and \<open>sortEntries\<close>. The elements before the current one
  are kept in reverse; \<open>shiftIn\<close> is the inner loop, which moves larger elements up.
\<close>

primrec shiftIn :: "('a \<Rightarrow> ID) \<Rightarrow> 'a \<Rightarrow> 'a list \<Rightarrow> 'a list" where
  "shiftIn dist key [] = [key]"
| "shiftIn dist key (x # xs) = (if Less (dist key) (dist x) then x # shiftIn dist key xs else key # x # xs)"

definition insertionSort :: "('a \<Rightarrow> ID) \<Rightarrow> 'a list \<Rightarrow> 'a list" where
  "insertionSort dist xs = rev (foldl (\<lambda>before key. shiftIn dist key before) [] xs)"

definition sortByDistance :: "Node list \<Rightarrow> ID \<Rightarrow> Node list" where
  "sortByDistance nodes target = insertionSort (\<lambda>n. Distance (n_ID n) target) nodes"

definition AllNodes :: "RoutingTable \<Rightarrow> Node list" where
  "AllNodes rt = concat (rt_buckets rt)"

definition Len :: "RoutingTable \<Rightarrow> nat" where
  "Len rt = foldl (\<lambda>tot b. tot + length b) 0 (rt_buckets rt)"

definition Closest :: "RoutingTable \<Rightarrow> ID \<Rightarrow> nat \<Rightarrow> Node list" where
  "Closest rt target k =
     (let sorted = sortByDistance (AllNodes rt) target
      in if length sorted > k then take k sorted else sorted)"

section \<open>Distances as numbers\<close>

primrec id_val :: "ID \<Rightarrow> nat" where
  "id_val [] = 0"
| "id_val (b # bs) = unat b * 256 ^ length bs + id_val bs"

lemma id_val_less: "id_val bs < 256 ^ length bs"
proof (induction bs)
  case (Cons b bs)
  have "unat b \<le> 255" using unsigned_less [of b, where ?'a = nat] by simp
  then have "unat b * 256 ^ length bs \<le> 255 * 256 ^ length bs" by (rule mult_right_mono) simp
  then show ?case using Cons.IH unfolding id_val.simps list.size(4) add_Suc_right add_0_right power_Suc by linarith
qed simp

lemma Less_id_val: "length a = length b \<Longrightarrow> Less a b \<longleftrightarrow> id_val a < id_val b"
proof (induction a b rule: Less.induct)
  case (1 x a y b)
  have len: "length a = length b" using "1.prems" by simp
  show ?case
  proof (cases "x = y")
    case True
    then show ?thesis using 1 len by simp
  next
    case False
    have lt: "id_val (u # c) < id_val (v # d)" if "u < v" "length c = length d" for u v :: byte and c d
    proof -
      have "Suc (unat u) \<le> unat v" using that(1) by (simp add: word_less_nat_alt)
      then have "Suc (unat u) * 256 ^ length c \<le> unat v * 256 ^ length c" by (rule mult_right_mono) simp
      then show ?thesis using id_val_less [of c] unfolding id_val.simps mult_Suc that(2) by linarith
    qed
    consider "x < y" | "y < x" using False by (meson linorder_neqE)
    then show ?thesis
    proof cases
      case 1
      then show ?thesis using lt [OF 1 len] False by simp
    next
      case 2
      then show ?thesis using lt [OF 2 len [symmetric]] False by auto
    qed
  qed
qed auto

lemma id_val_inj: "length a = length b \<Longrightarrow> id_val a = id_val b \<longleftrightarrow> a = b"
proof (induction a b rule: list_induct2)
  case (Cons x a y b)
  show ?case
  proof
    assume eq: "id_val (x # a) = id_val (y # b)"
    have "\<not> Less (x # a) (y # b)" "\<not> Less (y # b) (x # a)"
      using Less_id_val [of "x # a" "y # b"] Less_id_val [of "y # b" "x # a"] eq Cons.hyps by simp_all
    then have "x = y" by (auto split: if_splits)
    then show "x # a = y # b" using eq Cons by simp
  qed simp
qed simp

section \<open>Insertion sort\<close>

lemma mset_shiftIn: "mset (shiftIn dist key xs) = add_mset key (mset xs)"
  by (induction xs) auto

lemma filter_shiftIn:
  assumes "\<forall>x\<in>set xs. length (dist x) = length (dist key)"
  shows "filter (\<lambda>x. id_val (dist x) = v) (shiftIn dist key xs) =
    (if id_val (dist key) = v then key # filter (\<lambda>x. id_val (dist x) = v) xs else filter (\<lambda>x. id_val (dist x) = v) xs)"
  using assms
proof (induction xs)
  case (Cons x xs)
  have "Less (dist key) (dist x) \<longleftrightarrow> id_val (dist key) < id_val (dist x)"
    using Cons.prems by (intro Less_id_val) simp
  then show ?case using Cons by auto
qed simp

lemma sorted_shiftIn:
  assumes "\<forall>x\<in>set xs. length (dist x) = length (dist key)" "sorted_wrt (\<lambda>x y. id_val (dist x) \<ge> id_val (dist y)) xs"
  shows "sorted_wrt (\<lambda>x y. id_val (dist x) \<ge> id_val (dist y)) (shiftIn dist key xs)"
  using assms
proof (induction xs)
  case (Cons x xs)
  have "Less (dist key) (dist x) \<longleftrightarrow> id_val (dist key) < id_val (dist x)"
    using Cons.prems(1) by (intro Less_id_val) simp
  moreover have "set (shiftIn dist key xs) = insert key (set xs)" by (metis mset_shiftIn set_mset_add_mset_insert set_mset_mset)
  ultimately show ?case using Cons by fastforce
qed simp

text \<open>The insertion sort is the stable sort by the distance read as a number.\<close>

lemma insertionSort_sort_key:
  assumes "\<forall>x\<in>set xs. length (dist x) = L"
  shows "insertionSort dist xs = sort_key (\<lambda>x. id_val (dist x)) xs"
proof -
  let ?acc = "\<lambda>xs. foldl (\<lambda>before key. shiftIn dist key before) [] xs"
  have "mset (?acc xs) = mset xs \<and> sorted_wrt (\<lambda>x y. id_val (dist x) \<ge> id_val (dist y)) (?acc xs) \<and>
      (\<forall>v. rev (filter (\<lambda>x. id_val (dist x) = v) (?acc xs)) = filter (\<lambda>x. id_val (dist x) = v) xs)"
    using assms
  proof (induction xs rule: rev_induct)
    case (snoc x xs)
    then have IH: "mset (?acc xs) = mset xs" "sorted_wrt (\<lambda>x y. id_val (dist x) \<ge> id_val (dist y)) (?acc xs)"
      "\<forall>v. rev (filter (\<lambda>x. id_val (dist x) = v) (?acc xs)) = filter (\<lambda>x. id_val (dist x) = v) xs" by simp_all
    have "set (?acc xs) = set xs" using IH(1) by (rule mset_eq_setD)
    then have len: "\<forall>y\<in>set (?acc xs). length (dist y) = length (dist x)" using snoc.prems by simp
    show ?case
      using IH sorted_shiftIn [OF len IH(2)] filter_shiftIn [OF len] by (simp add: mset_shiftIn)
  qed simp
  then have acc: "mset (?acc xs) = mset xs" "sorted_wrt (\<lambda>x y. id_val (dist x) \<ge> id_val (dist y)) (?acc xs)"
    "\<And>v. rev (filter (\<lambda>x. id_val (dist x) = v) (?acc xs)) = filter (\<lambda>x. id_val (dist x) = v) xs" by simp_all
  show ?thesis
    unfolding insertionSort_def
  proof (rule properties_for_sort_key [symmetric])
    show "mset (rev (?acc xs)) = mset xs" using acc(1) by simp
    show "filter (\<lambda>x. id_val (dist k) = id_val (dist x)) (rev (?acc xs)) = filter (\<lambda>x. id_val (dist k) = id_val (dist x)) xs" for k
      using acc(3) [of "id_val (dist k)"] by (simp add: rev_filter eq_commute)
    show "sorted (map (\<lambda>x. id_val (dist x)) (rev (?acc xs)))"
      using acc(2) by (simp add: sorted_map sorted_wrt_rev)
  qed
qed

section \<open>The table's invariant\<close>

definition table_ok :: "RoutingTable \<Rightarrow> bool" where
  "table_ok rt \<longleftrightarrow> length (rt_self rt) = 20 \<and> length (rt_buckets rt) = NumBuckets \<and>
     (\<forall>i<NumBuckets. length (rt_buckets rt ! i) \<le> dht_K \<and> distinct (map n_ID (rt_buckets rt ! i)) \<and>
        (\<forall>n\<in>set (rt_buckets rt ! i). length (n_ID n) = 20 \<and> n_ID n \<noteq> rt_self rt \<and> bucketIndex rt (n_ID n) = i))"

definition lookup_addr :: "RoutingTable \<Rightarrow> ID \<Rightarrow> UDPAddr option" where
  "lookup_addr rt i = map_of (map (\<lambda>n. (n_ID n, n_Addr n)) (AllNodes rt)) i"

lemma bucketIndex_less [simp]: "bucketIndex rt i < NumBuckets"
  by (simp add: bucketIndex_def Let_def NumBuckets_def)

lemma touch_None: "touch now n b = None \<longleftrightarrow> n_ID n \<notin> n_ID ` set b"
  by (induction b) auto

abbreviation addrs :: "Node list \<Rightarrow> (ID \<times> UDPAddr) list" where
  "addrs b \<equiv> map (\<lambda>n. (n_ID n, n_Addr n)) b"

lemma dom_addrs: "map_of (addrs b) i = None \<longleftrightarrow> i \<notin> n_ID ` set b"
  by (auto simp: map_of_eq_None_iff image_iff)

lemma touch_Some:
  assumes "touch now n b = Some b'" "distinct (map n_ID b)"
  shows "length b' = length b" "n_ID ` set b' = n_ID ` set b" "distinct (map n_ID b')"
    "map_of (addrs b') = (map_of (addrs b))(n_ID n \<mapsto> n_Addr n)" "n_ID n \<in> n_ID ` set b"
proof -
  have "length b' = length b \<and> n_ID ` set b' = n_ID ` set b \<and> distinct (map n_ID b') \<and>
    map_of (addrs b') = (map_of (addrs b))(n_ID n \<mapsto> n_Addr n) \<and> n_ID n \<in> n_ID ` set b"
    using assms
  proof (induction b arbitrary: b')
    case (Cons e b)
    show ?case
    proof (cases "n_ID e = n_ID n")
      case True
      then have b': "b' = b @ [e\<lparr>n_Addr := n_Addr n, n_LastSeen := now\<rparr>]" using Cons.prems(1) by simp
      have fresh: "n_ID n \<notin> n_ID ` set b" using Cons.prems(2) True by auto
      then have "map_of (addrs b) (n_ID n) = None" by (simp add: dom_addrs)
      then have "map_of (addrs b') = (map_of (addrs (e # b)))(n_ID n \<mapsto> n_Addr n)"
        using True by (intro ext) (auto simp: b' map_add_def split: option.split)
      moreover have "length b' = length (e # b)" "n_ID ` set b' = n_ID ` set (e # b)" "distinct (map n_ID b')"
        "n_ID n \<in> n_ID ` set (e # b)"
        using Cons.prems(2) True by (auto simp: b')
      ultimately show ?thesis by blast
    next
      case False
      then obtain c where c: "touch now n b = Some c" "b' = e # c" using Cons.prems(1) by auto
      have dd: "distinct (map n_ID b)" using Cons.prems(2) by simp
      have IH: "length c = length b" "n_ID ` set c = n_ID ` set b" "distinct (map n_ID c)"
        "map_of (addrs c) = (map_of (addrs b))(n_ID n \<mapsto> n_Addr n)" "n_ID n \<in> n_ID ` set b"
        using Cons.IH [OF c(1) dd] by blast+
      have "map_of (addrs b') = (map_of (addrs (e # b)))(n_ID n \<mapsto> n_Addr n)"
        using False IH(4) by (simp add: c(2) fun_upd_twist)
      moreover have "distinct (map n_ID b')" using IH(2,3) Cons.prems(2) by (simp add: c(2))
      moreover have "length b' = length (e # b)" "n_ID ` set b' = n_ID ` set (e # b)" "n_ID n \<in> n_ID ` set (e # b)"
        using IH(1,2,5) by (simp_all add: c(2))
      ultimately show ?thesis by blast
    qed
  qed simp
  then show "length b' = length b" "n_ID ` set b' = n_ID ` set b" "distinct (map n_ID b')"
    "map_of (addrs b') = (map_of (addrs b))(n_ID n \<mapsto> n_Addr n)" "n_ID n \<in> n_ID ` set b"
    by blast+
qed

lemma map_of_concat:
  "k < length L \<Longrightarrow> \<forall>j<length L. j \<noteq> k \<longrightarrow> i \<notin> n_ID ` set (L ! j) \<Longrightarrow>
     map_of (addrs (concat L)) i = map_of (addrs (L ! k)) i"
proof (induction L arbitrary: k)
  case (Cons b L)
  show ?case
  proof (cases k)
    case 0
    have "i \<notin> n_ID ` set x" if x: "x \<in> set L" for x
    proof -
      obtain j where "j < length L" "x = L ! j" using x by (auto simp: in_set_conv_nth)
      then show ?thesis using Cons.prems(2) [rule_format, of "Suc j"] 0 by simp
    qed
    then have "i \<notin> n_ID ` set (concat L)" by auto
    then have "map_of (addrs (concat L)) i = None" by (simp only: dom_addrs) simp
    then show ?thesis using 0 by (simp add: map_add_def split: option.split)
  next
    case (Suc m)
    then have "i \<notin> n_ID ` set b" using Cons.prems(2) [rule_format, of 0] by simp
    then have "map_of (addrs b) i = None" by (simp only: dom_addrs) simp
    moreover have "map_of (addrs (concat L)) i = map_of (addrs (L ! m)) i"
      using Cons.prems Suc by (intro Cons.IH) auto
    ultimately show ?thesis using Suc by (simp add: map_add_def split: option.split)
  qed
qed simp

lemma lookup_addr_bucket:
  assumes "table_ok rt"
  shows "lookup_addr rt i = map_of (addrs (rt_buckets rt ! bucketIndex rt i)) i"
proof -
  have "i \<notin> n_ID ` set (rt_buckets rt ! j)" if "j < NumBuckets" "j \<noteq> bucketIndex rt i" for j
    using assms that by (auto simp: table_ok_def)
  then show ?thesis
    unfolding lookup_addr_def AllNodes_def using assms by (intro map_of_concat) (auto simp: table_ok_def)
qed

definition has_room :: "RoutingTable \<Rightarrow> ID \<Rightarrow> bool" where
  "has_room rt i \<longleftrightarrow> lookup_addr rt i \<noteq> None \<or> length (rt_buckets rt ! bucketIndex rt i) < dht_K"

lemma bucketIndex_cong: "rt_self rt' = rt_self rt \<Longrightarrow> bucketIndex rt' i = bucketIndex rt i"
  by (simp add: bucketIndex_def)

lemma set_bucket:
  assumes "table_ok rt" "length (n_ID n) = 20" "n_ID n \<noteq> rt_self rt" "idx = bucketIndex rt (n_ID n)"
    and "length b' \<le> dht_K" "distinct (map n_ID b')" "n_ID ` set b' = insert (n_ID n) (n_ID ` set (rt_buckets rt ! idx))"
    and "map_of (addrs b') = (map_of (addrs (rt_buckets rt ! idx)))(n_ID n \<mapsto> n_Addr n)"
  shows "table_ok (rt\<lparr>rt_buckets := (rt_buckets rt)[idx := b']\<rparr>) \<and>
    lookup_addr (rt\<lparr>rt_buckets := (rt_buckets rt)[idx := b']\<rparr>) = (lookup_addr rt)(n_ID n \<mapsto> n_Addr n)"
proof -
  let ?rt = "rt\<lparr>rt_buckets := (rt_buckets rt)[idx := b']\<rparr>"
  have ix: "bucketIndex ?rt i = bucketIndex rt i" for i by (rule bucketIndex_cong) simp
  have idx: "idx < NumBuckets" "length (rt_buckets rt) = NumBuckets" using assms(1,4) by (simp_all add: table_ok_def)
  have b: "length (n_ID m) = 20 \<and> n_ID m \<noteq> rt_self rt \<and> bucketIndex rt (n_ID m) = idx" if "m \<in> set b'" for m
  proof -
    have "n_ID m \<in> insert (n_ID n) (n_ID ` set (rt_buckets rt ! idx))" using that assms(7) by blast
    moreover have "\<forall>x\<in>set (rt_buckets rt ! idx). length (n_ID x) = 20 \<and> n_ID x \<noteq> rt_self rt \<and> bucketIndex rt (n_ID x) = idx"
      using assms(1) idx(1) by (simp add: table_ok_def)
    ultimately show ?thesis using assms(2-4) by auto
  qed
  have ok: "table_ok ?rt"
    unfolding table_ok_def
  proof (intro conjI allI impI)
    fix i
    assume i: "i < NumBuckets"
    have nth: "rt_buckets ?rt ! i = (if i = idx then b' else rt_buckets rt ! i)" using idx i by simp
    show "length (rt_buckets ?rt ! i) \<le> dht_K" "distinct (map n_ID (rt_buckets ?rt ! i))"
      unfolding nth using assms(1,5,6) i by (simp_all add: table_ok_def)
    show "\<forall>n\<in>set (rt_buckets ?rt ! i). length (n_ID n) = 20 \<and> n_ID n \<noteq> rt_self ?rt \<and> bucketIndex ?rt (n_ID n) = i"
      unfolding nth ix using assms(1) b i by (simp add: table_ok_def)
  qed (use assms(1) in \<open>simp_all add: table_ok_def\<close>)
  have "lookup_addr ?rt i = ((lookup_addr rt)(n_ID n \<mapsto> n_Addr n)) i" for i
  proof (cases "bucketIndex rt i = idx")
    case True
    then show ?thesis
      using idx assms(8) lookup_addr_bucket [OF ok, of i] lookup_addr_bucket [OF assms(1), of i] by (simp add: ix)
  next
    case False
    then have "i \<noteq> n_ID n" using assms(4) by blast
    then show ?thesis
      using False lookup_addr_bucket [OF ok, of i] lookup_addr_bucket [OF assms(1), of i] by (simp add: ix)
  qed
  then show ?thesis using ok by blast
qed

lemma Update_result:
  assumes "table_ok rt" "length (n_ID n) = 20"
  shows "table_ok (Update now rt n) \<and> rt_self (Update now rt n) = rt_self rt \<and>
    lookup_addr (Update now rt n) =
      (if n_ID n \<noteq> rt_self rt \<and> has_room rt (n_ID n) then (lookup_addr rt)(n_ID n \<mapsto> n_Addr n) else lookup_addr rt)"
proof (cases "n_ID n = rt_self rt")
  case True
  then show ?thesis using assms(1) by (simp add: Update_def)
next
  case False
  define idx where "idx = bucketIndex rt (n_ID n)"
  let ?b = "rt_buckets rt ! idx"
  have b: "length ?b \<le> dht_K" "distinct (map n_ID ?b)" using assms(1) by (simp_all add: table_ok_def idx_def)
  have known: "lookup_addr rt (n_ID n) \<noteq> None \<longleftrightarrow> n_ID n \<in> n_ID ` set ?b"
    using dom_addrs [of ?b "n_ID n"] by (simp add: lookup_addr_bucket [OF assms(1)] idx_def)
  show ?thesis
  proof (cases "touch now n ?b")
    case (Some b')
    note t = touch_Some [OF Some b(2)]
    have u: "Update now rt n = rt\<lparr>rt_buckets := (rt_buckets rt)[idx := b']\<rparr>"
      using False Some by (simp add: Update_def Let_def idx_def)
    have "has_room rt (n_ID n)" using known t(5) by (simp add: has_room_def)
    then show ?thesis
      using set_bucket [OF assms False idx_def, of b'] t b(1) False by (simp add: u insert_absorb)
  next
    case None
    then have fresh: "n_ID n \<notin> n_ID ` set ?b" by (simp add: touch_None)
    show ?thesis
    proof (cases "length ?b < dht_K")
      case True
      let ?b' = "?b @ [n\<lparr>n_LastSeen := now\<rparr>]"
      have u: "Update now rt n = rt\<lparr>rt_buckets := (rt_buckets rt)[idx := ?b']\<rparr>"
        using False None True by (simp add: Update_def Let_def idx_def)
      have "map_of (addrs ?b) (n_ID n) = None" using fresh by (simp only: dom_addrs) simp
      then have "map_of (addrs ?b') = (map_of (addrs ?b))(n_ID n \<mapsto> n_Addr n)"
        by (intro ext) (auto simp: map_add_def split: option.split)
      moreover have "has_room rt (n_ID n)" using True by (simp add: has_room_def idx_def)
      ultimately show ?thesis
        using set_bucket [OF assms False idx_def, of ?b'] True b(2) fresh False by (simp add: u)
    next
      case full: False
      then have "\<not> has_room rt (n_ID n)" using known fresh by (simp add: has_room_def idx_def)
      moreover have "Update now rt n = rt" using False None full by (simp add: Update_def Let_def idx_def)
      ultimately show ?thesis using assms(1) by simp
    qed
  qed
qed

lemma concat_index: "n \<in> set (concat L) \<Longrightarrow> \<exists>j<length L. n \<in> set (L ! j)"
proof -
  assume "n \<in> set (concat L)"
  then obtain b where "b \<in> set L" "n \<in> set b" by auto
  then show ?thesis by (metis in_set_conv_nth)
qed

lemma distinct_concat_index:
  "\<forall>j<length L. distinct (map n_ID (L ! j)) \<and> (\<forall>n\<in>set (L ! j). ix (n_ID n) = k + j) \<Longrightarrow> distinct (map n_ID (concat L))"
proof (induction L arbitrary: k)
  case (Cons b L)
  have b: "distinct (map n_ID b)" "\<forall>n\<in>set b. ix (n_ID n) = k" using Cons.prems [rule_format, of 0] by simp_all
  have L: "\<forall>j<length L. distinct (map n_ID (L ! j)) \<and> (\<forall>n\<in>set (L ! j). ix (n_ID n) = Suc k + j)"
  proof (intro allI impI)
    fix j assume "j < length L"
    then show "distinct (map n_ID (L ! j)) \<and> (\<forall>n\<in>set (L ! j). ix (n_ID n) = Suc k + j)"
      using Cons.prems [rule_format, of "Suc j"] by simp
  qed
  have ne: "ix (n_ID n) \<noteq> k" if "n \<in> set (concat L)" for n
  proof -
    obtain j where "j < length L" "n \<in> set (L ! j)" using concat_index [OF \<open>n \<in> set (concat L)\<close>] by blast
    then show ?thesis using L by auto
  qed
  have "n_ID n \<noteq> n_ID m" if "n \<in> set b" "m \<in> set (concat L)" for n m
    using b(2) [rule_format, OF that(1)] ne [OF that(2)] by auto
  then have "n_ID ` set b \<inter> n_ID ` set (concat L) = {}" by blast
  then show ?case using b(1) Cons.IH [OF L] by simp
qed simp

lemma table_distinct: "table_ok rt \<Longrightarrow> distinct (map n_ID (AllNodes rt))"
  unfolding AllNodes_def by (rule distinct_concat_index [of _ "bucketIndex rt" 0]) (simp add: table_ok_def)

lemma table_IDs:
  assumes "table_ok rt" "n \<in> set (AllNodes rt)"
  shows "length (n_ID n) = 20 \<and> n_ID n \<noteq> rt_self rt"
proof -
  obtain j where "j < NumBuckets" "n \<in> set (rt_buckets rt ! j)"
    using concat_index [of n "rt_buckets rt"] assms by (auto simp: AllNodes_def table_ok_def)
  then show ?thesis using assms(1) by (simp add: table_ok_def)
qed

lemma Len_AllNodes: "Len rt = length (AllNodes rt)"
proof -
  have "foldl (\<lambda>tot b. tot + length b) z L = z + length (concat L)" for z and L :: "Node list list"
    by (induction L arbitrary: z) auto
  then show ?thesis by (simp add: Len_def AllNodes_def)
qed

lemma table_size:
  assumes "table_ok rt"
  shows "length (AllNodes rt) \<le> 1280"
proof -
  have "length (concat L) \<le> 8 * length L" if "\<forall>b\<in>set L. length b \<le> 8" for L :: "Node list list"
    using that by (induction L) auto
  moreover have "\<forall>b\<in>set (rt_buckets rt). length b \<le> 8"
    using assms by (auto simp: table_ok_def in_set_conv_nth dht_K_def)
  ultimately have "length (concat (rt_buckets rt)) \<le> 8 * length (rt_buckets rt)" by blast
  then show ?thesis using assms by (simp add: AllNodes_def table_ok_def NumBuckets_def)
qed

inductive table_step :: "RoutingTable \<Rightarrow> RoutingTable \<Rightarrow> bool" where
  update: "length (n_ID n) = 20 \<Longrightarrow> table_step rt (Update now rt n)"

interpretation table_run: step_invariant table_step table_ok
  by unfold_locales (auto elim!: table_step.cases simp: Update_result)

lemma NewRoutingTable_ok: "length self = 20 \<Longrightarrow> table_ok (NewRoutingTable self)"
  by (simp add: table_ok_def NewRoutingTable_def)

lemma Distance_inj:
  "length a = length t \<Longrightarrow> length b = length t \<Longrightarrow> Distance a t = Distance b t \<longleftrightarrow> a = b"
proof (induction t arbitrary: a b)
  case (Cons x t)
  obtain y a' where a: "a = y # a'" "length a' = length t" using Cons.prems(1) by (cases a) auto
  obtain z b' where b: "b = z # b'" "length b' = length t" using Cons.prems(2) by (cases b) auto
  have "y = z" if "y XOR x = z XOR x"
  proof -
    have "(y XOR x) XOR x = (z XOR x) XOR x" using that by simp
    then show ?thesis by (simp add: xor.assoc)
  qed
  then show ?case using Cons.IH [OF a(2) b(2)] by (auto simp: a(1) b(1) Distance_def)
qed (simp add: Distance_def)

lemma length_Distance [simp]: "length (Distance a b) = min (length a) (length b)"
  by (simp add: Distance_def)

abbreviation dist_to :: "ID \<Rightarrow> Node \<Rightarrow> nat" where
  "dist_to target n \<equiv> id_val (Distance (n_ID n) target)"

lemma sortByDistance_sort_key:
  "\<forall>n\<in>set nodes. length (n_ID n) = 20 \<Longrightarrow> length target = 20 \<Longrightarrow>
     sortByDistance nodes target = sort_key (dist_to target) nodes"
  unfolding sortByDistance_def by (rule insertionSort_sort_key [of _ _ 20]) simp

lemma Closest_take:
  assumes "table_ok rt" "length target = 20"
  shows "Closest rt target k = take k (sort_key (dist_to target) (AllNodes rt))"
  using sortByDistance_sort_key [of "AllNodes rt" target] table_IDs [OF assms(1)] assms(2)
  by (simp add: Closest_def Let_def)

lemma dist_inj:
  assumes "table_ok rt" "length target = 20" "n \<in> set (AllNodes rt)" "m \<in> set (AllNodes rt)" "dist_to target n = dist_to target m"
  shows "n = m"
proof -
  have l: "length (n_ID n) = 20" "length (n_ID m) = 20" using table_IDs [OF assms(1)] assms(3,4) by simp_all
  then have "Distance (n_ID n) target = Distance (n_ID m) target" using assms(2,5) by (subst (asm) id_val_inj) simp_all
  then have "n_ID n = n_ID m" using Distance_inj [of "n_ID n" target "n_ID m"] l assms(2) by simp
  then show ?thesis using table_distinct [OF assms(1)] assms(3,4) by (meson distinct_map inj_onD)
qed

section \<open>Compact nodes\<close>

definition compact_ok :: "nat \<Rightarrow> CompactNodeInfo \<Rightarrow> bool" where
  "compact_ok ipLen n \<longleftrightarrow> length (ci_ID n) = 20 \<and> length (ua_IP (ci_Addr n)) = ipLen \<and>
     0 \<le> ua_Port (ci_Addr n) \<and> ua_Port (ci_Addr n) < 65536 \<and> (ipLen = 16 \<longrightarrow> To4 (ua_IP (ci_Addr n)) = None)"

lemma portBytes_roundtrip:
  assumes "0 \<le> p" "p < 65536"
  shows "uint (portBytes p ! 0) * 256 + uint (portBytes p ! 1) = p"
proof -
  have "0 \<le> p div 256" "p div 256 < 256" using assms by simp_all
  then have "uint (of_int (p div 256) :: byte) = p div 256" by (simp add: uint_word_of_int)
  moreover have "uint (of_int p :: byte) = p mod 256" by (simp add: uint_word_of_int)
  ultimately show ?thesis by (simp add: portBytes_def)
qed

lemma unmarshal_marshal:
  assumes "length (ci_ID n) = 20" "length ip = ipLen" "ua_IP (ci_Addr n) = ip" "0 \<le> ua_Port (ci_Addr n)" "ua_Port (ci_Addr n) < 65536"
  shows "unmarshalNode ipLen (ci_ID n @ ip @ portBytes (ua_Port (ci_Addr n))) = n"
  using assms portBytes_roundtrip [OF assms(4,5)]
  by (simp add: unmarshalNode_def nth_append)

lemma Unmarshal_Marshal:
  assumes "\<forall>n\<in>set ns. compact_ok 4 n"
  shows "UnmarshalCompactNodeInfo (MarshalCompactNodeInfo ns) = Some ns"
proof -
  have m: "marshalNode n = ci_ID n @ ua_IP (ci_Addr n) @ portBytes (ua_Port (ci_Addr n))" if "n \<in> set ns" for n
    using assms that by (simp add: marshalNode_def compact_ok_def To4_id)
  have len: "\<forall>b\<in>set (map marshalNode ns). length b = 26"
    using assms by (auto simp: m compact_ok_def portBytes_def)
  then have "length (MarshalCompactNodeInfo ns) = 26 * length ns"
    unfolding MarshalCompactNodeInfo_def using length_concat_const [of "map marshalNode ns" 26] by simp
  moreover have "chunks 26 (length ns) (MarshalCompactNodeInfo ns) = map marshalNode ns"
    unfolding MarshalCompactNodeInfo_def using chunks_concat [of "map marshalNode ns" 26] len by simp
  moreover have "map (unmarshalNode 4 \<circ> marshalNode) ns = ns"
    using assms by (intro map_idI) (simp add: m unmarshal_marshal compact_ok_def)
  ultimately show ?thesis by (simp add: UnmarshalCompactNodeInfo_def)
qed

lemma Unmarshal_Marshal6:
  assumes "\<forall>n\<in>set ns. compact_ok 16 n"
  shows "UnmarshalCompactNodeInfo6 (MarshalCompactNodeInfo6 ns) = Some ns"
proof -
  have m: "marshalNode6 n = ci_ID n @ ua_IP (ci_Addr n) @ portBytes (ua_Port (ci_Addr n))" if "n \<in> set ns" for n
    using assms that by (simp add: marshalNode6_def compact_ok_def To16_id)
  have len: "\<forall>b\<in>set (map marshalNode6 ns). length b = 38"
    using assms by (auto simp: m compact_ok_def portBytes_def)
  then have "length (MarshalCompactNodeInfo6 ns) = 38 * length ns"
    unfolding MarshalCompactNodeInfo6_def using length_concat_const [of "map marshalNode6 ns" 38] by simp
  moreover have "chunks 38 (length ns) (MarshalCompactNodeInfo6 ns) = map marshalNode6 ns"
    unfolding MarshalCompactNodeInfo6_def using chunks_concat [of "map marshalNode6 ns" 38] len by simp
  moreover have "map (unmarshalNode 16 \<circ> marshalNode6) ns = ns"
    using assms by (intro map_idI) (simp add: m unmarshal_marshal compact_ok_def)
  ultimately show ?thesis by (simp add: UnmarshalCompactNodeInfo6_def)
qed

lemma sorted_wrt_take:
  assumes "sorted_wrt R xs"
  shows "sorted_wrt R (take k xs)" "x \<in> set (take k xs) \<Longrightarrow> y \<in> set xs - set (take k xs) \<Longrightarrow> R x y"
proof -
  have s: "sorted_wrt R (take k xs @ drop k xs)" using assms by simp
  then show "sorted_wrt R (take k xs)" unfolding sorted_wrt_append by blast
  assume x: "x \<in> set (take k xs)" and y: "y \<in> set xs - set (take k xs)"
  have "set xs = set (take k xs) \<union> set (drop k xs)" by (metis append_take_drop_id set_append)
  with y have "y \<in> set (drop k xs)" by blast
  then show "R x y" using s x unfolding sorted_wrt_append by blast
qed

section \<open>Properties\<close>

text \<open>
  C28: The routing table keeps its shape and is a bounded address book. In every table reached by
  updates, each of the 160 buckets holds at most 8 nodes, each under the bucket its distance to the
  own ID selects, no ID occurs twice and the own ID never; the table has at most 1280 nodes. An
  update enters or replaces the address of its node when the node is known or its bucket has room,
  and changes no other address.
\<close>

theorem routing_table_correct:
  assumes "length self = 20" "rtranclp table_step (NewRoutingTable self) rt" "length (n_ID n) = 20"
  shows "table_ok rt \<and> distinct (map n_ID (AllNodes rt)) \<and> Len rt = length (AllNodes rt) \<and> Len rt \<le> 1280 \<and>
    lookup_addr (Update now rt n) =
      (if n_ID n \<noteq> rt_self rt \<and> has_room rt (n_ID n) then (lookup_addr rt)(n_ID n \<mapsto> n_Addr n) else lookup_addr rt)"
proof -
  have ok: "table_ok rt" by (rule table_run.reach_inv [OF assms(2) NewRoutingTable_ok [OF assms(1)]])
  then show ?thesis using Update_result [OF ok assms(3)] table_distinct table_size by (simp add: Len_AllNodes)
qed

definition demo_self :: ID where "demo_self = replicate 20 0"

definition demo_node :: "byte \<Rightarrow> Node" where
  "demo_node b = \<lparr>n_ID = b # replicate 19 0, n_Addr = \<lparr>ua_IP = [10, 0, 0, b], ua_Port = 6881\<rparr>, n_LastSeen = 0\<rparr>"

theorem routing_table_correct_witness:
  "\<exists>rt. table_step (NewRoutingTable demo_self) rt \<and> table_ok rt \<and> Len rt \<le> 1280 \<and>
     lookup_addr (Update 2 rt (demo_node 2)) =
       (if n_ID (demo_node 2) \<noteq> rt_self rt \<and> has_room rt (n_ID (demo_node 2))
        then (lookup_addr rt)(n_ID (demo_node 2) \<mapsto> n_Addr (demo_node 2)) else lookup_addr rt)"
proof -
  have s: "table_step (NewRoutingTable demo_self) (Update 1 (NewRoutingTable demo_self) (demo_node 1))"
    by (rule table_step.update) (simp add: demo_node_def)
  have "length demo_self = 20" "length (n_ID (demo_node 2)) = 20" by (simp_all add: demo_self_def demo_node_def)
  from routing_table_correct [OF this(1) r_into_rtranclp [of table_step, OF s] this(2), of 2] s show ?thesis by blast
qed

text \<open>
  C29: \<open>Closest\<close> returns the nearest nodes. In a well-formed table the result has \<open>k\<close> nodes, or all if
  there are fewer, in strictly increasing XOR distance from the target, and every node left out is
  further from it than every node returned; the insertion sort behind it is the stable sort by the
  distance read as a number.
\<close>

theorem Closest_correct:
  assumes "table_ok rt" "length target = 20"
  shows "length (Closest rt target k) = min k (Len rt) \<and> set (Closest rt target k) \<subseteq> set (AllNodes rt) \<and>
    sorted_wrt (\<lambda>n m. dist_to target n < dist_to target m) (Closest rt target k) \<and>
    (\<forall>n\<in>set (Closest rt target k). \<forall>m\<in>set (AllNodes rt) - set (Closest rt target k). dist_to target n < dist_to target m) \<and>
    sortByDistance (AllNodes rt) target = sort_key (dist_to target) (AllNodes rt)"
proof -
  let ?s = "sort_key (dist_to target) (AllNodes rt)"
  have c: "Closest rt target k = take k ?s" by (rule Closest_take [OF assms])
  have "distinct (AllNodes rt)" using table_distinct [OF assms(1)] by (simp add: distinct_map)
  moreover have "sorted (map (dist_to target) ?s)" by simp
  moreover have "inj_on (dist_to target) (set ?s)" using dist_inj [OF assms] by (auto intro: inj_onI)
  ultimately have "sorted_wrt (<) (map (dist_to target) ?s)"
    by (simp add: strict_sorted_iff distinct_map del: sorted_sort_key)
  then have strict: "sorted_wrt (\<lambda>n m. dist_to target n < dist_to target m) ?s" by (simp add: sorted_wrt_map)
  have "\<forall>n\<in>set (take k ?s). \<forall>m\<in>set (AllNodes rt) - set (take k ?s). dist_to target n < dist_to target m"
    using sorted_wrt_take(2) [OF strict, of _ k] unfolding set_sort by blast
  moreover have "sorted_wrt (\<lambda>n m. dist_to target n < dist_to target m) (take k ?s)"
    by (rule sorted_wrt_take(1) [OF strict])
  moreover have "set (take k ?s) \<subseteq> set (AllNodes rt)" using set_take_subset [of k ?s] unfolding set_sort .
  moreover have "sortByDistance (AllNodes rt) target = ?s"
    using sortByDistance_sort_key assms(2) table_IDs [OF assms(1)] by simp
  moreover have "length (take k ?s) = min k (Len rt)" by (simp add: Len_AllNodes min.commute)
  ultimately show ?thesis unfolding c by blast
qed

theorem Closest_correct_witness:
  "length (Closest (NewRoutingTable demo_self) demo_self 3) = min 3 (Len (NewRoutingTable demo_self)) \<and>
   sortByDistance (AllNodes (Update 1 (NewRoutingTable demo_self) (demo_node 1))) demo_self =
     sort_key (dist_to demo_self) (AllNodes (Update 1 (NewRoutingTable demo_self) (demo_node 1)))"
proof -
  have l: "length demo_self = 20" "length (n_ID (demo_node 1)) = 20" by (simp_all add: demo_self_def demo_node_def)
  have t: "table_ok (NewRoutingTable demo_self)" by (rule NewRoutingTable_ok [OF l(1)])
  have "table_ok (Update 1 (NewRoutingTable demo_self) (demo_node 1))" using Update_result [OF t l(2)] by blast
  from Closest_correct [OF this l(1)] Closest_correct [OF t l(1), of 3] show ?thesis by blast
qed

end
