(* ===== verification/Dht_Node.thy ===== *)
theory Dht_Node
  imports Go_Addr Dht_Table Bencode Go_Sha
begin

text \<open>
  The KRPC messages and the DHT node (\<^verbatim>\<open>src/dht/krpc.go\<close>, \<^verbatim>\<open>src/dht/node.go\<close>): codec, query handlers, announce
  tokens, pending transactions. The clock, random bytes and the transaction IDs are arguments; what a handler sends is
  its list of datagrams. Zones of IPv6 addresses and the sockets are not represented.
\<close>

section \<open>Messages\<close>

definition MsgQuery :: bytes where "MsgQuery = gostr ''q''"
definition MsgResponse :: bytes where "MsgResponse = gostr ''r''"
definition MsgError :: bytes where "MsgError = gostr ''e''"

record KRPCMessage =
  km_T :: bytes
  km_Y :: bytes
  km_Q :: bytes
  km_A :: "dict option"
  km_R :: "dict option"
  km_E :: "bval list option"

datatype kerror = KBencode berror | KNotDict

abbreviation nilmap :: "dict option \<Rightarrow> dict" where
  "nilmap m \<equiv> (case m of None \<Rightarrow> [] | Some d \<Rightarrow> d)"

definition EncodeKRPC :: "KRPCMessage \<Rightarrow> berror + bytes" where
  "EncodeKRPC msg =
     (let d = dict_of [(gostr ''t'', BStr (km_T msg)), (gostr ''y'', BStr (km_Y msg))];
          d' = (if km_Y msg = MsgQuery
                then dict_put (gostr ''a'') (BDict (nilmap (km_A msg))) (dict_put (gostr ''q'') (BStr (km_Q msg)) d)
                else if km_Y msg = MsgResponse then dict_put (gostr ''r'') (BDict (nilmap (km_R msg))) d
                else if km_Y msg = MsgError
                then dict_put (gostr ''e'') (BList (case km_E msg of None \<Rightarrow> [] | Some l \<Rightarrow> l)) d
                else d)
      in Encode (BDict d'))"

abbreviation string_or_empty :: "bval option \<Rightarrow> bytes" where
  "string_or_empty v \<equiv> (case asString v of None \<Rightarrow> [] | Some s \<Rightarrow> s)"

definition DecodeKRPC :: "bytes \<Rightarrow> kerror + KRPCMessage" where
  "DecodeKRPC data =
     (case Decode data of
        Inl e \<Rightarrow> Inl (KBencode e)
      | Inr v \<Rightarrow>
          (case asDict (Some v) of
             None \<Rightarrow> Inl KNotDict
           | Some d \<Rightarrow>
               Inr \<lparr>km_T = string_or_empty (map_of d (gostr ''t'')),
                    km_Y = string_or_empty (map_of d (gostr ''y'')),
                    km_Q = string_or_empty (map_of d (gostr ''q'')),
                    km_A = asDict (map_of d (gostr ''a'')),
                    km_R = asDict (map_of d (gostr ''r'')),
                    km_E = asList (map_of d (gostr ''e''))\<rparr>))"

text \<open>The constructors of queries; \<open>txn\<close> is the random transaction ID \<open>NewTxnID\<close> returns.\<close>

definition newQuery :: "bytes \<Rightarrow> bytes \<Rightarrow> dict \<Rightarrow> KRPCMessage" where
  "newQuery txn q a = \<lparr>km_T = txn, km_Y = MsgQuery, km_Q = q, km_A = Some a, km_R = None, km_E = None\<rparr>"

definition NewPingQuery :: "bytes \<Rightarrow> ID \<Rightarrow> KRPCMessage" where
  "NewPingQuery txn i = newQuery txn (gostr ''ping'') (dict_of [(gostr ''id'', BStr i)])"

definition bep32Want :: "bval list" where
  "bep32Want = [BStr (gostr ''n4''), BStr (gostr ''n6'')]"

definition NewFindNodeQuery :: "bytes \<Rightarrow> ID \<Rightarrow> ID \<Rightarrow> KRPCMessage" where
  "NewFindNodeQuery txn i target =
     newQuery txn (gostr ''find_node'')
       (dict_of [(gostr ''id'', BStr i), (gostr ''target'', BStr target), (gostr ''want'', BList bep32Want)])"

definition NewGetPeersQuery :: "bytes \<Rightarrow> ID \<Rightarrow> ID \<Rightarrow> KRPCMessage" where
  "NewGetPeersQuery txn i infoHash =
     newQuery txn (gostr ''get_peers'')
       (dict_of [(gostr ''id'', BStr i), (gostr ''info_hash'', BStr infoHash), (gostr ''want'', BList bep32Want)])"

definition NewAnnouncePeerQuery :: "bytes \<Rightarrow> ID \<Rightarrow> ID \<Rightarrow> int \<Rightarrow> bytes \<Rightarrow> bool \<Rightarrow> KRPCMessage" where
  "NewAnnouncePeerQuery txn i infoHash port token impliedPort =
     newQuery txn (gostr ''announce_peer'')
       (dict_of [(gostr ''id'', BStr i), (gostr ''info_hash'', BStr infoHash), (gostr ''port'', BInt port),
                 (gostr ''token'', BStr token), (gostr ''implied_port'', BInt (if impliedPort then 1 else 0))])"

definition NewResponse :: "bytes \<Rightarrow> dict \<Rightarrow> KRPCMessage" where
  "NewResponse txnID vals =
     \<lparr>km_T = txnID, km_Y = MsgResponse, km_Q = [], km_A = None, km_R = Some vals, km_E = None\<rparr>"

definition compactPeer :: "bval \<Rightarrow> bytes option" where
  "compactPeer v =
     (case asString (Some v) of
        None \<Rightarrow> None
      | Some s \<Rightarrow>
          if length s = 6
          then Some (IPv4_String (slice 0 4 s) @ [colon] @ fmt_nat (unat (Uint16 (slice 4 6 s))))
          else if length s = 18
          then Some ([bracket_open] @ IP_String (take 16 s) @ [bracket_close, colon] @ fmt_nat (unat (Uint16 (slice 16 18 s))))
          else None)"

definition ParseCompactPeers :: "bval list \<Rightarrow> bytes list" where
  "ParseCompactPeers vals = List.map_filter compactPeer vals"

section \<open>The node\<close>

definition DefaultAlpha :: nat where "DefaultAlpha = 8"
definition MaxLookupNodes :: nat where "MaxLookupNodes = 1000"
definition MaxLookupPeers :: nat where "MaxLookupPeers = 5000"

text \<open>
  A pending transaction refers to the channel its query waits on. The channels are a store of
  buffers: \<open>d_chans\<close> gives the messages in each, at most one since their capacity is 1.
\<close>

record pendingEntry =
  pe_ch :: nat
  pe_created :: int

record DHT =
  d_id :: ID
  d_table :: RoutingTable
  d_tableV6 :: RoutingTable
  d_alpha :: nat
  d_pending :: "(bytes \<times> pendingEntry) list"
  d_chans :: "nat \<Rightarrow> KRPCMessage list"
  d_tokenSecret :: bytes
  d_tokenSecretOld :: bytes

type_synonym datagram = "bytes \<times> UDPAddr"

definition rotateToken :: "bytes \<Rightarrow> DHT \<Rightarrow> DHT" where
  "rotateToken secret d = d\<lparr>d_tokenSecretOld := d_tokenSecret d, d_tokenSecret := secret\<rparr>"

definition WithAlpha :: "int \<Rightarrow> DHT \<Rightarrow> DHT" where
  "WithAlpha alpha d = (if alpha > 0 then d\<lparr>d_alpha := nat alpha\<rparr> else d)"

text \<open>\<open>New\<close> without the socket; \<open>i\<close> is the generated ID and \<open>secret\<close> the first random secret.\<close>

definition newDHT :: "ID \<Rightarrow> bytes \<Rightarrow> (DHT \<Rightarrow> DHT) list \<Rightarrow> DHT" where
  "newDHT i secret opts =
     rotateToken secret
       (foldl (\<lambda>d opt. opt d)
          \<lparr>d_id = i, d_table = NewRoutingTable i, d_tableV6 = NewRoutingTable i, d_alpha = DefaultAlpha,
           d_pending = [], d_chans = (\<lambda>_. []), d_tokenSecret = replicate 20 0, d_tokenSecretOld = replicate 20 0\<rparr>
          opts)"

definition TableSize :: "DHT \<Rightarrow> nat" where
  "TableSize d = Len (d_table d) + Len (d_tableV6 d)"

definition updateNode :: "int \<Rightarrow> DHT \<Rightarrow> Node \<Rightarrow> DHT" where
  "updateNode now d n =
     (if To4 (ua_IP (n_Addr n)) \<noteq> None then d\<lparr>d_table := Update now (d_table d) n\<rparr>
      else if To16 (ua_IP (n_Addr n)) \<noteq> None then d\<lparr>d_tableV6 := Update now (d_tableV6 d) n\<rparr>
      else d)"

definition newNode :: "ID \<Rightarrow> UDPAddr \<Rightarrow> Node" where
  "newNode i addr = \<lparr>n_ID = i, n_Addr = addr, n_LastSeen = 0\<rparr>"

definition handleResponse :: "DHT \<Rightarrow> KRPCMessage \<Rightarrow> DHT" where
  "handleResponse d msg =
     (case map_of (d_pending d) (km_T msg) of
        None \<Rightarrow> d
      | Some entry \<Rightarrow>
          d\<lparr>d_pending := AList.delete (km_T msg) (d_pending d),
            d_chans := (if d_chans d (pe_ch entry) = [] then (d_chans d)(pe_ch entry := [msg]) else d_chans d)\<rparr>)"

definition makeToken :: "DHT \<Rightarrow> UDPAddr \<Rightarrow> bytes" where
  "makeToken d addr = take 8 (sha1_Sum (ua_IP addr @ d_tokenSecret d))"

definition validateToken :: "DHT \<Rightarrow> UDPAddr \<Rightarrow> bytes \<Rightarrow> bool" where
  "validateToken d addr token =
     list_ex (\<lambda>secret. take 8 (sha1_Sum (ua_IP addr @ secret)) = token) [d_tokenSecret d, d_tokenSecretOld d]"

definition parseWant :: "dict \<Rightarrow> bool \<times> bool" where
  "parseWant a =
     (case asList (map_of a (gostr ''want'')) of
        None \<Rightarrow> (True, False)
      | Some want \<Rightarrow>
          (let v4 = list_ex (\<lambda>v. v = BStr (gostr ''n4'')) want; v6 = list_ex (\<lambda>v. v = BStr (gostr ''n6'')) want
           in if \<not> v4 \<and> \<not> v6 then (True, False) else (v4, v6)))"

definition closestAsCompact :: "RoutingTable \<Rightarrow> ID \<Rightarrow> CompactNodeInfo list" where
  "closestAsCompact rt target = map (\<lambda>n. \<lparr>ci_ID = n_ID n, ci_Addr = n_Addr n\<rparr>) (Closest rt target dht_K)"

definition sendResponse :: "KRPCMessage \<Rightarrow> UDPAddr \<Rightarrow> datagram list" where
  "sendResponse resp addr = [(case EncodeKRPC resp of Inl _ \<Rightarrow> [] | Inr data \<Rightarrow> data, addr)]"

definition respondPing :: "DHT \<Rightarrow> bytes \<Rightarrow> UDPAddr \<Rightarrow> datagram list" where
  "respondPing d txnID addr = sendResponse (NewResponse txnID (dict_of [(gostr ''id'', BStr (d_id d))])) addr"

definition nodesFor :: "DHT \<Rightarrow> dict \<Rightarrow> ID \<Rightarrow> dict" where
  "nodesFor d a target =
     (let (wantV4, wantV6) = parseWant a
      in (if wantV4 then [(gostr ''nodes'', BStr (MarshalCompactNodeInfo (closestAsCompact (d_table d) target)))] else []) @
         (if wantV6 then [(gostr ''nodes6'', BStr (MarshalCompactNodeInfo6 (closestAsCompact (d_tableV6 d) target)))] else []))"

definition respondFindNode :: "DHT \<Rightarrow> KRPCMessage \<Rightarrow> UDPAddr \<Rightarrow> datagram list" where
  "respondFindNode d msg addr =
     (let targetStr = string_or_empty (map_of (nilmap (km_A msg)) (gostr ''target''))
      in if length targetStr \<noteq> 20 then []
         else sendResponse
                (NewResponse (km_T msg)
                   (dict_of ([(gostr ''id'', BStr (d_id d))] @
                             nodesFor d (nilmap (km_A msg)) (IDFromBytes targetStr)))) addr)"

definition respondGetPeers :: "DHT \<Rightarrow> KRPCMessage \<Rightarrow> UDPAddr \<Rightarrow> datagram list" where
  "respondGetPeers d msg addr =
     (let infoHashStr = string_or_empty (map_of (nilmap (km_A msg)) (gostr ''info_hash''))
      in if length infoHashStr \<noteq> 20 then []
         else sendResponse
                (NewResponse (km_T msg)
                   (dict_of ([(gostr ''id'', BStr (d_id d)), (gostr ''token'', BStr (makeToken d addr))] @
                             nodesFor d (nilmap (km_A msg)) (IDFromBytes infoHashStr)))) addr)"

definition respondAnnouncePeer :: "DHT \<Rightarrow> KRPCMessage \<Rightarrow> UDPAddr \<Rightarrow> datagram list" where
  "respondAnnouncePeer d msg addr =
     (if \<not> validateToken d addr (string_or_empty (map_of (nilmap (km_A msg)) (gostr ''token''))) then []
      else sendResponse (NewResponse (km_T msg) (dict_of [(gostr ''id'', BStr (d_id d))])) addr)"

definition updateFrom :: "int \<Rightarrow> DHT \<Rightarrow> dict \<Rightarrow> UDPAddr \<Rightarrow> DHT" where
  "updateFrom now d m addr =
     (case asString (map_of m (gostr ''id'')) of
        Some idStr \<Rightarrow> if length idStr = 20 then updateNode now d (newNode (IDFromBytes idStr) addr) else d
      | None \<Rightarrow> d)"

definition handleQuery :: "int \<Rightarrow> DHT \<Rightarrow> KRPCMessage \<Rightarrow> UDPAddr \<Rightarrow> DHT \<times> datagram list" where
  "handleQuery now d msg addr =
     (let d' = updateFrom now d (nilmap (km_A msg)) addr
      in (d', if km_Q msg = gostr ''ping'' then respondPing d' (km_T msg) addr
              else if km_Q msg = gostr ''find_node'' then respondFindNode d' msg addr
              else if km_Q msg = gostr ''get_peers'' then respondGetPeers d' msg addr
              else if km_Q msg = gostr ''announce_peer'' then respondAnnouncePeer d' msg addr
              else []))"

text \<open>One packet of \<open>readLoop\<close>.\<close>

definition handlePacket :: "int \<Rightarrow> DHT \<Rightarrow> bytes \<Rightarrow> UDPAddr \<Rightarrow> DHT \<times> datagram list" where
  "handlePacket now d data addr =
     (case DecodeKRPC data of
        Inl _ \<Rightarrow> (d, [])
      | Inr msg \<Rightarrow>
          if km_Y msg = MsgResponse then (handleResponse d msg, [])
          else if km_Y msg = MsgQuery then handleQuery now d msg addr
          else if km_Y msg = MsgError then (handleResponse d msg, [])
          else (d, []))"

text \<open>\<open>sendQuery\<close> makes the channel \<open>ch\<close>; the second result is what it sends.\<close>

definition sendQuery :: "int \<Rightarrow> nat \<Rightarrow> DHT \<Rightarrow> UDPAddr \<Rightarrow> KRPCMessage \<Rightarrow> DHT \<times> datagram list" where
  "sendQuery now ch d addr msg =
     (let d1 = d\<lparr>d_chans := (d_chans d)(ch := []),
                d_pending := AList.update (km_T msg) \<lparr>pe_ch = ch, pe_created = now\<rparr> (d_pending d)\<rparr>
      in case EncodeKRPC msg of
           Inl _ \<Rightarrow> (d1\<lparr>d_pending := AList.delete (km_T msg) (d_pending d1)\<rparr>, [])
         | Inr data \<Rightarrow> (d1, [(data, addr)]))"

text \<open>How the wait in \<open>query\<close> ends: with a message on the channel, at the timeout, or when the node closes.\<close>

datatype wait = Answered KRPCMessage | TimedOut | Closed

definition queryResult :: "DHT \<Rightarrow> KRPCMessage \<Rightarrow> wait \<Rightarrow> DHT \<times> KRPCMessage option" where
  "queryResult d msg w =
     (case w of
        Answered resp \<Rightarrow> (d, if km_Y resp = MsgError then None else Some resp)
      | TimedOut \<Rightarrow> (d\<lparr>d_pending := AList.delete (km_T msg) (d_pending d)\<rparr>, None)
      | Closed \<Rightarrow> (d, None))"

definition cleanStalePending :: "int \<Rightarrow> int \<Rightarrow> DHT \<Rightarrow> DHT" where
  "cleanStalePending now ttl d =
     (let cutoff = now - ttl
      in d\<lparr>d_pending := filter (\<lambda>(k, entry). \<not> pe_created entry < cutoff) (d_pending d)\<rparr>)"

definition FilterPrivatePeers :: "bytes list \<Rightarrow> bytes list" where
  "FilterPrivatePeers peers =
     filter (\<lambda>p. case SplitHostPort p of
                    None \<Rightarrow> False
                  | Some (host, _) \<Rightarrow>
                      (case ParseIP host of
                         None \<Rightarrow> False
                       | Some ip \<Rightarrow> \<not> (IsLoopback ip \<or> IsPrivate ip \<or> IsLinkLocalUnicast ip \<or>
                                      IsLinkLocalMulticast ip \<or> IsUnspecified ip))) peers"

section \<open>Round trip of messages\<close>

definition krpc_entries :: "KRPCMessage \<Rightarrow> dict" where
  "krpc_entries msg =
     [(gostr ''t'', BStr (km_T msg)), (gostr ''y'', BStr (km_Y msg))] @
     (if km_Y msg = MsgQuery then [(gostr ''q'', BStr (km_Q msg)), (gostr ''a'', BDict (nilmap (km_A msg)))]
      else if km_Y msg = MsgResponse then [(gostr ''r'', BDict (nilmap (km_R msg)))]
      else if km_Y msg = MsgError then [(gostr ''e'', BList (case km_E msg of None \<Rightarrow> [] | Some l \<Rightarrow> l))]
      else [])"

lemmas msg_kinds = MsgQuery_def MsgResponse_def MsgError_def

lemma decode_limits:
  "1000 \<le> MaxStringLength" "100 \<le> MaxCollectionSize" "3 < MaxDecodeDepth" "100 \<le> MaxTotalItems"
  by (simp_all add: MaxStringLength_def MaxCollectionSize_def MaxDecodeDepth_def MaxTotalItems_def)

lemma EncodeKRPC_entries: "EncodeKRPC msg = Encode (BDict (dict_of (krpc_entries msg)))"
  by (simp add: EncodeKRPC_def krpc_entries_def dict_of_def Let_def)

definition payload_ok :: "bval \<Rightarrow> bool" where
  "payload_ok v \<longleftrightarrow> wf_val v \<and> height v < MaxDecodeDepth \<and> items v + 4 \<le> MaxTotalItems"

definition krpc_ok :: "KRPCMessage \<Rightarrow> bool" where
  "krpc_ok msg \<longleftrightarrow> length (km_T msg) \<le> MaxStringLength \<and> length (km_Q msg) \<le> MaxStringLength \<and>
     (km_Y msg = MsgQuery \<and> (\<exists>a. km_A msg = Some a \<and> payload_ok (BDict a)) \<and> km_R msg = None \<and> km_E msg = None \<or>
      km_Y msg = MsgResponse \<and> (\<exists>r. km_R msg = Some r \<and> payload_ok (BDict r)) \<and> km_Q msg = [] \<and> km_A msg = None \<and> km_E msg = None \<or>
      km_Y msg = MsgError \<and> (\<exists>l. km_E msg = Some l \<and> payload_ok (BList l)) \<and> km_Q msg = [] \<and> km_A msg = None \<and> km_R msg = None)"

lemma krpc_entries_encodable:
  assumes "krpc_ok msg"
  shows "encodable (BDict (dict_of (krpc_entries msg)))"
proof (rule encodable_dict_of)
  show "length (krpc_entries msg) \<le> MaxCollectionSize" using decode_limits by (simp add: krpc_entries_def)
  show "items (BDict (krpc_entries msg)) \<le> MaxTotalItems"
    using assms by (auto simp: krpc_entries_def krpc_ok_def payload_ok_def msg_kinds)
  show "length k \<le> MaxStringLength \<and> wf_val v \<and> height v < MaxDecodeDepth" if "(k, v) \<in> set (krpc_entries msg)" for k v
    using that assms decode_limits
    by (auto simp: krpc_entries_def krpc_ok_def payload_ok_def msg_kinds simp del: height.simps(1,2) wf_val.simps(3,4) split: if_splits)
qed

lemma krpc_roundtrip:
  assumes "krpc_ok msg"
  shows "EncodeKRPC msg = Inr (enc (BDict (dict_of (krpc_entries msg))))"
    "DecodeKRPC (enc (BDict (dict_of (krpc_entries msg)))) = Inr msg"
proof -
  show "EncodeKRPC msg = Inr (enc (BDict (dict_of (krpc_entries msg))))"
    using krpc_entries_encodable [OF assms] by (simp add: EncodeKRPC_entries Encode_enc encodable_def del: wf_val.simps)
  show "DecodeKRPC (enc (BDict (dict_of (krpc_entries msg)))) = Inr msg"
    using assms unfolding DecodeKRPC_def Decode_enc [OF krpc_entries_encodable [OF assms]]
    by (cases msg) (auto simp: krpc_ok_def krpc_entries_def msg_kinds)
qed

text \<open>Dictionaries of a few short strings, as all queries and responses of the node are.\<close>

lemma payload_ok_strings:
  assumes "length kvs \<le> 8" "\<And>k v. (k, v) \<in> set kvs \<Longrightarrow> length k \<le> 100 \<and> ((\<exists>s. v = BStr s \<and> length s \<le> 1000) \<or> v = BList bep32Want \<or> (\<exists>n. v = BInt n \<and> in_int64 n))"
  shows "payload_ok (BDict (dict_of kvs))"
proof -
  have e: "length k \<le> MaxStringLength \<and> wf_val v \<and> height v \<le> 1 \<and> items v \<le> 2" if "(k, v) \<in> set kvs" for k v
    using assms(2) [OF that] decode_limits by (auto simp: bep32Want_def)
  have "sum_list (map (\<lambda>(k, v). Suc (items v)) kvs) \<le> 3 * length kvs"
    using e by (induction kvs) (auto, fastforce)
  then have i0: "items (BDict kvs) \<le> 24" using assms(1) by simp
  then have i: "items (BDict (dict_of kvs)) \<le> 24" using items_dict_of [of kvs] by linarith
  have "height (BDict (dict_of kvs)) \<le> 2"
    unfolding height_dict_le using e set_dict_of [of kvs] by fastforce
  moreover have "encodable (BDict (dict_of kvs))"
    using e decode_limits assms(1) i0
    by (intro encodable_dict_of) (fastforce, simp, linarith)
  ultimately show ?thesis using i decode_limits unfolding payload_ok_def encodable_def by linarith
qed

section \<open>The node's invariant\<close>

definition port_ok :: "UDPAddr \<Rightarrow> bool" where
  "port_ok a \<longleftrightarrow> 0 \<le> ua_Port a \<and> ua_Port a < 65536"

definition is_v4 :: "UDPAddr \<Rightarrow> bool" where
  "is_v4 a \<longleftrightarrow> To4 (ua_IP a) \<noteq> None"

definition is_v6 :: "UDPAddr \<Rightarrow> bool" where
  "is_v6 a \<longleftrightarrow> To4 (ua_IP a) = None \<and> To16 (ua_IP a) \<noteq> None"

definition addrs_sat :: "(UDPAddr \<Rightarrow> bool) \<Rightarrow> RoutingTable \<Rightarrow> bool" where
  "addrs_sat P rt \<longleftrightarrow> (\<forall>i a. lookup_addr rt i = Some a \<longrightarrow> P a \<and> port_ok a)"

definition dht_ok :: "DHT \<Rightarrow> bool" where
  "dht_ok d \<longleftrightarrow> length (d_id d) = 20 \<and>
     table_ok (d_table d) \<and> rt_self (d_table d) = d_id d \<and> addrs_sat is_v4 (d_table d) \<and>
     table_ok (d_tableV6 d) \<and> rt_self (d_tableV6 d) = d_id d \<and> addrs_sat is_v6 (d_tableV6 d)"

lemma addrs_sat_Update:
  assumes "table_ok rt" "length (n_ID n) = 20" "addrs_sat P rt" "P (n_Addr n)" "port_ok (n_Addr n)"
  shows "addrs_sat P (Update now rt n)"
  using Update_result [OF assms(1,2), of now] assms(3-5) by (auto simp: addrs_sat_def)

lemma updateNode_ok:
  assumes "dht_ok d" "length (n_ID n) = 20" "port_ok (n_Addr n)"
  shows "dht_ok (updateNode now d n)"
proof -
  let ?a = "n_Addr n"
  have "table_ok (Update now rt n) \<and> rt_self (Update now rt n) = rt_self rt" if "table_ok rt" for rt
    using Update_result [OF that assms(2)] by blast
  moreover have "addrs_sat is_v4 (Update now (d_table d) n)" if "is_v4 ?a"
    using assms that by (simp add: dht_ok_def addrs_sat_Update)
  moreover have "addrs_sat is_v6 (Update now (d_tableV6 d) n)" if "is_v6 ?a"
    using assms that by (simp add: dht_ok_def addrs_sat_Update)
  ultimately show ?thesis
    using assms(1) by (auto simp: dht_ok_def updateNode_def is_v4_def is_v6_def)
qed

lemma updateNode_keeps [simp]:
  "d_id (updateNode now d n) = d_id d" "d_tokenSecret (updateNode now d n) = d_tokenSecret d"
  "d_tokenSecretOld (updateNode now d n) = d_tokenSecretOld d" "d_alpha (updateNode now d n) = d_alpha d"
  "d_pending (updateNode now d n) = d_pending d" "d_chans (updateNode now d n) = d_chans d"
  by (simp_all add: updateNode_def)

lemma length_IDFromBytes [simp]: "length (IDFromBytes b) = 20"
  by (simp add: IDFromBytes_def)

lemma IDFromBytes_id [simp]: "length b = 20 \<Longrightarrow> IDFromBytes b = b"
  by (simp add: IDFromBytes_def)

lemma updateFrom_ok: "dht_ok d \<Longrightarrow> port_ok addr \<Longrightarrow> dht_ok (updateFrom now d m addr)"
  by (auto simp: updateFrom_def newNode_def intro!: updateNode_ok split: option.split)

lemma updateFrom_keeps [simp]:
  "d_id (updateFrom now d m a) = d_id d" "d_tokenSecret (updateFrom now d m a) = d_tokenSecret d"
  "d_tokenSecretOld (updateFrom now d m a) = d_tokenSecretOld d"
  by (simp_all add: updateFrom_def split: option.split)

lemma handleResponse_keeps [simp]:
  "d_id (handleResponse d m) = d_id d" "d_table (handleResponse d m) = d_table d"
  "d_tableV6 (handleResponse d m) = d_tableV6 d" "d_tokenSecret (handleResponse d m) = d_tokenSecret d"
  "d_tokenSecretOld (handleResponse d m) = d_tokenSecretOld d"
  by (simp_all add: handleResponse_def split: option.split)

lemma dht_ok_cong:
  "d_id d' = d_id d \<Longrightarrow> d_table d' = d_table d \<Longrightarrow> d_tableV6 d' = d_tableV6 d \<Longrightarrow> dht_ok d' = dht_ok d"
  by (simp add: dht_ok_def)

lemma handlePacket_ok: "dht_ok d \<Longrightarrow> port_ok addr \<Longrightarrow> dht_ok (fst (handlePacket now d data addr))"
  by (auto simp: handlePacket_def handleQuery_def Let_def updateFrom_ok dht_ok_cong [of "handleResponse d m" d for m]
      split: sum.split)

lemma handlePacket_secrets:
  "d_tokenSecret (fst (handlePacket now d data addr)) = d_tokenSecret d"
  "d_tokenSecretOld (fst (handlePacket now d data addr)) = d_tokenSecretOld d"
  by (simp_all add: handlePacket_def handleQuery_def Let_def split: sum.split)

section \<open>What a query is answered with\<close>

definition canonical4 :: "Node \<Rightarrow> CompactNodeInfo" where
  "canonical4 n = \<lparr>ci_ID = n_ID n, ci_Addr = (n_Addr n)\<lparr>ua_IP := the (To4 (ua_IP (n_Addr n)))\<rparr>\<rparr>"

definition canonical6 :: "Node \<Rightarrow> CompactNodeInfo" where
  "canonical6 n = \<lparr>ci_ID = n_ID n, ci_Addr = n_Addr n\<rparr>"

lemma To4_idem: "To4 ip = Some ip4 \<Longrightarrow> To4 ip4 = Some ip4"
  using To4_length To4_id by blast

lemma node_addr:
  assumes "table_ok rt" "n \<in> set (AllNodes rt)"
  shows "lookup_addr rt (n_ID n) = Some (n_Addr n)"
  unfolding lookup_addr_def
  using table_distinct [OF assms(1)] assms(2) by (intro map_of_is_SomeI) (simp_all add: comp_def)

lemma closest_addrs:
  assumes "table_ok rt" "addrs_sat P rt" "length target = 20" "n \<in> set (Closest rt target k)"
  shows "length (n_ID n) = 20 \<and> P (n_Addr n) \<and> port_ok (n_Addr n)"
proof -
  have n: "n \<in> set (AllNodes rt)"
    using assms(4) unfolding Closest_take [OF assms(1,3)] by (auto dest: in_set_takeD)
  show ?thesis using node_addr [OF assms(1) n] assms(2) table_IDs [OF assms(1)] n by (auto simp: addrs_sat_def)
qed

lemma nodes_roundtrip:
  assumes "table_ok rt" "addrs_sat is_v4 rt" "length target = 20"
  shows "UnmarshalCompactNodeInfo (MarshalCompactNodeInfo (closestAsCompact rt target)) =
      Some (map canonical4 (Closest rt target dht_K))"
    "length (MarshalCompactNodeInfo (closestAsCompact rt target)) \<le> 208"
proof -
  let ?ns = "Closest rt target dht_K"
  have "marshalNode \<lparr>ci_ID = n_ID n, ci_Addr = n_Addr n\<rparr> = marshalNode (canonical4 n)"
    and ok: "compact_ok 4 (canonical4 n)" if "n \<in> set ?ns" for n
    using closest_addrs [OF assms that] To4_idem To4_length
    by (auto simp: marshalNode_def canonical4_def is_v4_def compact_ok_def port_ok_def)
  then have m: "MarshalCompactNodeInfo (closestAsCompact rt target) = MarshalCompactNodeInfo (map canonical4 ?ns)"
    unfolding MarshalCompactNodeInfo_def closestAsCompact_def by (auto simp: comp_def intro!: arg_cong [of _ _ concat])
  then show "UnmarshalCompactNodeInfo (MarshalCompactNodeInfo (closestAsCompact rt target)) = Some (map canonical4 ?ns)"
    using Unmarshal_Marshal [of "map canonical4 ?ns"] ok by simp
  have "\<forall>b\<in>set (map marshalNode (map canonical4 ?ns)). length b = 26"
    using ok by (auto simp: marshalNode_def compact_ok_def portBytes_def To4_id)
  from length_concat_const [OF this] have "length (MarshalCompactNodeInfo (map canonical4 ?ns)) = 26 * length ?ns"
    by (simp add: MarshalCompactNodeInfo_def)
  moreover have "length ?ns \<le> 8" by (simp add: Closest_def Let_def dht_K_def)
  ultimately show "length (MarshalCompactNodeInfo (closestAsCompact rt target)) \<le> 208" by (simp add: m)
qed

lemma nodes6_roundtrip:
  assumes "table_ok rt" "addrs_sat is_v6 rt" "length target = 20"
  shows "UnmarshalCompactNodeInfo6 (MarshalCompactNodeInfo6 (closestAsCompact rt target)) =
      Some (map canonical6 (Closest rt target dht_K))"
    "length (MarshalCompactNodeInfo6 (closestAsCompact rt target)) \<le> 304"
proof -
  let ?ns = "Closest rt target dht_K"
  have ok: "compact_ok 16 (canonical6 n)" if "n \<in> set ?ns" for n
    using closest_addrs [OF assms that]
    by (auto simp: canonical6_def is_v6_def compact_ok_def port_ok_def To16_def To4_def split: if_splits)
  have m: "closestAsCompact rt target = map canonical6 ?ns" by (simp add: closestAsCompact_def canonical6_def)
  then show "UnmarshalCompactNodeInfo6 (MarshalCompactNodeInfo6 (closestAsCompact rt target)) = Some (map canonical6 ?ns)"
    using Unmarshal_Marshal6 [of "map canonical6 ?ns"] ok by simp
  have "\<forall>b\<in>set (map marshalNode6 (map canonical6 ?ns)). length b = 38"
    using ok by (auto simp: marshalNode6_def compact_ok_def portBytes_def To16_def)
  from length_concat_const [OF this] have "length (MarshalCompactNodeInfo6 (map canonical6 ?ns)) = 38 * length ?ns"
    by (simp add: MarshalCompactNodeInfo6_def)
  moreover have "length ?ns \<le> 8" by (simp add: Closest_def Let_def dht_K_def)
  ultimately show "length (MarshalCompactNodeInfo6 (closestAsCompact rt target)) \<le> 304" by (simp add: m)
qed

text \<open>
  \<open>answers now d q addr d' r\<close>: the query \<open>q\<close>, encoded and received from \<open>addr\<close>, takes the node from \<open>d\<close>
  to \<open>d'\<close> and is answered with one datagram to \<open>addr\<close>, a response with the query's transaction ID
  and the values \<open>r\<close>.
\<close>

definition answers :: "int \<Rightarrow> DHT \<Rightarrow> KRPCMessage \<Rightarrow> UDPAddr \<Rightarrow> DHT \<Rightarrow> dict \<Rightarrow> bool" where
  "answers now d q addr d' r \<longleftrightarrow>
     (\<exists>data reply. EncodeKRPC q = Inr data \<and> handlePacket now d data addr = (d', [(reply, addr)]) \<and>
        DecodeKRPC reply = Inr (NewResponse (km_T q) r))"

definition gives_nodes :: "DHT \<Rightarrow> ID \<Rightarrow> dict \<Rightarrow> bool" where
  "gives_nodes d target r \<longleftrightarrow>
     (\<exists>s. map_of r (gostr ''nodes'') = Some (BStr s) \<and>
        UnmarshalCompactNodeInfo s = Some (map canonical4 (Closest (d_table d) target dht_K))) \<and>
     (\<exists>s. map_of r (gostr ''nodes6'') = Some (BStr s) \<and>
        UnmarshalCompactNodeInfo6 s = Some (map canonical6 (Closest (d_tableV6 d) target dht_K)))"

lemma query_received:
  assumes "krpc_ok q" "km_Y q = MsgQuery"
  shows "\<exists>data. EncodeKRPC q = Inr data \<and> handlePacket now d data addr = handleQuery now d q addr"
  using krpc_roundtrip [OF assms(1)] assms(2) by (auto simp: handlePacket_def msg_kinds)

lemma response_sent:
  assumes "payload_ok (BDict r)" "length txn \<le> MaxStringLength"
  shows "\<exists>reply. sendResponse (NewResponse txn r) addr = [(reply, addr)] \<and> DecodeKRPC reply = Inr (NewResponse txn r)"
proof -
  have "krpc_ok (NewResponse txn r)" using assms by (simp add: krpc_ok_def NewResponse_def msg_kinds)
  from krpc_roundtrip [OF this] show ?thesis by (simp add: sendResponse_def)
qed

lemma answersI:
  assumes "krpc_ok q" "km_Y q = MsgQuery" "handleQuery now d q addr = (d', sendResponse (NewResponse (km_T q) r) addr)"
    "payload_ok (BDict r)"
  shows "answers now d q addr d' r"
proof -
  obtain data where "EncodeKRPC q = Inr data" "handlePacket now d data addr = handleQuery now d q addr"
    using query_received [OF assms(1,2)] by blast
  moreover have "length (km_T q) \<le> MaxStringLength" using assms(1) by (simp add: krpc_ok_def)
  ultimately show ?thesis
    using response_sent [OF assms(4), of "km_T q" addr] assms(3) unfolding answers_def by (metis (no_types))
qed

lemma query_ok:
  assumes "length txn \<le> 1000" "length q \<le> 100" "payload_ok (BDict a)"
  shows "krpc_ok (newQuery txn q a)" "km_Y (newQuery txn q a) = MsgQuery" "km_T (newQuery txn q a) = txn"
    "km_Q (newQuery txn q a) = q" "km_A (newQuery txn q a) = Some a"
  using assms decode_limits by (simp_all add: newQuery_def krpc_ok_def msg_kinds)

lemma parseWant_both: "map_of a (gostr ''want'') = Some (BList bep32Want) \<Longrightarrow> parseWant a = (True, True)"
  by (simp add: parseWant_def bep32Want_def)

lemmas query_defs = NewPingQuery_def NewFindNodeQuery_def NewGetPeersQuery_def NewAnnouncePeerQuery_def

lemma nodesFor_both:
  assumes "map_of a (gostr ''want'') = Some (BList bep32Want)"
  shows "nodesFor d a target =
    [(gostr ''nodes'', BStr (MarshalCompactNodeInfo (closestAsCompact (d_table d) target))),
     (gostr ''nodes6'', BStr (MarshalCompactNodeInfo6 (closestAsCompact (d_tableV6 d) target)))]"
  by (simp add: nodesFor_def parseWant_both [OF assms])

lemma ping_answered:
  assumes "dht_ok d" "length txn \<le> 1000" "length i = 20"
  shows "answers now d (NewPingQuery txn i) addr (updateNode now d (newNode i addr)) (dict_of [(gostr ''id'', BStr (d_id d))])"
proof -
  have p: "payload_ok (BDict (dict_of [(gostr ''id'', BStr i)]))" "payload_ok (BDict (dict_of [(gostr ''id'', BStr (d_id d))]))"
    using assms by (auto intro!: payload_ok_strings simp: dht_ok_def)
  show ?thesis
    unfolding query_defs using query_ok [OF assms(2) _ p(1), of "gostr ''ping''"] p(2) assms(3)
    by (intro answersI) (simp_all add: handleQuery_def Let_def updateFrom_def respondPing_def)
qed

lemma node_reply_ok:
  assumes "dht_ok d" "length target = 20" "length tok \<le> 8"
  shows "payload_ok (BDict (dict_of ([(gostr ''id'', BStr (d_id d)), (gostr ''token'', BStr tok)] @
      [(gostr ''nodes'', BStr (MarshalCompactNodeInfo (closestAsCompact (d_table d) target))),
       (gostr ''nodes6'', BStr (MarshalCompactNodeInfo6 (closestAsCompact (d_tableV6 d) target)))])))"
    "payload_ok (BDict (dict_of ([(gostr ''id'', BStr (d_id d))] @
      [(gostr ''nodes'', BStr (MarshalCompactNodeInfo (closestAsCompact (d_table d) target))),
       (gostr ''nodes6'', BStr (MarshalCompactNodeInfo6 (closestAsCompact (d_tableV6 d) target)))])))"
  using assms nodes_roundtrip(2) [of "d_table d" target] nodes6_roundtrip(2) [of "d_tableV6 d" target]
  by (auto intro!: payload_ok_strings simp: dht_ok_def)

lemma gives_nodes_dict:
  assumes "dht_ok d" "length target = 20"
    "map_of r (gostr ''nodes'') = Some (BStr (MarshalCompactNodeInfo (closestAsCompact (d_table d) target)))"
    "map_of r (gostr ''nodes6'') = Some (BStr (MarshalCompactNodeInfo6 (closestAsCompact (d_tableV6 d) target)))"
  shows "gives_nodes d target r"
  using assms nodes_roundtrip(1) [of "d_table d" target] nodes6_roundtrip(1) [of "d_tableV6 d" target]
  by (simp add: gives_nodes_def dht_ok_def)

lemma find_node_answered:
  assumes "dht_ok d" "port_ok addr" "length txn \<le> 1000" "length i = 20" "length target = 20"
  shows "\<exists>r. answers now d (NewFindNodeQuery txn i target) addr (updateNode now d (newNode i addr)) r \<and>
    gives_nodes (updateNode now d (newNode i addr)) target r"
proof -
  let ?d = "updateNode now d (newNode i addr)"
  have ok: "dht_ok ?d" using assms by (intro updateNode_ok) (simp_all add: newNode_def)
  let ?a = "dict_of [(gostr ''id'', BStr i), (gostr ''target'', BStr target), (gostr ''want'', BList bep32Want)]"
  have p: "payload_ok (BDict ?a)" using assms by (intro payload_ok_strings) auto
  let ?r = "dict_of ([(gostr ''id'', BStr (d_id ?d))] @
      [(gostr ''nodes'', BStr (MarshalCompactNodeInfo (closestAsCompact (d_table ?d) target))),
       (gostr ''nodes6'', BStr (MarshalCompactNodeInfo6 (closestAsCompact (d_tableV6 ?d) target)))])"
  have "answers now d (NewFindNodeQuery txn i target) addr ?d ?r"
    unfolding query_defs using query_ok [OF assms(3) _ p, of "gostr ''find_node''"] assms
      node_reply_ok(2) [OF ok assms(5), of "[]"]
    by (intro answersI) (simp_all add: handleQuery_def Let_def updateFrom_def respondFindNode_def nodesFor_both)
  moreover have "gives_nodes ?d target ?r" using ok assms(5) by (intro gives_nodes_dict) simp_all
  ultimately show ?thesis by blast
qed

lemma get_peers_answered:
  assumes "dht_ok d" "port_ok addr" "length txn \<le> 1000" "length i = 20" "length target = 20"
  shows "\<exists>r. answers now d (NewGetPeersQuery txn i target) addr (updateNode now d (newNode i addr)) r \<and>
    gives_nodes (updateNode now d (newNode i addr)) target r \<and> map_of r (gostr ''token'') = Some (BStr (makeToken d addr))"
proof -
  let ?d = "updateNode now d (newNode i addr)"
  have ok: "dht_ok ?d" using assms by (intro updateNode_ok) (simp_all add: newNode_def)
  let ?a = "dict_of [(gostr ''id'', BStr i), (gostr ''info_hash'', BStr target), (gostr ''want'', BList bep32Want)]"
  have p: "payload_ok (BDict ?a)" using assms by (intro payload_ok_strings) auto
  have tok: "makeToken ?d addr = makeToken d addr" by (simp add: makeToken_def)
  let ?r = "dict_of ([(gostr ''id'', BStr (d_id ?d)), (gostr ''token'', BStr (makeToken ?d addr))] @
      [(gostr ''nodes'', BStr (MarshalCompactNodeInfo (closestAsCompact (d_table ?d) target))),
       (gostr ''nodes6'', BStr (MarshalCompactNodeInfo6 (closestAsCompact (d_tableV6 ?d) target)))])"
  have "length (makeToken ?d addr) \<le> 8" by (simp add: makeToken_def)
  then have "answers now d (NewGetPeersQuery txn i target) addr ?d ?r"
    unfolding query_defs using query_ok [OF assms(3) _ p, of "gostr ''get_peers''"] assms
      node_reply_ok(1) [OF ok assms(5), of "makeToken ?d addr"]
    by (intro answersI) (simp_all add: handleQuery_def Let_def updateFrom_def respondGetPeers_def nodesFor_both)
  moreover have "gives_nodes ?d target ?r" using ok assms(5) by (intro gives_nodes_dict) simp_all
  moreover have "map_of ?r (gostr ''token'') = Some (BStr (makeToken d addr))" by (simp add: tok)
  ultimately show ?thesis by blast
qed

text \<open>An announcement is answered exactly when its token is valid; otherwise nothing is sent.\<close>

lemma announce_answered:
  assumes "dht_ok d" "length txn \<le> 1000" "length i = 20" "length infoHash = 20" "in_int64 port" "length tok \<le> 1000"
  shows "if validateToken d addr tok
    then answers now d (NewAnnouncePeerQuery txn i infoHash port tok implied) addr
        (updateNode now d (newNode i addr)) (dict_of [(gostr ''id'', BStr (d_id d))])
    else \<exists>data. EncodeKRPC (NewAnnouncePeerQuery txn i infoHash port tok implied) = Inr data \<and>
        handlePacket now d data addr = (updateNode now d (newNode i addr), [])"
proof -
  let ?d = "updateNode now d (newNode i addr)"
  let ?a = "dict_of [(gostr ''id'', BStr i), (gostr ''info_hash'', BStr infoHash), (gostr ''port'', BInt port),
                 (gostr ''token'', BStr tok), (gostr ''implied_port'', BInt (if implied then 1 else 0))]"
  have "in_int64 (if implied then 1 else 0)" by (simp add: in_int64_def max_int64_def min_int64_def)
  then have p: "payload_ok (BDict ?a)" using assms by (intro payload_ok_strings) auto
  note q = query_ok [OF assms(2) _ p, of "gostr ''announce_peer''"]
  have v: "validateToken ?d addr tok = validateToken d addr tok" by (simp add: validateToken_def)
  have r: "payload_ok (BDict (dict_of [(gostr ''id'', BStr (d_id d))]))"
    using assms(1) by (auto intro!: payload_ok_strings simp: dht_ok_def)
  have "handleQuery now d (newQuery txn (gostr ''announce_peer'') ?a) addr =
      (?d, if validateToken d addr tok then sendResponse (NewResponse txn (dict_of [(gostr ''id'', BStr (d_id d))])) addr else [])"
    using q assms(3) v by (simp add: handleQuery_def Let_def updateFrom_def respondAnnouncePeer_def del: map_of_dict_of) simp
  note h = this
  have Q: "NewAnnouncePeerQuery txn i infoHash port tok implied = newQuery txn (gostr ''announce_peer'') ?a"
    by (simp add: query_defs)
  show ?thesis
  proof (cases "validateToken d addr tok")
    case True
    then have "answers now d (newQuery txn (gostr ''announce_peer'') ?a) addr ?d (dict_of [(gostr ''id'', BStr (d_id d))])"
      using q h r by (intro answersI) simp_all
    then show ?thesis using True by (simp only: Q if_True)
  next
    case False
    then show ?thesis
      using query_received [OF q(1,2), of now d addr] h by (simp only: Q if_False length_gostr) simp
  qed
qed

section \<open>Runs of a node\<close>

text \<open>
  What changes a running node: a packet, the rotation of the token secret, the cleanup of pending
  transactions, a query sent and one that timed out, and a node learnt from a response.
\<close>

datatype dht_event =
    Packet int bytes UDPAddr
  | Rotate bytes
  | Cleanup int int
  | Ask int nat UDPAddr KRPCMessage
  | Expire KRPCMessage
  | Learn int Node

primrec dht_step :: "DHT \<Rightarrow> dht_event \<Rightarrow> DHT" where
  "dht_step d (Packet now data addr) = fst (handlePacket now d data addr)"
| "dht_step d (Rotate secret) = rotateToken secret d"
| "dht_step d (Cleanup now ttl) = cleanStalePending now ttl d"
| "dht_step d (Ask now ch addr msg) = fst (sendQuery now ch d addr msg)"
| "dht_step d (Expire msg) = fst (queryResult d msg TimedOut)"
| "dht_step d (Learn now n) = updateNode now d n"

primrec event_ok :: "dht_event \<Rightarrow> bool" where
  "event_ok (Packet now data addr) = port_ok addr"
| "event_ok (Rotate secret) = True"
| "event_ok (Cleanup now ttl) = True"
| "event_ok (Ask now ch addr msg) = True"
| "event_ok (Expire msg) = True"
| "event_ok (Learn now n) = (length (n_ID n) = 20 \<and> port_ok (n_Addr n))"

inductive dht_trans :: "DHT \<Rightarrow> DHT \<Rightarrow> bool" where
  event: "event_ok e \<Longrightarrow> dht_trans d (dht_step d e)"

inductive_cases dht_transE: "dht_trans d d'"

lemma sendQuery_keeps [simp]:
  "d_id (fst (sendQuery now ch d a m)) = d_id d" "d_table (fst (sendQuery now ch d a m)) = d_table d"
  "d_tableV6 (fst (sendQuery now ch d a m)) = d_tableV6 d" "d_tokenSecret (fst (sendQuery now ch d a m)) = d_tokenSecret d"
  "d_tokenSecretOld (fst (sendQuery now ch d a m)) = d_tokenSecretOld d"
  by (simp_all add: sendQuery_def Let_def split: sum.split)

lemma dht_step_ok:
  assumes "dht_ok d" "event_ok e"
  shows "dht_ok (dht_step d e)"
proof (cases e)
  case (Packet now data addr)
  then show ?thesis using assms handlePacket_ok by simp
next
  case (Learn now n)
  then show ?thesis using assms updateNode_ok by simp
qed (use assms(1) in \<open>simp_all add: dht_ok_def rotateToken_def cleanStalePending_def queryResult_def Let_def\<close>)

interpretation dht_run: step_invariant dht_trans dht_ok
  by unfold_locales (auto elim!: dht_transE simp: dht_step_ok)

lemma newDHT_ok:
  assumes "length i = 20"
  shows "dht_ok (newDHT i secret (map WithAlpha alphas))"
proof -
  let ?d0 = "\<lparr>d_id = i, d_table = NewRoutingTable i, d_tableV6 = NewRoutingTable i, d_alpha = DefaultAlpha,
           d_pending = [], d_chans = (\<lambda>_. []), d_tokenSecret = replicate 20 0, d_tokenSecretOld = replicate 20 0\<rparr>"
  have "lookup_addr (NewRoutingTable i) j = None" for j
    by (simp add: lookup_addr_def AllNodes_def NewRoutingTable_def)
  moreover have "rt_self (NewRoutingTable i) = i" by (simp add: NewRoutingTable_def)
  ultimately have "dht_ok ?d0" using NewRoutingTable_ok [OF assms] assms by (simp add: dht_ok_def addrs_sat_def)
  then have "dht_ok (foldl (\<lambda>d opt. opt d) ?d0 (map WithAlpha alphas))"
    by (induction alphas rule: rev_induct) (simp_all add: WithAlpha_def dht_ok_def)
  then show ?thesis by (simp add: newDHT_def rotateToken_def dht_ok_def)
qed

section \<open>Tokens\<close>

definition token_for :: "bytes \<Rightarrow> UDPAddr \<Rightarrow> bytes" where
  "token_for secret addr = take 8 (sha1_Sum (ua_IP addr @ secret))"

primrec rotations :: "dht_event list \<Rightarrow> bytes list" where
  "rotations [] = []"
| "rotations (e # es) = (case e of Rotate s \<Rightarrow> s # rotations es | _ \<Rightarrow> rotations es)"

lemma rotations_append [simp]: "rotations (xs @ ys) = rotations xs @ rotations ys"
  by (induction xs) (auto split: dht_event.split)

lemma dht_step_secrets:
  "(\<nexists>s. e = Rotate s) \<Longrightarrow> d_tokenSecret (dht_step d e) = d_tokenSecret d \<and> d_tokenSecretOld (dht_step d e) = d_tokenSecretOld d"
  by (cases e) (simp_all add: handlePacket_secrets cleanStalePending_def queryResult_def Let_def)

lemma secrets_after:
  "\<exists>older. [d_tokenSecretOld d, d_tokenSecret d] @ rotations evs =
     older @ [d_tokenSecretOld (foldl dht_step d evs), d_tokenSecret (foldl dht_step d evs)]"
proof (induction evs rule: rev_induct)
  case (snoc e evs)
  let ?d = "foldl dht_step d evs"
  obtain older where o: "[d_tokenSecretOld d, d_tokenSecret d] @ rotations evs = older @ [d_tokenSecretOld ?d, d_tokenSecret ?d]"
    using snoc by blast
  show ?case
  proof (cases "\<exists>s. e = Rotate s")
    case True
    then show ?thesis using o by (auto simp: rotateToken_def intro!: exI [of _ "older @ [d_tokenSecretOld ?d]"])
  next
    case False
    then have "rotations [e] = []" by (cases e) simp_all
    then show ?thesis using o dht_step_secrets [OF False, of ?d] by simp
  qed
qed simp

text \<open>The secrets whose tokens are accepted: the last two, of the initial two and those rotated in since.\<close>

definition live_secrets :: "DHT \<Rightarrow> dht_event list \<Rightarrow> bytes list" where
  "live_secrets d evs = take 2 (rev ([d_tokenSecretOld d, d_tokenSecret d] @ rotations evs))"

lemma validate_live:
  "validateToken (foldl dht_step d evs) addr tok \<longleftrightarrow> tok \<in> (\<lambda>s. token_for s addr) ` set (live_secrets d evs)"
proof -
  obtain older where "[d_tokenSecretOld d, d_tokenSecret d] @ rotations evs =
      older @ [d_tokenSecretOld (foldl dht_step d evs), d_tokenSecret (foldl dht_step d evs)]"
    using secrets_after by blast
  then have "live_secrets d evs = [d_tokenSecret (foldl dht_step d evs), d_tokenSecretOld (foldl dht_step d evs)]"
    unfolding live_secrets_def by simp
  then show ?thesis by (auto simp: validateToken_def token_for_def)
qed

lemma own_secret_live: "length (rotations evs) \<le> 1 \<Longrightarrow> d_tokenSecret d \<in> set (live_secrets d evs)"
  by (cases "rotations evs") (auto simp: live_secrets_def)

section \<open>Properties\<close>

text \<open>
  C30: A DHT node answers every well-formed query with what it asks for. Whatever packets, rotations,
  cleanups and own queries the node went through since it was created, a ping, a \<open>find_node\<close> and a
  \<open>get_peers\<close> query encoded by this code and received by the node are each answered by exactly one
  datagram to the sender that decodes to a response with the same transaction ID. For the last two
  the lists of nodes decode to the 8 nodes nearest to the target among the IPv4 and the IPv6 nodes
  the node knows, the sender included. The token of the \<open>get_peers\<close> response makes a later
  announcement from the same address be answered; an announcement with a token that is not valid
  is not answered. The tables stay well-formed throughout.
\<close>

theorem dht_queries_answered:
  assumes "length self = 20" "rtranclp dht_trans (newDHT self secret (map WithAlpha alphas)) d"
    and "port_ok addr" "length txn \<le> 1000" "length i = 20" "length target = 20" "in_int64 port"
  shows "let d' = updateNode now d (newNode i addr) in
    dht_ok d' \<and>
    answers now d (NewPingQuery txn i) addr d' (dict_of [(gostr ''id'', BStr (d_id d))]) \<and>
    (\<exists>r. answers now d (NewFindNodeQuery txn i target) addr d' r \<and> gives_nodes d' target r) \<and>
    (\<exists>r tok. answers now d (NewGetPeersQuery txn i target) addr d' r \<and> gives_nodes d' target r \<and>
       map_of r (gostr ''token'') = Some (BStr tok) \<and>
       answers now' d' (NewAnnouncePeerQuery txn i target port tok implied) addr
         (updateNode now' d' (newNode i addr)) (dict_of [(gostr ''id'', BStr (d_id d))])) \<and>
    (\<forall>tok. length tok \<le> 1000 \<and> \<not> validateToken d addr tok \<longrightarrow>
       (\<exists>data. EncodeKRPC (NewAnnouncePeerQuery txn i target port tok implied) = Inr data \<and>
          handlePacket now d data addr = (d', [])))"
proof -
  let ?d = "updateNode now d (newNode i addr)"
  have ok: "dht_ok d" using dht_run.reach_inv [OF assms(2) newDHT_ok [OF assms(1)]] .
  have ok': "dht_ok ?d" using ok assms by (intro updateNode_ok) (simp_all add: newNode_def)
  obtain r where r: "answers now d (NewGetPeersQuery txn i target) addr ?d r" "gives_nodes ?d target r"
    "map_of r (gostr ''token'') = Some (BStr (makeToken d addr))"
    using get_peers_answered [OF ok assms(3-6)] by blast
  have "validateToken ?d addr (makeToken d addr)" by (simp add: validateToken_def makeToken_def)
  moreover have "length (makeToken d addr) \<le> 1000" by (simp add: makeToken_def)
  ultimately have "answers now' ?d (NewAnnouncePeerQuery txn i target port (makeToken d addr) implied) addr
      (updateNode now' ?d (newNode i addr)) (dict_of [(gostr ''id'', BStr (d_id d))])"
    using announce_answered [OF ok' assms(4-7), of "makeToken d addr" addr now' implied] by simp
  then show ?thesis
    unfolding Let_def
    using ok' ping_answered [OF ok assms(4,5)] find_node_answered [OF ok assms(3-6)] r
      announce_answered [OF ok assms(4-7), of _ addr now implied] by meson
qed

definition demo_dht :: DHT where
  "demo_dht = newDHT demo_self (replicate 20 7) []"

definition demo_addr :: UDPAddr where
  "demo_addr = \<lparr>ua_IP = [10, 0, 0, 9], ua_Port = 6881\<rparr>"

theorem dht_queries_answered_witness:
  "\<exists>r. answers 5 demo_dht (NewFindNodeQuery [1, 2] (n_ID (demo_node 3)) demo_self) demo_addr
      (updateNode 5 demo_dht (newNode (n_ID (demo_node 3)) demo_addr)) r \<and>
     gives_nodes (updateNode 5 demo_dht (newNode (n_ID (demo_node 3)) demo_addr)) demo_self r"
proof -
  have l: "length demo_self = 20" "length (n_ID (demo_node 3)) = 20" "length [1, 2 :: byte] \<le> 1000"
    by (simp_all add: demo_self_def demo_node_def)
  have p: "port_ok demo_addr" by (simp add: port_ok_def demo_addr_def)
  have "in_int64 6881" by (simp add: in_int64_def max_int64_def min_int64_def)
  moreover have "rtranclp dht_trans (newDHT demo_self (replicate 20 7) (map WithAlpha [])) demo_dht"
    by (simp add: demo_dht_def)
  ultimately show ?thesis
    using dht_queries_answered [of demo_self "replicate 20 7" "[]" demo_dht demo_addr "[1, 2]" "n_ID (demo_node 3)" demo_self 6881 5 6 False] l p
    unfolding Let_def by blast
qed

text \<open>
  C31: A token is accepted from the address it was issued to through one rotation of the secret, that is
  for at least five minutes, and only tokens made with one of the last two secrets are ever
  accepted, whatever else happens to the node.
\<close>

theorem tokens_expire:
  "(length (rotations evs) \<le> 1 \<longrightarrow> validateToken (foldl dht_step d evs) addr (makeToken d addr)) \<and>
   (validateToken (foldl dht_step d evs) addr tok \<longleftrightarrow> tok \<in> (\<lambda>s. token_for s addr) ` set (live_secrets d evs)) \<and>
   length (live_secrets d evs) = 2"
proof -
  have "validateToken (foldl dht_step d evs) addr (makeToken d addr)" if "length (rotations evs) \<le> 1"
    unfolding validate_live using own_secret_live [OF that, of d] by (auto simp: makeToken_def token_for_def)
  then show ?thesis using validate_live by (simp add: live_secrets_def)
qed

theorem tokens_expire_witness:
  "validateToken (foldl dht_step demo_dht [Packet 3 [100, 101] demo_addr, Rotate (replicate 20 9)]) demo_addr
     (makeToken demo_dht demo_addr)"
  using tokens_expire [of "[Packet 3 [100, 101] demo_addr, Rotate (replicate 20 9)]" demo_dht demo_addr "[]"] by simp

end
