(* ===== verification/Dht_Lookup.thy ===== *)
theory Dht_Lookup
  imports Dht_Node
begin

text \<open>
  The iterative lookup of a DHT node, bootstrap and the file of saved nodes (\<^verbatim>\<open>src/dht/node.go\<close>,
  \<^verbatim>\<open>src/dht/persist.go\<close>). A lookup is a step relation over the variables of \<open>iterativeLookup\<close> and the goroutines of
  the current round, whose sections under the lock may interleave in any order.
\<close>

section \<open>Definitions\<close>

record nodeEntry =
  ne_node :: Node
  ne_queried :: bool

text \<open>What a goroutine still has to do with the response it received.\<close>

datatype lookupAct =
    UpdateFrom dict UDPAddr
  | Collect "bval list"
  | AddNodes "CompactNodeInfo list"

datatype goroutine = Waiting Node | Acting "lookupAct list"

datatype phase = AtRound | InRound | Finished

type_synonym seen = "(ID \<times> nodeEntry) list"

text \<open>
  The variables of \<open>iterativeLookup\<close> and its goroutines, with the node they work on. \<open>lk_asked\<close>
  records the IDs of the nodes queried.
\<close>

record lookup =
  lk_dht :: DHT
  lk_seen :: seen
  lk_peers :: "bytes list"
  lk_round :: nat
  lk_phase :: phase
  lk_running :: "goroutine list"
  lk_asked :: "ID list"

definition sortEntries :: "nodeEntry list \<Rightarrow> ID \<Rightarrow> nodeEntry list" where
  "sortEntries entries target = insertionSort (\<lambda>e. Distance (n_ID (ne_node e)) target) entries"

definition seedSeen :: "DHT \<Rightarrow> ID \<Rightarrow> seen" where
  "seedSeen d target =
     (let s4 = foldl (\<lambda>s n. AList.update (n_ID n) \<lparr>ne_node = n, ne_queried = False\<rparr> s) [] (Closest (d_table d) target dht_K)
      in foldl (\<lambda>s n. if map_of s (n_ID n) = None
                      then AList.update (n_ID n) \<lparr>ne_node = n, ne_queried = False\<rparr> s else s)
           s4 (Closest (d_tableV6 d) target dht_K))"

definition startLookup :: "DHT \<Rightarrow> ID \<Rightarrow> lookup option" where
  "startLookup d target =
     (if Closest (d_table d) target dht_K = [] \<and> Closest (d_tableV6 d) target dht_K = [] then None
      else Some \<lparr>lk_dht = d, lk_seen = seedSeen d target, lk_peers = [], lk_round = 0, lk_phase = AtRound,
                 lk_running = [], lk_asked = []\<rparr>)"

text \<open>The nodes to query: the first \<open>alpha\<close> entries not queried yet, in the order of \<open>entries\<close>.\<close>

primrec pickLoop :: "nat \<Rightarrow> nodeEntry list \<Rightarrow> Node list \<Rightarrow> Node list" where
  "pickLoop alpha [] toQuery = toQuery"
| "pickLoop alpha (e # es) toQuery =
     (if \<not> ne_queried e \<and> length toQuery < alpha then pickLoop alpha es (toQuery @ [ne_node e])
      else pickLoop alpha es toQuery)"

definition toQuery :: "(ID \<Rightarrow> nat) \<Rightarrow> nat \<Rightarrow> seen \<Rightarrow> ID \<Rightarrow> Node list" where
  "toQuery \<omega> alpha s target =
     pickLoop alpha (sortEntries (map (\<lambda>i. the (map_of s i)) (range_order \<omega> (map fst s))) target) []"

definition markQueried :: "Node list \<Rightarrow> seen \<Rightarrow> seen" where
  "markQueried ns s = map (\<lambda>(i, e). (i, if i \<in> n_ID ` set ns then e\<lparr>ne_queried := True\<rparr> else e)) s"

text \<open>The start of a round: no more nodes to query ends the loop.\<close>

definition beginRound :: "(ID \<Rightarrow> nat) \<Rightarrow> ID \<Rightarrow> lookup \<Rightarrow> lookup" where
  "beginRound \<omega> target lk =
     (let ns = toQuery \<omega> (d_alpha (lk_dht lk)) (lk_seen lk) target
      in if ns = [] then lk\<lparr>lk_phase := Finished\<rparr>
         else lk\<lparr>lk_seen := markQueried ns (lk_seen lk), lk_phase := InRound, lk_running := map Waiting ns,
                 lk_asked := lk_asked lk @ map n_ID ns\<rparr>)"

definition responseActs :: "bool \<Rightarrow> dict \<Rightarrow> UDPAddr \<Rightarrow> lookupAct list" where
  "responseActs getPeers r addr =
     [UpdateFrom r addr] @
     (if getPeers then (case asList (map_of r (gostr ''values'')) of None \<Rightarrow> [] | Some vs \<Rightarrow> [Collect vs]) else []) @
     (case asString (map_of r (gostr ''nodes'')) of
        None \<Rightarrow> []
      | Some s \<Rightarrow> (case UnmarshalCompactNodeInfo s of None \<Rightarrow> [] | Some ns \<Rightarrow> [AddNodes ns])) @
     (case asString (map_of r (gostr ''nodes6'')) of
        None \<Rightarrow> []
      | Some s \<Rightarrow> (case UnmarshalCompactNodeInfo6 s of None \<Rightarrow> [] | Some ns \<Rightarrow> [AddNodes ns]))"

definition collectPeers :: "bytes list \<Rightarrow> bval list \<Rightarrow> bytes list" where
  "collectPeers allPeers vs =
     (let p = ParseCompactPeers vs; space = int MaxLookupPeers - int (length allPeers)
      in if space > 0 then allPeers @ (if int (length p) > space then take (nat space) p else p) else allPeers)"

primrec addNodes :: "int \<Rightarrow> CompactNodeInfo list \<Rightarrow> seen \<times> DHT \<Rightarrow> seen \<times> DHT" where
  "addNodes now [] sd = sd"
| "addNodes now (ni # nis) sd =
     (if length (fst sd) \<ge> MaxLookupNodes then sd
      else if map_of (fst sd) (ci_ID ni) = None
      then (let node = newNode (ci_ID ni) (ci_Addr ni)
            in addNodes now nis
                 (AList.update (ci_ID ni) \<lparr>ne_node = node, ne_queried = False\<rparr> (fst sd), updateNode now (snd sd) node))
      else addNodes now nis sd)"

primrec runAct :: "int \<Rightarrow> lookupAct \<Rightarrow> lookup \<Rightarrow> lookup" where
  "runAct now (UpdateFrom r addr) lk = lk\<lparr>lk_dht := updateFrom now (lk_dht lk) r addr\<rparr>"
| "runAct now (Collect vs) lk = lk\<lparr>lk_peers := collectPeers (lk_peers lk) vs\<rparr>"
| "runAct now (AddNodes ns) lk =
     (let (s, d) = addNodes now ns (lk_seen lk, lk_dht lk) in lk\<lparr>lk_seen := s, lk_dht := d\<rparr>)"

definition endRound :: "bool \<Rightarrow> lookup \<Rightarrow> lookup" where
  "endRound getPeers lk =
     (if getPeers \<and> length (lk_peers lk) > 0 then lk\<lparr>lk_phase := Finished, lk_running := []\<rparr>
      else lk\<lparr>lk_round := lk_round lk + 1, lk_phase := AtRound, lk_running := []\<rparr>)"

text \<open>
  The steps of a lookup. A query ends without a usable response (\<open>fails\<close>) or with one, from the
  address the node has at that time (\<open>responds\<close>); the goroutines take turns at the sections they hold
  the lock for, in any order. The loop stops when the node is closed or the deadline has passed.
\<close>

inductive lookup_step :: "bool \<Rightarrow> ID \<Rightarrow> lookup \<Rightarrow> lookup \<Rightarrow> bool" for getPeers target where
  exhausted: "lk_phase lk = AtRound \<Longrightarrow> lk_round lk \<ge> 10 \<Longrightarrow> lookup_step getPeers target lk (lk\<lparr>lk_phase := Finished\<rparr>)"
| stop: "lk_phase lk = AtRound \<Longrightarrow> lk_round lk < 10 \<Longrightarrow> lookup_step getPeers target lk (lk\<lparr>lk_phase := Finished\<rparr>)"
| start: "lk_phase lk = AtRound \<Longrightarrow> lk_round lk < 10 \<Longrightarrow> lookup_step getPeers target lk (beginRound \<omega> target lk)"
| fails: "lk_phase lk = InRound \<Longrightarrow> g < length (lk_running lk) \<Longrightarrow> lk_running lk ! g = Waiting n \<Longrightarrow>
    lookup_step getPeers target lk (lk\<lparr>lk_running := (lk_running lk)[g := Acting []]\<rparr>)"
| responds: "lk_phase lk = InRound \<Longrightarrow> g < length (lk_running lk) \<Longrightarrow> lk_running lk ! g = Waiting n \<Longrightarrow> port_ok addr \<Longrightarrow>
    lookup_step getPeers target lk (lk\<lparr>lk_running := (lk_running lk)[g := Acting (responseActs getPeers r addr)]\<rparr>)"
| act: "lk_phase lk = InRound \<Longrightarrow> g < length (lk_running lk) \<Longrightarrow> lk_running lk ! g = Acting (a # as) \<Longrightarrow>
    lookup_step getPeers target lk (runAct now a (lk\<lparr>lk_running := (lk_running lk)[g := Acting as]\<rparr>))"
| finish: "lk_phase lk = InRound \<Longrightarrow> \<forall>g\<in>set (lk_running lk). g = Acting [] \<Longrightarrow>
    lookup_step getPeers target lk (endRound getPeers lk)"

inductive_cases lookup_stepE: "lookup_step getPeers target lk lk'"

text \<open>A run with its number of steps; between them the rest of the program works on the same node.\<close>

inductive lookup_run :: "bool \<Rightarrow> ID \<Rightarrow> lookup \<Rightarrow> nat \<Rightarrow> lookup \<Rightarrow> bool" for getPeers target where
  none: "lookup_run getPeers target lk 0 lk"
| step: "lookup_run getPeers target lk n lk' \<Longrightarrow> lookup_step getPeers target lk' lk'' \<Longrightarrow>
    lookup_run getPeers target lk (Suc n) lk''"
| other: "lookup_run getPeers target lk n lk' \<Longrightarrow> event_ok e \<Longrightarrow>
    lookup_run getPeers target lk n (lk'\<lparr>lk_dht := dht_step (lk_dht lk') e\<rparr>)"

text \<open>What \<open>GetPeers\<close> returns of the peers a lookup found.\<close>

definition GetPeersResult :: "lookup \<Rightarrow> bytes list" where
  "GetPeersResult lk = FilterPrivatePeers (lk_peers lk)"

section \<open>Bootstrap and saved nodes\<close>

text \<open>A response to a bootstrap query from \<open>addr\<close>; \<open>None\<close> if there was none.\<close>

definition learnNodes :: "int \<Rightarrow> DHT \<Rightarrow> CompactNodeInfo list option \<Rightarrow> DHT" where
  "learnNodes now d ns =
     (case ns of None \<Rightarrow> d | Some nodes \<Rightarrow> foldl (\<lambda>d ni. updateNode now d (newNode (ci_ID ni) (ci_Addr ni))) d nodes)"

definition bootstrapOne :: "int \<Rightarrow> DHT \<Rightarrow> UDPAddr \<times> KRPCMessage option \<Rightarrow> DHT" where
  "bootstrapOne now d req =
     (case snd req of
        None \<Rightarrow> d
      | Some resp \<Rightarrow>
          (case km_R resp of
             None \<Rightarrow> d
           | Some r \<Rightarrow>
               (let d1 = updateFrom now d r (fst req);
                    d2 = (case asString (map_of r (gostr ''nodes'')) of
                            None \<Rightarrow> d1 | Some s \<Rightarrow> learnNodes now d1 (UnmarshalCompactNodeInfo s))
                in case asString (map_of r (gostr ''nodes6'')) of
                     None \<Rightarrow> d2 | Some s \<Rightarrow> learnNodes now d2 (UnmarshalCompactNodeInfo6 s))))"

definition bootstrapCollect :: "int \<Rightarrow> DHT \<Rightarrow> (UDPAddr \<times> KRPCMessage option) list \<Rightarrow> DHT" where
  "bootstrapCollect now d reqs = foldl (bootstrapOne now) d reqs"

text \<open>The file of saved nodes: \<open>None\<close> if it does not exist.\<close>

definition SaveNodes :: "DHT \<Rightarrow> bytes option \<Rightarrow> bytes option" where
  "SaveNodes d file =
     (let nodes = AllNodes (d_table d)
      in if length nodes = 0 then file
         else Some (MarshalCompactNodeInfo (map (\<lambda>n. \<lparr>ci_ID = n_ID n, ci_Addr = n_Addr n\<rparr>) nodes)))"

definition LoadNodes :: "int \<Rightarrow> DHT \<Rightarrow> bytes option \<Rightarrow> DHT \<times> nat option" where
  "LoadNodes now d file =
     (case file of
        None \<Rightarrow> (d, Some 0)
      | Some data \<Rightarrow>
          if length data = 0 then (d, Some 0)
          else (case UnmarshalCompactNodeInfo data of
                  None \<Rightarrow> (d, None)
                | Some nodes \<Rightarrow>
                    (foldl (\<lambda>d ni. d\<lparr>d_table := Update now (d_table d) (newNode (ci_ID ni) (ci_Addr ni))\<rparr>) d nodes,
                     Some (length nodes))))"

section \<open>The set of nodes seen\<close>

definition seen_ok :: "seen \<Rightarrow> bool" where
  "seen_ok s \<longleftrightarrow> distinct (map fst s) \<and> (\<forall>(i, e)\<in>set s. n_ID (ne_node e) = i \<and> length i = 20)"

lemma seen_okD: "seen_ok s \<Longrightarrow> (i, e) \<in> set s \<Longrightarrow> n_ID (ne_node e) = i \<and> length i = 20"
  unfolding seen_ok_def by blast

definition queried :: "seen \<Rightarrow> ID set" where
  "queried s = {i. \<exists>e. map_of s i = Some e \<and> ne_queried e}"

lemma update_new: "map_of s k = None \<Longrightarrow> AList.update k v s = s @ [(k, v)]"
  by (induction s) (auto split: if_splits)

lemma seen_ok_new:
  assumes "seen_ok s" "map_of s i = None" "n_ID (ne_node e) = i" "length i = 20"
  shows "seen_ok (AList.update i e s)" "length (AList.update i e s) = Suc (length s)"
  using assms by (auto simp: seen_ok_def update_new map_of_eq_None_iff)

lemma queried_new:
  "map_of s i = None \<Longrightarrow> \<not> ne_queried e \<Longrightarrow> queried (AList.update i e s) = queried s"
  by (auto simp: queried_def split: if_splits)

definition info_ok :: "CompactNodeInfo \<Rightarrow> bool" where
  "info_ok ni \<longleftrightarrow> length (ci_ID ni) = 20 \<and> port_ok (ci_Addr ni)"

lemma unmarshalNode_ok: "length b = 20 + n + 2 \<Longrightarrow> info_ok (unmarshalNode n b)"
proof -
  have "uint (x :: byte) < 256" "0 \<le> uint x" for x using uint_lt2p [of x] by simp_all
  then have "uint (x :: byte) * 256 + uint (y :: byte) < 65536 \<and> 0 \<le> uint x * 256 + uint y" for x y
    by (smt (verit))
  moreover assume "length b = 20 + n + 2"
  ultimately show ?thesis by (simp add: info_ok_def unmarshalNode_def port_ok_def)
qed

lemma Unmarshal_ok:
  "UnmarshalCompactNodeInfo s = Some ns \<Longrightarrow> \<forall>ni\<in>set ns. info_ok ni"
  "UnmarshalCompactNodeInfo6 s = Some ns \<Longrightarrow> \<forall>ni\<in>set ns. info_ok ni"
proof -
  have c: "length x = w" if "length s mod w = 0" "x \<in> set (chunks w (length s div w) s)" for w and s x :: bytes
    using that length_chunk [of s "length s div w" w x] by (metis add.right_neutral div_mult_mod_eq)
  have m: "\<forall>ni\<in>set (map (unmarshalNode n) (chunks w (length s div w) s)). info_ok ni"
    if "length s mod w = 0" "w = 20 + n + 2" for n w and s :: bytes
  proof -
    have "info_ok (unmarshalNode n b)" if "b \<in> set (chunks w (length s div w) s)" for b
      by (rule unmarshalNode_ok) (use c [OF \<open>length s mod w = 0\<close> that] \<open>w = 20 + n + 2\<close> in linarith)
    then show ?thesis by (simp only: set_map ball_simps) blast
  qed
  show "\<forall>ni\<in>set ns. info_ok ni" if "UnmarshalCompactNodeInfo s = Some ns"
  proof -
    have *: "length s mod 26 = 0" "ns = map (unmarshalNode 4) (chunks 26 (length s div 26) s)"
      using that unfolding UnmarshalCompactNodeInfo_def by (metis option.discI option.inject)+
    have "(26 :: nat) = 20 + 4 + 2" by simp
    then show ?thesis unfolding *(2) by (rule m [OF *(1)])
  qed
  show "\<forall>ni\<in>set ns. info_ok ni" if "UnmarshalCompactNodeInfo6 s = Some ns"
  proof -
    have *: "length s mod 38 = 0" "ns = map (unmarshalNode 16) (chunks 38 (length s div 38) s)"
      using that unfolding UnmarshalCompactNodeInfo6_def by (metis option.discI option.inject)+
    have "(38 :: nat) = 20 + 16 + 2" by simp
    then show ?thesis unfolding *(2) by (rule m [OF *(1)])
  qed
qed

lemma addNodes_ok:
  assumes "seen_ok (fst sd)" "length (fst sd) \<le> MaxLookupNodes" "dht_ok (snd sd)" "\<forall>ni\<in>set ns. info_ok ni"
  shows "seen_ok (fst (addNodes now ns sd)) \<and> length (fst (addNodes now ns sd)) \<le> MaxLookupNodes \<and>
    dht_ok (snd (addNodes now ns sd)) \<and> d_alpha (snd (addNodes now ns sd)) = d_alpha (snd sd) \<and>
    queried (fst (addNodes now ns sd)) = queried (fst sd)"
  using assms
proof (induction ns arbitrary: sd)
  case (Cons ni ns)
  let ?n = "newNode (ci_ID ni) (ci_Addr ni)" and ?e = "\<lparr>ne_node = newNode (ci_ID ni) (ci_Addr ni), ne_queried = False\<rparr>"
  have ni: "length (n_ID ?n) = 20" "port_ok (n_Addr ?n)" "n_ID ?n = ci_ID ni"
    using Cons.prems(4) by (simp_all add: newNode_def info_ok_def)
  show ?case
  proof (cases "length (fst sd) < MaxLookupNodes \<and> map_of (fst sd) (ci_ID ni) = None")
    case True
    let ?sd = "(AList.update (ci_ID ni) ?e (fst sd), updateNode now (snd sd) ?n)"
    have "seen_ok (fst ?sd)" "length (fst ?sd) \<le> MaxLookupNodes" "dht_ok (snd ?sd)" "queried (fst ?sd) = queried (fst sd)"
      using True Cons.prems ni seen_ok_new [of "fst sd" "ci_ID ni" ?e] queried_new [of "fst sd" "ci_ID ni" ?e]
      by (simp_all add: updateNode_ok)
    then show ?thesis using True Cons.IH [of ?sd] Cons.prems(4) by (simp add: Let_def)
  next
    case False
    then show ?thesis using Cons by auto
  qed
qed simp

section \<open>Choosing the nodes to query\<close>

lemma pickLoop_take:
  "pickLoop alpha es ns = ns @ take (alpha - length ns) (map ne_node (filter (\<lambda>e. \<not> ne_queried e) es))"
  by (induction es arbitrary: ns) (auto simp: take_Cons')

abbreviation entry_dist :: "ID \<Rightarrow> nodeEntry \<Rightarrow> nat" where
  "entry_dist target e \<equiv> id_val (Distance (n_ID (ne_node e)) target)"

lemma sortEntries_sort_key:
  assumes "\<forall>e\<in>set es. length (n_ID (ne_node e)) = 20" "length target = 20"
  shows "sortEntries es target = sort_key (entry_dist target) es"
  unfolding sortEntries_def using assms by (intro insertionSort_sort_key [of _ _ 20]) simp

lemma seen_entries:
  assumes "seen_ok s"
  shows "map (n_ID \<circ> ne_node \<circ> (\<lambda>i. the (map_of s i))) (range_order \<omega> (map fst s)) = range_order \<omega> (map fst s)"
    "i \<in> set (range_order \<omega> (map fst s)) \<Longrightarrow> (i, the (map_of s i)) \<in> set s"
proof -
  have m: "(i, the (map_of s i)) \<in> set s" if "i \<in> fst ` set s" for i
    using assms that by (auto simp: seen_ok_def)
  then show "i \<in> set (range_order \<omega> (map fst s)) \<Longrightarrow> (i, the (map_of s i)) \<in> set s" by simp
  show "map (n_ID \<circ> ne_node \<circ> (\<lambda>i. the (map_of s i))) (range_order \<omega> (map fst s)) = range_order \<omega> (map fst s)"
    using m assms by (intro map_idI) (fastforce simp: seen_ok_def)
qed

text \<open>The chosen nodes are the nearest ones not queried yet, whatever the order of the map.\<close>

lemma toQuery_nearest:
  assumes "seen_ok s" "length target = 20"
  shows "toQuery \<omega> alpha s target =
      take alpha (map ne_node (filter (\<lambda>e. \<not> ne_queried e)
        (sort_key (entry_dist target) (map (\<lambda>i. the (map_of s i)) (range_order \<omega> (map fst s))))))"
proof -
  have "\<forall>e\<in>set (map (\<lambda>i. the (map_of s i)) (range_order \<omega> (map fst s))). length (n_ID (ne_node e)) = 20"
    using seen_entries(2) [OF assms(1)] assms(1) by (fastforce simp: seen_ok_def)
  then show ?thesis by (simp only: toQuery_def pickLoop_take sortEntries_sort_key [OF _ assms(2)]) simp
qed

lemma distinct_map_pick:
  "distinct (map (f \<circ> g) xs) \<Longrightarrow> distinct (map f (take k (map g (filter P (sort_key h xs)))))"
  by (simp add: distinct_map distinct_map_filter take_map) (auto simp: inj_on_def distinct_map dest!: in_set_takeD)

lemma toQuery_fresh:
  assumes "seen_ok s" "length target = 20"
  shows "length (toQuery \<omega> alpha s target) \<le> alpha" "distinct (map n_ID (toQuery \<omega> alpha s target))"
    "n \<in> set (toQuery \<omega> alpha s target) \<Longrightarrow> n_ID n \<in> fst ` set s - queried s"
proof -
  let ?es = "map (\<lambda>i. the (map_of s i)) (range_order \<omega> (map fst s))"
  note q = toQuery_nearest [OF assms, of \<omega> alpha]
  show "length (toQuery \<omega> alpha s target) \<le> alpha" by (simp add: q)
  have "map (n_ID \<circ> ne_node) ?es = range_order \<omega> (map fst s)"
    using seen_entries(1) [OF assms(1), of \<omega>] by (simp only: map_map comp_assoc)
  moreover have "distinct (range_order \<omega> (map fst s))" using assms(1) by (simp add: seen_ok_def)
  ultimately have "distinct (map (n_ID \<circ> ne_node) ?es)" by metis
  then show "distinct (map n_ID (toQuery \<omega> alpha s target))" unfolding q by (rule distinct_map_pick)
  show "n_ID n \<in> fst ` set s - queried s" if "n \<in> set (toQuery \<omega> alpha s target)"
  proof -
    note n = in_set_takeD [OF that [unfolded q]]
    obtain i where i: "i \<in> set (range_order \<omega> (map fst s))" "n = ne_node (the (map_of s i))" "\<not> ne_queried (the (map_of s i))"
      using n by auto
    have e: "(i, the (map_of s i)) \<in> set s" by (rule seen_entries(2) [OF assms(1) i(1)])
    have "n_ID n = i" using seen_okD [OF assms(1) e] i(2) by simp
    moreover have "i \<in> fst ` set s" using e by force
    moreover have "i \<notin> queried s" using i(3) by (auto simp: queried_def)
    ultimately show ?thesis by simp
  qed
qed

lemma markQueried_ok:
  assumes "seen_ok s" "\<forall>n\<in>set ns. n_ID n \<in> fst ` set s"
  shows "seen_ok (markQueried ns s)" "length (markQueried ns s) = length s"
    "queried (markQueried ns s) = queried s \<union> n_ID ` set ns"
proof -
  show "length (markQueried ns s) = length s" by (simp add: markQueried_def)
  have "map fst (markQueried ns s) = map fst s" by (simp add: markQueried_def comp_def case_prod_beta)
  moreover have "n_ID (ne_node e) = i \<and> length i = 20" if e: "(i, e) \<in> set (markQueried ns s)" for i e
  proof -
    obtain e' where "(i, e') \<in> set s" "ne_node e = ne_node e'" using e by (auto simp: markQueried_def)
    then show ?thesis using seen_okD [OF assms(1)] by simp
  qed
  ultimately show "seen_ok (markQueried ns s)" using assms(1) unfolding seen_ok_def by auto
  have m: "map_of (markQueried ns s) i =
      map_option (\<lambda>e. if i \<in> n_ID ` set ns then e\<lparr>ne_queried := True\<rparr> else e) (map_of s i)" for i
    unfolding markQueried_def by (induction s) auto
  have d: "map_of s i \<noteq> None" if "i \<in> n_ID ` set ns" for i using assms(2) that by (auto simp: map_of_eq_None_iff)
  have "i \<in> queried (markQueried ns s) \<longleftrightarrow> i \<in> queried s \<union> n_ID ` set ns" for i
  proof (cases "i \<in> n_ID ` set ns")
    case True
    then show ?thesis using d [OF True] by (auto simp: queried_def m)
  next
    case False
    then show ?thesis by (simp add: queried_def m option.map_ident)
  qed
  then show "queried (markQueried ns s) = queried s \<union> n_ID ` set ns" by blast
qed

section \<open>The invariant of a lookup\<close>

primrec act_ok :: "lookupAct \<Rightarrow> bool" where
  "act_ok (UpdateFrom r addr) = port_ok addr"
| "act_ok (Collect vs) = True"
| "act_ok (AddNodes ns) = (\<forall>ni\<in>set ns. info_ok ni)"

primrec goroutine_ok :: "goroutine \<Rightarrow> bool" where
  "goroutine_ok (Waiting n) = True"
| "goroutine_ok (Acting as) = (length as \<le> 4 \<and> list_all act_ok as)"

definition started :: "lookup \<Rightarrow> nat" where
  "started lk = min 10 (lk_round lk + (if lk_phase lk = AtRound then 0 else 1))"

definition lookup_ok :: "nat \<Rightarrow> lookup \<Rightarrow> bool" where
  "lookup_ok alpha lk \<longleftrightarrow>
     dht_ok (lk_dht lk) \<and> d_alpha (lk_dht lk) = alpha \<and>
     seen_ok (lk_seen lk) \<and> length (lk_seen lk) \<le> MaxLookupNodes \<and>
     length (lk_peers lk) \<le> MaxLookupPeers \<and> (\<forall>p\<in>set (lk_peers lk). \<exists>s. compactPeer (BStr s) = Some p) \<and>
     distinct (lk_asked lk) \<and> set (lk_asked lk) = queried (lk_seen lk) \<and>
     length (lk_asked lk) \<le> alpha * started lk \<and>
     length (lk_running lk) \<le> alpha \<and> list_all goroutine_ok (lk_running lk) \<and> lk_round lk \<le> 10 \<and>
     (lk_phase lk = InRound \<longrightarrow> lk_round lk < 10)"

lemma dht_step_alpha [simp]: "d_alpha (dht_step d e) = d_alpha d"
  by (cases e) (simp_all add: handlePacket_def handleQuery_def handleResponse_def updateFrom_def rotateToken_def
      cleanStalePending_def sendQuery_def queryResult_def Let_def split: sum.split option.split)

lemma updateFrom_alpha [simp]: "d_alpha (updateFrom now d r a) = d_alpha d"
  by (simp add: updateFrom_def split: option.split)

lemma responseActs_ok:
  assumes "port_ok addr"
  shows "goroutine_ok (Acting (responseActs getPeers r addr))"
proof -
  define c where "c = (if getPeers then (case asList (map_of r (gostr ''values'')) of None \<Rightarrow> [] | Some vs \<Rightarrow> [Collect vs]) else [])"
  define n4 where "n4 = (case asString (map_of r (gostr ''nodes'')) of None \<Rightarrow> []
      | Some s \<Rightarrow> (case UnmarshalCompactNodeInfo s of None \<Rightarrow> [] | Some ns \<Rightarrow> [AddNodes ns]))"
  define n6 where "n6 = (case asString (map_of r (gostr ''nodes6'')) of None \<Rightarrow> []
      | Some s \<Rightarrow> (case UnmarshalCompactNodeInfo6 s of None \<Rightarrow> [] | Some ns \<Rightarrow> [AddNodes ns]))"
  have "length c \<le> 1 \<and> list_all act_ok c" by (simp add: c_def split: option.split)
  moreover have "length n4 \<le> 1 \<and> list_all act_ok n4"
    using Unmarshal_ok(1) by (auto simp: n4_def split: option.split)
  moreover have "length n6 \<le> 1 \<and> list_all act_ok n6"
    using Unmarshal_ok(2) by (auto simp: n6_def split: option.split)
  moreover have "responseActs getPeers r addr = [UpdateFrom r addr] @ c @ n4 @ n6"
    by (simp add: responseActs_def c_def n4_def n6_def)
  ultimately show ?thesis using assms by simp
qed

lemma collectPeers_bound:
  "length ps \<le> MaxLookupPeers \<Longrightarrow> length (collectPeers ps vs) \<le> MaxLookupPeers"
  by (auto simp: collectPeers_def Let_def)

lemma collectPeers_compact:
  assumes "p \<in> set (collectPeers ps vs)" "\<forall>p\<in>set ps. \<exists>s. compactPeer (BStr s) = Some p"
  shows "\<exists>s. compactPeer (BStr s) = Some p"
proof (cases "p \<in> set ps")
  case False
  then have "p \<in> set (ParseCompactPeers vs)"
    using assms(1) by (auto simp: collectPeers_def Let_def split: if_splits dest: in_set_takeD)
  then obtain v where v: "compactPeer v = Some p" by (auto simp: ParseCompactPeers_def List.map_filter_def)
  then obtain s where "v = BStr s" by (cases v) (auto simp: compactPeer_def asString_def)
  then show ?thesis using v by blast
qed (use assms(2) in blast)

lemma runAct_control [simp]:
  "lk_round (runAct now a lk) = lk_round lk" "lk_phase (runAct now a lk) = lk_phase lk"
  "lk_running (runAct now a lk) = lk_running lk" "lk_asked (runAct now a lk) = lk_asked lk"
  by (cases a; simp split: prod.split)+

lemma started_runAct [simp]: "started (runAct now a lk) = started lk"
  by (simp add: started_def)

lemma runAct_ok:
  assumes "lookup_ok alpha lk" "act_ok a"
  shows "lookup_ok alpha (runAct now a lk)"
proof -
  have "dht_ok (lk_dht (runAct now a lk)) \<and> d_alpha (lk_dht (runAct now a lk)) = d_alpha (lk_dht lk) \<and>
      seen_ok (lk_seen (runAct now a lk)) \<and> length (lk_seen (runAct now a lk)) \<le> MaxLookupNodes \<and>
      length (lk_peers (runAct now a lk)) \<le> MaxLookupPeers \<and>
      (\<forall>p\<in>set (lk_peers (runAct now a lk)). \<exists>s. compactPeer (BStr s) = Some p) \<and> queried (lk_seen (runAct now a lk)) = queried (lk_seen lk)"
  proof (cases a)
    case (AddNodes ns)
    obtain s d where sd: "addNodes now ns (lk_seen lk, lk_dht lk) = (s, d)" by fastforce
    then show ?thesis
      using assms addNodes_ok [of "(lk_seen lk, lk_dht lk)" ns now] by (simp add: lookup_ok_def AddNodes)
  next
    case (Collect vs)
    then show ?thesis
      using assms collectPeers_compact [of _ "lk_peers lk" vs] by (auto simp: lookup_ok_def collectPeers_bound)
  qed (use assms in \<open>simp add: lookup_ok_def updateFrom_ok\<close>)
  then show ?thesis using assms(1) by (simp add: lookup_ok_def)
qed

lemma beginRound_ok:
  assumes "lookup_ok alpha lk" "lk_phase lk = AtRound" "lk_round lk < 10" "length target = 20"
  shows "lookup_ok alpha (beginRound \<omega> target lk)"
proof -
  define ns where "ns = toQuery \<omega> alpha (lk_seen lk) target"
  have inv: "seen_ok (lk_seen lk)" "d_alpha (lk_dht lk) = alpha" using assms(1) by (simp_all add: lookup_ok_def)
  have fresh: "length ns \<le> alpha" "distinct (map n_ID ns)" "n_ID ` set ns \<subseteq> fst ` set (lk_seen lk) - queried (lk_seen lk)"
    using toQuery_fresh [OF inv(1) assms(4), where \<omega> = \<omega> and alpha = alpha] unfolding ns_def by blast+
  have "\<forall>n\<in>set ns. n_ID n \<in> fst ` set (lk_seen lk)" using fresh(3) by blast
  note mark = markQueried_ok [OF inv(1) this]
  have "length (lk_asked lk) \<le> alpha * lk_round lk" using assms by (simp add: lookup_ok_def started_def)
  then have len: "length (lk_asked lk) + length ns \<le> alpha * (lk_round lk + 1)" using fresh(1) by simp
  have run: "list_all goroutine_ok (map Waiting ns)" by (simp add: list_all_iff)
  show ?thesis
    unfolding beginRound_def inv(2) ns_def [symmetric] Let_def
    using assms mark len run fresh by (auto simp: lookup_ok_def started_def)
qed

lemma list_all_update: "list_all P xs \<Longrightarrow> P x \<Longrightarrow> list_all P (xs[i := x])"
  unfolding list_all_iff using set_update_subset_insert [of xs i x] by blast

lemma lookup_ok_running:
  "lookup_ok alpha lk \<Longrightarrow> goroutine_ok gr \<Longrightarrow> lookup_ok alpha (lk\<lparr>lk_running := (lk_running lk)[g := gr]\<rparr>)"
  by (simp add: lookup_ok_def started_def list_all_update)

lemma lookup_step_ok:
  assumes "lookup_step getPeers target lk lk'" "lookup_ok alpha lk" "length target = 20"
  shows "lookup_ok alpha lk'"
  using assms(1)
proof cases
  case exhausted
  then show ?thesis using assms(2) by (simp add: lookup_ok_def started_def)
next
  case stop
  then show ?thesis using assms(2) by (auto simp: lookup_ok_def started_def intro: le_trans)
next
  case (start \<omega>)
  then show ?thesis using assms by (simp add: beginRound_ok)
next
  case (fails g n)
  then show ?thesis using assms(2) by (simp add: lookup_ok_running)
next
  case (responds g n addr r)
  show ?thesis unfolding responds(1) by (rule lookup_ok_running [OF assms(2) responseActs_ok [OF responds(5)]])
next
  case (act g a as now)
  have "goroutine_ok (Acting (a # as))"
    using assms(2) act(3,4) by (metis lookup_ok_def list_all_length)
  then have a: "act_ok a" "goroutine_ok (Acting as)" by simp_all
  show ?thesis unfolding act(1) by (rule runAct_ok [OF lookup_ok_running [OF assms(2) a(2)] a(1)])
next
  case finish
  then show ?thesis using assms(2) by (auto simp: lookup_ok_def started_def endRound_def)
qed

section \<open>The number of steps\<close>

primrec goroutine_weight :: "goroutine \<Rightarrow> nat" where
  "goroutine_weight (Waiting n) = 5"
| "goroutine_weight (Acting as) = length as"

definition lookup_weight :: "nat \<Rightarrow> lookup \<Rightarrow> nat" where
  "lookup_weight alpha lk =
     (case lk_phase lk of
        Finished \<Rightarrow> 0
      | AtRound \<Rightarrow> (10 - lk_round lk) * (5 * alpha + 2) + 1
      | InRound \<Rightarrow> (9 - lk_round lk) * (5 * alpha + 2) + 2 + sum_list (map goroutine_weight (lk_running lk)))"

lemma sum_list_update_less:
  fixes f :: "'a \<Rightarrow> nat"
  assumes "g < length xs" "f x < f (xs ! g)"
  shows "sum_list (map f (xs[g := x])) < sum_list (map f xs)"
  using assms by (induction xs arbitrary: g) (auto split: nat.split)

lemma next_round: "r < 10 \<Longrightarrow> (10 - r) * c = (9 - r) * c + (c :: nat)"
proof -
  assume "r < 10"
  then have "10 - r = Suc (9 - r)" by simp
  then show ?thesis by (simp add: add.commute)
qed

lemma lookup_step_weight:
  assumes "lookup_step getPeers target lk lk'" "lookup_ok alpha lk" "length target = 20"
  shows "lookup_weight alpha lk' < lookup_weight alpha lk"
  using assms(1)
proof cases
  case (start \<omega>)
  define ns where "ns = toQuery \<omega> (d_alpha (lk_dht lk)) (lk_seen lk) target"
  have "length ns \<le> alpha"
    using assms(2) toQuery_fresh(1) [OF _ assms(3)] by (simp add: lookup_ok_def ns_def)
  moreover have "sum_list (map goroutine_weight (map Waiting ns)) = 5 * length ns" by (induction ns) simp_all
  ultimately have "sum_list (map goroutine_weight (map Waiting ns)) \<le> 5 * alpha" by simp
  then show ?thesis
    using start next_round [OF start(3), of "5 * alpha + 2"]
    unfolding start(1) beginRound_def ns_def [symmetric] Let_def
    by (cases "ns = []") (simp_all add: lookup_weight_def)
next
  case (fails g n)
  then show ?thesis using sum_list_update_less [of g "lk_running lk" goroutine_weight "Acting []"] by (simp add: lookup_weight_def)
next
  case (responds g n addr r)
  then have "length (responseActs getPeers r addr) < 5" using responseActs_ok [of addr getPeers r] by simp
  then show ?thesis
    using responds sum_list_update_less [of g "lk_running lk" goroutine_weight "Acting (responseActs getPeers r addr)"]
    by (simp add: lookup_weight_def)
next
  case (act g a as now)
  then show ?thesis
    using sum_list_update_less [of g "lk_running lk" goroutine_weight "Acting as"] by (simp add: lookup_weight_def)
next
  case finish
  have "10 - (lk_round lk + 1) = 9 - lk_round lk" by simp
  then have "lookup_weight alpha lk' \<le> (9 - lk_round lk) * (5 * alpha + 2) + 1"
    unfolding finish(1) endRound_def lookup_weight_def by (auto simp del: add_mult_distrib2)
  moreover have "lookup_weight alpha lk \<ge> (9 - lk_round lk) * (5 * alpha + 2) + 2"
    unfolding lookup_weight_def finish(2) by simp
  ultimately show ?thesis by linarith
qed (simp_all add: lookup_weight_def)

text \<open>Until it is finished a lookup can make a step.\<close>

lemma lookup_progress:
  assumes "lk_phase lk \<noteq> Finished"
  shows "\<exists>lk'. lookup_step getPeers target lk lk'"
proof (cases "lk_phase lk")
  case AtRound
  then show ?thesis using lookup_step.exhausted lookup_step.stop by (metis not_le)
next
  case InRound
  show ?thesis
  proof (cases "\<forall>g\<in>set (lk_running lk). g = Acting []")
    case False
    then obtain g where g: "g < length (lk_running lk)" "lk_running lk ! g \<noteq> Acting []" by (auto simp: in_set_conv_nth)
    show ?thesis
    proof (cases "lk_running lk ! g")
      case (Acting as)
      then obtain a as' where "lk_running lk ! g = Acting (a # as')" using g(2) by (cases as) auto
      then show ?thesis using lookup_step.act [OF InRound g(1)] by blast
    qed (use lookup_step.fails [OF InRound g(1)] in blast)
  qed (use lookup_step.finish [OF InRound] in blast)
qed (use assms in simp)

lemma lookup_weight_dht [simp]: "lookup_weight alpha (lk\<lparr>lk_dht := d\<rparr>) = lookup_weight alpha lk"
  by (cases "lk_phase lk") (simp_all add: lookup_weight_def)

lemma lookup_ok_dht:
  "lookup_ok alpha lk \<Longrightarrow> event_ok e \<Longrightarrow> lookup_ok alpha (lk\<lparr>lk_dht := dht_step (lk_dht lk) e\<rparr>)"
  by (simp add: lookup_ok_def started_def dht_step_ok)

lemma lookup_run_ok:
  assumes "lookup_run getPeers target lk n lk'" "lookup_ok alpha lk" "length target = 20"
  shows "lookup_ok alpha lk' \<and> n + lookup_weight alpha lk' \<le> lookup_weight alpha lk"
  using assms(1,2)
proof (induction rule: lookup_run.induct)
  case (step lk n lk' lk'')
  then have IH: "lookup_ok alpha lk'" "n + lookup_weight alpha lk' \<le> lookup_weight alpha lk" by simp_all
  have "lookup_ok alpha lk''" "lookup_weight alpha lk'' < lookup_weight alpha lk'"
    using lookup_step_ok [OF step.hyps(2) IH(1) assms(3)] lookup_step_weight [OF step.hyps(2) IH(1) assms(3)] by blast+
  then show ?case using IH(2) by simp
next
  case (other lk n lk' e)
  then show ?case using lookup_ok_dht by simp
qed simp

section \<open>The first nodes\<close>

lemma update_seen:
  assumes "seen_ok s" "queried s = {}" "length (n_ID n) = 20"
  shows "seen_ok (AList.update (n_ID n) \<lparr>ne_node = n, ne_queried = False\<rparr> s) \<and>
    queried (AList.update (n_ID n) \<lparr>ne_node = n, ne_queried = False\<rparr> s) = {} \<and>
    length (AList.update (n_ID n) \<lparr>ne_node = n, ne_queried = False\<rparr> s) \<le> length s + 1"
proof -
  have sub: "set (AList.update k v s) \<subseteq> insert (k, v) (set s)" "length (AList.update k v s) \<le> length s + 1" for k v and s :: seen
    by (induction s) auto
  have "distinct (map fst (AList.update k v s))" for k v using assms(1) distinct_update [of s k v] by (simp add: seen_ok_def)
  moreover have "n_ID (ne_node e) = i \<and> length i = 20"
    if "(i, e) \<in> set (AList.update (n_ID n) \<lparr>ne_node = n, ne_queried = False\<rparr> s)" for i e
    using that sub(1) [of "n_ID n" _ s] seen_okD [OF assms(1)] assms(3) by fastforce
  ultimately have "seen_ok (AList.update (n_ID n) \<lparr>ne_node = n, ne_queried = False\<rparr> s)"
    unfolding seen_ok_def by blast
  moreover have "queried (AList.update (n_ID n) \<lparr>ne_node = n, ne_queried = False\<rparr> s) = {}"
    using assms(2) by (auto simp: queried_def split: if_splits)
  ultimately show ?thesis using sub(2) by simp
qed

definition fresh_seen :: "nat \<Rightarrow> seen \<Rightarrow> bool" where
  "fresh_seen k s \<longleftrightarrow> seen_ok s \<and> queried s = {} \<and> length s \<le> k"

lemma seed_fold:
  assumes "fresh_seen k s" "\<forall>n\<in>set ns. length (n_ID n) = 20"
  shows "fresh_seen (k + length ns)
      (foldl (\<lambda>s n. if Q s n then AList.update (n_ID n) \<lparr>ne_node = n, ne_queried = False\<rparr> s else s) s ns)"
  using assms
proof (induction ns arbitrary: k s)
  case (Cons n ns)
  have "fresh_seen (Suc k) (if Q s n then AList.update (n_ID n) \<lparr>ne_node = n, ne_queried = False\<rparr> s else s)"
    using Cons.prems update_seen [of s n] by (auto simp: fresh_seen_def)
  then show ?case using Cons.IH [of "Suc k"] Cons.prems(2) by simp
qed simp

lemma seedSeen_fresh:
  assumes "dht_ok d" "length target = 20"
  shows "fresh_seen 16 (seedSeen d target)"
proof -
  let ?c4 = "Closest (d_table d) target dht_K" and ?c6 = "Closest (d_tableV6 d) target dht_K"
  have t: "\<forall>n\<in>set (Closest rt target dht_K). length (n_ID n) = 20" if "table_ok rt" for rt
    using Closest_take [OF that assms(2), of dht_K] table_IDs [OF that] by (auto dest: in_set_takeD)
  have ids: "\<forall>n\<in>set ?c4. length (n_ID n) = 20" "\<forall>n\<in>set ?c6. length (n_ID n) = 20"
    using assms(1) by (intro t; simp add: dht_ok_def)+
  have l: "length ?c4 \<le> 8" "length ?c6 \<le> 8" by (simp_all add: Closest_def Let_def dht_K_def)
  have "fresh_seen (0 + length ?c4) (foldl (\<lambda>s n. if True then AList.update (n_ID n) \<lparr>ne_node = n, ne_queried = False\<rparr> s else s) [] ?c4)"
    by (rule seed_fold [OF _ ids(1)]) (simp add: fresh_seen_def seen_ok_def queried_def)
  then have "fresh_seen (0 + length ?c4 + length ?c6) (seedSeen d target)"
    unfolding seedSeen_def Let_def if_True by (rule seed_fold [OF _ ids(2)])
  then show ?thesis using l by (simp add: fresh_seen_def)
qed

lemma startLookup_ok:
  assumes "startLookup d target = Some lk" "dht_ok d" "length target = 20"
  shows "lookup_ok (d_alpha d) lk" "lookup_weight alpha lk = 50 * alpha + 21"
proof -
  show "lookup_ok (d_alpha d) lk"
    using assms(1,2) seedSeen_fresh [OF assms(2,3)]
    by (auto simp: startLookup_def lookup_ok_def started_def fresh_seen_def MaxLookupNodes_def split: if_splits)
  show "lookup_weight alpha lk = 50 * alpha + 21"
    using assms(1) by (auto simp: startLookup_def lookup_weight_def split: if_splits)
qed

section \<open>Peers on public networks\<close>

lemma compactPeer_kept:
  assumes "compactPeer (BStr s) = Some p"
  shows "FilterPrivatePeers [p] = (if reserved (take (length s - 2) s) then [] else [p])"
proof -
  let ?ip = "take (length s - 2) s"
  have len: "length ?ip = 4 \<or> length ?ip = 16" "length s = 6 \<or> length s = 18"
    using assms by (auto simp: compactPeer_def split: if_splits)
  obtain ip16 where ip: "To16 ?ip = Some ip16" using len(1) by (auto simp: To16_def)
  have "\<exists>port. SplitHostPort p = Some (IP_String ?ip, port)"
  proof (cases "length s = 6")
    case True
    then have "IP_String ?ip = IPv4_String ?ip" by (simp add: IP_String_def To4_id) auto
    moreover have "colon \<notin> set (IPv4_String ?ip)"
      by (auto dest!: IPv4_String_bytes simp: is_digit_def colon_def period_def)
    moreover have "p = IPv4_String ?ip @ [colon] @ fmt_nat (unat (Uint16 (slice 4 6 s)))"
      using assms True by (simp add: compactPeer_def slice_def)
    ultimately show ?thesis
      using Split_plain [OF IP_String_host_ok [OF len(1)] _ digits_port_ok [OF fmt_nat_digits]] by metis
  next
    case False
    then have "p = [bracket_open] @ IP_String ?ip @ [bracket_close, colon] @ fmt_nat (unat (Uint16 (slice 16 18 s)))"
      using assms len(2) by (simp add: compactPeer_def)
    then show ?thesis
      using Split_bracketed [OF IP_String_host_ok [OF len(1)] digits_port_ok [OF fmt_nat_digits]] by metis
  qed
  then show ?thesis
    using ParseIP_String [OF len(1)] ip reserved_To16 [OF ip] by (auto simp: FilterPrivatePeers_def reserved_def)
qed

lemma FilterPrivatePeers_mem: "p \<in> set (FilterPrivatePeers ps) \<longleftrightarrow> p \<in> set ps \<and> FilterPrivatePeers [p] \<noteq> []"
  by (auto simp: FilterPrivatePeers_def)

section \<open>Bootstrap and saved nodes keep the node well-formed\<close>

lemma learnNodes_ok:
  assumes "dht_ok d" "\<And>nodes. ns = Some nodes \<Longrightarrow> \<forall>ni\<in>set nodes. info_ok ni"
  shows "dht_ok (learnNodes now d ns)"
proof -
  have "dht_ok (foldl (\<lambda>d ni. updateNode now d (newNode (ci_ID ni) (ci_Addr ni))) d nodes)"
    if "\<forall>ni\<in>set nodes. info_ok ni" for nodes
    using that assms(1)
    by (induction nodes arbitrary: d) (simp_all add: updateNode_ok newNode_def info_ok_def)
  then show ?thesis using assms by (cases ns) (simp_all add: learnNodes_def)
qed

lemma bootstrap_ok:
  assumes "dht_ok d" "\<forall>req\<in>set reqs. port_ok (fst req)"
  shows "dht_ok (bootstrapCollect now d reqs)"
  unfolding bootstrapCollect_def using assms
proof (induction reqs arbitrary: d)
  case (Cons req reqs)
  have "dht_ok (bootstrapOne now d req)"
    using Cons.prems Unmarshal_ok
    by (auto simp: bootstrapOne_def Let_def updateFrom_ok intro!: learnNodes_ok split: option.split)
  then show ?case using Cons by simp
qed simp

text \<open>What is saved is loaded again: all nodes of the table, however many tables later.\<close>

lemma Load_Save:
  assumes "dht_ok d" "dht_ok d'" "AllNodes (d_table d) \<noteq> []"
  shows "dht_ok (fst (LoadNodes now d' (SaveNodes d file)))" "snd (LoadNodes now d' (SaveNodes d file)) = Some (Len (d_table d))"
proof -
  let ?ns = "AllNodes (d_table d)" and ?c = "\<lambda>n. \<lparr>ci_ID = n_ID n, ci_Addr = n_Addr n\<rparr>"
  have t: "table_ok (d_table d)" using assms(1) by (simp add: dht_ok_def)
  have n: "length (n_ID n) = 20 \<and> is_v4 (n_Addr n) \<and> port_ok (n_Addr n)" if "n \<in> set ?ns" for n
    using node_addr [OF t that] assms(1) table_IDs [OF t] that by (auto simp: dht_ok_def addrs_sat_def)
  have m: "marshalNode (?c n) = marshalNode (canonical4 n)" and ok: "compact_ok 4 (canonical4 n)" if "n \<in> set ?ns" for n
    using n [OF that] To4_idem To4_length by (auto simp: marshalNode_def canonical4_def is_v4_def compact_ok_def port_ok_def)
  have M: "MarshalCompactNodeInfo (map ?c ?ns) = MarshalCompactNodeInfo (map canonical4 ?ns)"
    unfolding MarshalCompactNodeInfo_def using m by (auto simp: comp_def intro!: arg_cong [of _ _ concat])
  have U: "UnmarshalCompactNodeInfo (MarshalCompactNodeInfo (map ?c ?ns)) = Some (map canonical4 ?ns)"
    unfolding M using Unmarshal_Marshal [of "map canonical4 ?ns"] ok by simp
  then have ne: "MarshalCompactNodeInfo (map ?c ?ns) \<noteq> []" using assms(3) by (auto simp: UnmarshalCompactNodeInfo_def)
  let ?load = "foldl (\<lambda>d ni. d\<lparr>d_table := Update now (d_table d) (newNode (ci_ID ni) (ci_Addr ni))\<rparr>)"
  have L: "LoadNodes now d' (SaveNodes d file) = (?load d' (map canonical4 ?ns), Some (length ?ns))"
    using assms(3) ne U by (simp add: LoadNodes_def SaveNodes_def Let_def)
  then show "snd (LoadNodes now d' (SaveNodes d file)) = Some (Len (d_table d))" by (simp add: Len_AllNodes)
  have "dht_ok (?load d' (map canonical4 ms))" if "set ms \<subseteq> set ?ns" for ms
    using that assms(2)
  proof (induction ms arbitrary: d')
    case (Cons m ms)
    let ?u = "newNode (ci_ID (canonical4 m)) (ci_Addr (canonical4 m))"
    have u: "length (n_ID ?u) = 20" "port_ok (n_Addr ?u)" "To4 (ua_IP (n_Addr ?u)) \<noteq> None"
      using n [of m] Cons.prems(1) To4_idem by (auto simp: canonical4_def newNode_def is_v4_def port_ok_def)
    have "d'\<lparr>d_table := Update now (d_table d') ?u\<rparr> = updateNode now d' ?u" using u(3) by (simp add: updateNode_def)
    then show ?case using Cons updateNode_ok [OF Cons.prems(2) u(1,2)] by simp
  qed simp
  then show "dht_ok (fst (LoadNodes now d' (SaveNodes d file)))" by (simp add: L)
qed

section \<open>Properties\<close>

text \<open>
  C32: An iterative lookup ends and stays within its bounds, whatever the queried nodes answer, in
  whatever order their answers and the sections under the lock interleave, and whatever the node
  does meanwhile. It makes at most 50 alpha + 21 steps, and until it is finished it can make one.
  No node is asked twice, at most 10 alpha nodes are asked, at most 1000 nodes are tracked and at
  most 5000 peers collected; each round asks the alpha nearest nodes that were not asked before.
\<close>

theorem lookup_terminates:
  assumes "length self = 20" "rtranclp dht_trans (newDHT self secret (map WithAlpha alphas)) d" "length target = 20"
    and "startLookup d target = Some lk" "lookup_run getPeers target lk n lk'"
  shows "n \<le> 50 * d_alpha d + 21 \<and> (lk_phase lk' \<noteq> Finished \<longrightarrow> (\<exists>lk''. lookup_step getPeers target lk' lk'')) \<and>
    distinct (lk_asked lk') \<and> length (lk_asked lk') \<le> 10 * d_alpha d \<and>
    length (lk_seen lk') \<le> MaxLookupNodes \<and> length (lk_peers lk') \<le> MaxLookupPeers \<and>
    toQuery \<omega> (d_alpha d) (lk_seen lk') target =
      take (d_alpha d) (map ne_node (filter (\<lambda>e. \<not> ne_queried e)
        (sort_key (entry_dist target) (map (\<lambda>i. the (map_of (lk_seen lk') i)) (range_order \<omega> (map fst (lk_seen lk')))))))"
proof -
  have ok: "dht_ok d" using dht_run.reach_inv [OF assms(2) newDHT_ok [OF assms(1)]] .
  have run: "lookup_ok (d_alpha d) lk'" "n + lookup_weight (d_alpha d) lk' \<le> 50 * d_alpha d + 21"
    using lookup_run_ok [OF assms(5) startLookup_ok(1) [OF assms(4) ok assms(3)] assms(3)]
      startLookup_ok(2) [OF assms(4) ok assms(3), of "d_alpha d"] by simp_all
  have "length (lk_asked lk') \<le> d_alpha d * started lk'" using run(1) by (simp add: lookup_ok_def)
  moreover have "d_alpha d * started lk' \<le> d_alpha d * 10" by (rule mult_le_mono2) (simp add: started_def)
  ultimately have "length (lk_asked lk') \<le> 10 * d_alpha d" by linarith
  moreover have "seen_ok (lk_seen lk')" using run(1) by (simp add: lookup_ok_def)
  ultimately show ?thesis
    using run lookup_progress toQuery_nearest [OF _ assms(3), of "lk_seen lk'" \<omega> "d_alpha d"] by (simp add: lookup_ok_def)
qed

definition demo_dht1 :: DHT where
  "demo_dht1 = dht_step demo_dht (Learn 1 (demo_node 1))"

lemma demo_lookup:
  "rtranclp dht_trans (newDHT demo_self (replicate 20 7) (map WithAlpha [])) demo_dht1"
  "\<exists>lk. startLookup demo_dht1 demo_self = Some lk \<and> lk_phase lk = AtRound \<and> lk_round lk = 0 \<and> lk_peers lk = [] \<and>
     (\<exists>n ns. toQuery (\<lambda>_. 0) (d_alpha (lk_dht lk)) (lk_seen lk) demo_self = n # ns)"
proof -
  have "event_ok (Learn 1 (demo_node 1))" by (simp add: port_ok_def demo_node_def)
  then show "rtranclp dht_trans (newDHT demo_self (replicate 20 7) (map WithAlpha [])) demo_dht1"
    unfolding demo_dht1_def demo_dht_def list.map(1) by (intro r_into_rtranclp dht_trans.event)
  have "Closest (d_table demo_dht1) demo_self dht_K \<noteq> []" by code_simp
  moreover have "toQuery (\<lambda>_. 0) (d_alpha demo_dht1) (seedSeen demo_dht1 demo_self) demo_self \<noteq> []" by code_simp
  ultimately show "\<exists>lk. startLookup demo_dht1 demo_self = Some lk \<and> lk_phase lk = AtRound \<and> lk_round lk = 0 \<and> lk_peers lk = [] \<and>
     (\<exists>n ns. toQuery (\<lambda>_. 0) (d_alpha (lk_dht lk)) (lk_seen lk) demo_self = n # ns)"
    by (simp add: startLookup_def neq_Nil_conv)
qed

text \<open>A lookup that collects the peers of one response.\<close>

lemma demo_collect:
  assumes "lk_phase lk = AtRound" "lk_round lk = 0"
    "toQuery (\<lambda>_. 0) (d_alpha (lk_dht lk)) (lk_seen lk) target = n # ns"
  shows "\<exists>lk'. lookup_run True target lk 4 lk' \<and> lk_peers lk' = collectPeers (lk_peers lk) vs"
proof -
  define r where "r = [(gostr ''values'', BList vs)]"
  define a where "a = \<lparr>ua_IP = [10, 0, 0, 1], ua_Port = 6881\<rparr>"
  define s1 where "s1 = beginRound (\<lambda>_. 0) target lk"
  define s2 where "s2 = s1\<lparr>lk_running := (lk_running s1)[0 := Acting (responseActs True r a)]\<rparr>"
  define s3 where "s3 = runAct 1 (UpdateFrom r a) (s2\<lparr>lk_running := (lk_running s2)[0 := Acting [Collect vs]]\<rparr>)"
  define s4 where "s4 = runAct 1 (Collect vs) (s3\<lparr>lk_running := (lk_running s3)[0 := Acting []]\<rparr>)"
  have s1: "lk_phase s1 = InRound" "lk_running s1 = Waiting n # map Waiting ns" "lk_peers s1 = lk_peers lk"
    using assms by (simp_all add: s1_def beginRound_def)
  have r: "responseActs True r a = [UpdateFrom r a, Collect vs]" by (simp add: responseActs_def r_def)
  have "lookup_step True target lk s1" unfolding s1_def using assms by (intro lookup_step.start) simp_all
  moreover have "lookup_step True target s1 s2"
    unfolding s2_def using s1 by (intro lookup_step.responds) (simp_all add: port_ok_def a_def)
  moreover have "lookup_step True target s2 s3"
    unfolding s3_def using s1 by (intro lookup_step.act) (simp_all add: s2_def r)
  moreover have "lookup_step True target s3 s4"
    unfolding s4_def using s1 by (intro lookup_step.act) (simp_all add: s3_def s2_def)
  ultimately have "lookup_run True target lk (Suc (Suc (Suc (Suc 0)))) s4"
    using lookup_run.intros(1,2) by meson
  moreover have "lk_peers s4 = collectPeers (lk_peers lk) vs" by (simp add: s4_def s3_def s2_def s1)
  ultimately show ?thesis by (auto simp: numeral_eq_Suc)
qed

theorem lookup_terminates_witness:
  "\<exists>lk lk'. startLookup demo_dht1 demo_self = Some lk \<and> lookup_run True demo_self lk 4 lk' \<and>
     length (lk_asked lk') \<le> 10 * d_alpha demo_dht1 \<and> distinct (lk_asked lk') \<and> 4 \<le> 50 * d_alpha demo_dht1 + 21"
proof -
  have l: "length demo_self = 20" by (simp add: demo_self_def)
  obtain lk lk' where lk: "startLookup demo_dht1 demo_self = Some lk" and run: "lookup_run True demo_self lk 4 lk'"
    using demo_lookup(2) demo_collect by blast
  from lookup_terminates [OF l demo_lookup(1) l lk run] lk run show ?thesis by blast
qed

text \<open>
  C33: \<open>GetPeers\<close> returns exactly the peers on public networks. In every state a lookup reaches, a
  collected peer is returned if and only if it is the text of a compact entry whose address bytes
  are not loopback, private, link-local or unspecified: printing the address and parsing it again
  loses nothing, for IPv4, IPv6 and IPv4-mapped entries.
\<close>

theorem GetPeers_public:
  assumes "length self = 20" "rtranclp dht_trans (newDHT self secret (map WithAlpha alphas)) d" "length target = 20"
    and "startLookup d target = Some lk" "lookup_run True target lk n lk'"
  shows "p \<in> set (GetPeersResult lk') \<longleftrightarrow>
    p \<in> set (lk_peers lk') \<and> (\<exists>s. compactPeer (BStr s) = Some p \<and> \<not> reserved (take (length s - 2) s))"
proof -
  have ok: "dht_ok d" using dht_run.reach_inv [OF assms(2) newDHT_ok [OF assms(1)]] .
  have "lookup_ok (d_alpha d) lk'"
    using lookup_run_ok [OF assms(5) startLookup_ok(1) [OF assms(4) ok assms(3)] assms(3)] by blast
  then have c: "\<exists>s. compactPeer (BStr s) = Some p" if "p \<in> set (lk_peers lk')" using that by (simp add: lookup_ok_def)
  have "FilterPrivatePeers [p] \<noteq> [] \<longleftrightarrow> \<not> reserved (take (length s - 2) s)" if "compactPeer (BStr s) = Some p" for s
    using compactPeer_kept [OF that] by simp
  then show ?thesis unfolding GetPeersResult_def FilterPrivatePeers_mem using c by blast
qed

theorem GetPeers_public_witness:
  "\<exists>lk lk'. startLookup demo_dht1 demo_self = Some lk \<and> lookup_run True demo_self lk 4 lk' \<and>
     lk_peers lk' = [gostr ''10.0.0.1:80'', gostr ''8.8.4.4:80''] \<and>
     gostr ''8.8.4.4:80'' \<in> set (GetPeersResult lk')"
proof -
  have l: "length demo_self = 20" by (simp add: demo_self_def)
  let ?vs = "[BStr [10, 0, 0, 1, 0, 80], BStr [8, 8, 4, 4, 0, 80]]"
  obtain lk where lk: "startLookup demo_dht1 demo_self = Some lk" "lk_phase lk = AtRound" "lk_round lk = 0" "lk_peers lk = []"
    "\<exists>n ns. toQuery (\<lambda>_. 0) (d_alpha (lk_dht lk)) (lk_seen lk) demo_self = n # ns" using demo_lookup(2) by blast
  obtain lk' where run: "lookup_run True demo_self lk 4 lk'" and p: "lk_peers lk' = collectPeers [] ?vs"
    using demo_collect [OF lk(2,3)] lk(4,5) by metis
  have v: "collectPeers [] ?vs = [gostr ''10.0.0.1:80'', gostr ''8.8.4.4:80'']"
    "compactPeer (BStr [8, 8, 4, 4, 0, 80]) = Some (gostr ''8.8.4.4:80'')"
    "\<not> reserved (take (length [8, 8, 4, 4, 0, 80 :: byte] - 2) [8, 8, 4, 4, 0, 80])" by code_simp+
  have "gostr ''8.8.4.4:80'' \<in> set (lk_peers lk')" unfolding p v(1) by simp
  then have "gostr ''8.8.4.4:80'' \<in> set (GetPeersResult lk')"
    using GetPeers_public [OF l demo_lookup(1) l lk(1) run] v(2,3) by blast
  then show ?thesis using lk(1) run p v(1) by metis
qed

end
