(* ===== verification/Utp_Packet.thy ===== *)
theory Utp_Packet
  imports Go_Prelude Go_Map
begin

text \<open>
  uTP packets and sequence numbers (\<^verbatim>\<open>src/utp/packet.go\<close>, the comparisons of \<^verbatim>\<open>src/utp/conn.go\<close>).
\<close>

section \<open>Packets\<close>

definition StData :: byte where "StData = 0"
definition StFin :: byte where "StFin = 1"
definition StState :: byte where "StState = 2"
definition StReset :: byte where "StReset = 3"
definition StSyn :: byte where "StSyn = 4"

lemmas packet_types = StData_def StFin_def StState_def StReset_def StSyn_def

record Header =
  h_Type :: byte
  h_Version :: byte
  h_Extension :: byte
  h_ConnID :: "16 word"
  h_Timestamp :: "32 word"
  h_TSDiff :: "32 word"
  h_WndSize :: "32 word"
  h_SeqNr :: "16 word"
  h_AckNr :: "16 word"

definition headerSize :: nat where "headerSize = 20"

record Packet =
  p_Header :: Header
  p_Payload :: bytes

definition Header_Marshal :: "Header \<Rightarrow> bytes" where
  "Header_Marshal h =
     [push_bit 4 (h_Type h) OR (h_Version h AND 0x0f), h_Extension h] @
     PutUint16 (h_ConnID h) @ PutUint32 (h_Timestamp h) @ PutUint32 (h_TSDiff h) @ PutUint32 (h_WndSize h) @
     PutUint16 (h_SeqNr h) @ PutUint16 (h_AckNr h)"

definition ParseHeader :: "bytes \<Rightarrow> Header option" where
  "ParseHeader data =
     (if length data < headerSize then None
      else Some \<lparr>h_Type = drop_bit 4 (data ! 0), h_Version = data ! 0 AND 0x0f, h_Extension = data ! 1,
                 h_ConnID = Uint16 (slice 2 4 data), h_Timestamp = Uint32 (slice 4 8 data),
                 h_TSDiff = Uint32 (slice 8 12 data), h_WndSize = Uint32 (slice 12 16 data),
                 h_SeqNr = Uint16 (slice 16 18 data), h_AckNr = Uint16 (slice 18 20 data)\<rparr>)"

definition Packet_Marshal :: "Packet \<Rightarrow> bytes" where
  "Packet_Marshal p =
     (let hdr = Header_Marshal (p_Header p) in if length (p_Payload p) = 0 then hdr else hdr @ p_Payload p)"

definition ParsePacket :: "bytes \<Rightarrow> Packet option" where
  "ParsePacket data =
     (case ParseHeader data of
        None \<Rightarrow> None
      | Some h \<Rightarrow> Some \<lparr>p_Header = h, p_Payload = (if length data > headerSize then drop headerSize data else [])\<rparr>)"

definition IsUTP :: "bytes \<Rightarrow> bool" where
  "IsUTP data = (if length data < headerSize then False else data ! 0 AND 0x0f = 1)"

section \<open>Round trip of packets\<close>

lemma length_Header_Marshal [simp]: "length (Header_Marshal h) = 20"
  by (simp add: Header_Marshal_def)

lemma nibbles:
  fixes t v :: byte
  assumes "t < 16" "v < 16"
  shows "drop_bit 4 (push_bit 4 t OR (v AND 0x0f)) = t" "(push_bit 4 t OR (v AND 0x0f)) AND 0x0f = v"
proof -
  have "list_all (\<lambda>t. list_all (\<lambda>v. drop_bit 4 (push_bit 4 t OR (v AND 0x0f)) = t \<and>
      (push_bit 4 t OR (v AND 0x0f)) AND 0x0f = v) (map of_nat [0..<16])) (map of_nat [0..<16] :: byte list)"
    by code_simp
  moreover have "x \<in> set (map of_nat [0..<16])" if "x < 16" for x :: byte
    using that by (auto simp: word_less_nat_alt intro!: image_eqI [of _ _ "unat x"])
  ultimately show "drop_bit 4 (push_bit 4 t OR (v AND 0x0f)) = t" "(push_bit 4 t OR (v AND 0x0f)) AND 0x0f = v"
    using assms unfolding list_all_iff by blast+
qed

definition header_ok :: "Header \<Rightarrow> bool" where
  "header_ok h \<longleftrightarrow> h_Type h < 16 \<and> h_Version h < 16"

lemma ParseHeader_Marshal:
  assumes "header_ok h"
  shows "ParseHeader (Header_Marshal h @ s) = Some h"
proof -
  have n: "drop_bit 4 (push_bit 4 (h_Type h) OR (h_Version h AND 0x0f)) = h_Type h"
    "(push_bit 4 (h_Type h) OR (h_Version h AND 0x0f)) AND 0x0f = h_Version h"
    using nibbles [of "h_Type h" "h_Version h"] assms unfolding header_ok_def by blast+
  have s: "slice a b (x # y # z) = take (b - a) (drop (a - 2) z)" if "2 \<le> a" for a b and x y :: byte and z
    using that by (cases a; cases "a - 1") (auto simp: slice_def)
  show ?thesis
    using n by (cases h) (simp add: ParseHeader_def headerSize_def Header_Marshal_def s)
qed

lemma ParsePacket_Marshal:
  assumes "header_ok (p_Header p)"
  shows "ParsePacket (Packet_Marshal p) = Some p"
  using ParseHeader_Marshal [OF assms, of "p_Payload p"] ParseHeader_Marshal [OF assms, of "[]"]
  by (cases p) (simp add: ParsePacket_def Packet_Marshal_def headerSize_def Let_def)

lemma IsUTP_Marshal:
  assumes "header_ok (p_Header p)"
  shows "IsUTP (Packet_Marshal p) \<longleftrightarrow> h_Version (p_Header p) = 1"
  using nibbles(2) [of "h_Type (p_Header p)" "h_Version (p_Header p)"] assms
  by (simp add: IsUTP_def Packet_Marshal_def headerSize_def Header_Marshal_def header_ok_def Let_def)

section \<open>Sequence numbers\<close>

definition wrappingGT :: "16 word \<Rightarrow> 16 word \<Rightarrow> bool" where
  "wrappingGT a b \<longleftrightarrow> sint (a - b) > 0"

definition wrappingLEQ :: "16 word \<Rightarrow> 16 word \<Rightarrow> bool" where
  "wrappingLEQ a b \<longleftrightarrow> \<not> wrappingGT a b"

text \<open>Numbers at most \<open>2 ^ 15\<close> apart are compared as their positions in the stream are.\<close>

lemma sint_offset:
  assumes "int k - 32768 \<le> int i" "int i < int k + 32768"
  shows "sint ((s :: 16 word) + of_nat i - (s + of_nat k)) = int i - int k"
proof -
  have "s + of_nat i - (s + of_nat k) = (of_int (int i - int k) :: 16 word)" by simp
  moreover have "signed_take_bit 15 (int i - int k) = int i - int k"
    using assms by (intro signed_take_bit_int_eq_self) simp_all
  ultimately show ?thesis by (simp only: sint_sbintrunc') simp
qed

lemma wrappingGT_index:
  assumes "int k - 32768 \<le> int i" "int i < int k + 32768"
  shows "wrappingGT (s + of_nat i) (s + of_nat k) \<longleftrightarrow> k < i"
  using sint_offset [OF assms, of s] by (simp add: wrappingGT_def)

lemma index_inj:
  assumes "int k - 32768 \<le> int i" "int i < int k + 32768"
  shows "(s :: 16 word) + of_nat i = s + of_nat k \<longleftrightarrow> i = k"
proof
  assume "s + of_nat i = s + of_nat k"
  then have "s + of_nat i - (s + of_nat k) = 0" by simp
  then have "int i - int k = 0" using sint_offset [OF assms, of s] by (metis signed_0)
  then show "i = k" by simp
qed simp

end
