(* ===== verification/Utp_Conn.thy ===== *)
theory Utp_Conn
  imports Utp_Packet Go_Float "HOL-Library.Sublist"
begin

text \<open>
  uTP congestion control, connections and the listener (\<^verbatim>\<open>src/utp/ledbat.go\<close>, \<^verbatim>\<open>src/utp/conn.go\<close>,
  \<^verbatim>\<open>src/utp/listener.go\<close>). The congestion window is a \<open>float64\<close>. Clocks are arguments; what an operation sends is
  part of its result. \<open>Write\<close> and \<open>handleAck\<close> run through several critical sections, between which other
  goroutines move: each is a definition of its own.
\<close>

section \<open>Congestion control\<close>

definition targetDelay :: int where "targetDelay = 100000"
definition maxCwnd :: real where "maxCwnd = 1048576"
definition minCwnd :: real where "minCwnd = 150"
definition mss :: nat where "mss = 1400"
definition baseDelayBuckets :: nat where "baseDelayBuckets = 8"
definition bucketInterval :: int where "bucketInterval = 30000000000"

record LEDBAT =
  lb_cwnd :: real
  lb_flightSize :: int
  lb_buckets :: "int list"
  lb_currentBkt :: nat
  lb_lastRotate :: int

definition NewLEDBAT :: "int \<Rightarrow> LEDBAT" where
  "NewLEDBAT now =
     \<lparr>lb_cwnd = real mss * 2, lb_flightSize = 0, lb_buckets = replicate baseDelayBuckets max_int64,
      lb_currentBkt = 0, lb_lastRotate = now\<rparr>"

definition rotateBuckets :: "int \<Rightarrow> LEDBAT \<Rightarrow> LEDBAT" where
  "rotateBuckets now l =
     (if now - lb_lastRotate l < bucketInterval then l
      else (let cur = (lb_currentBkt l + 1) mod baseDelayBuckets
            in l\<lparr>lb_currentBkt := cur, lb_buckets := (lb_buckets l)[cur := max_int64], lb_lastRotate := now\<rparr>))"

definition getBaseDelay :: "LEDBAT \<Rightarrow> int" where
  "getBaseDelay l = foldl (\<lambda>m d. if d < m then d else m) max_int64 (lb_buckets l)"

text \<open>
  On some targets the compiler fuses the multiplication and the addition of the last step into one
  operation with one rounding; \<open>fma\<close> says whether it does.
\<close>

definition newCwnd :: "bool \<Rightarrow> real \<Rightarrow> int \<Rightarrow> int \<Rightarrow> real" where
  "newCwnd fma cwnd queuingDelay ackedBytes =
     (let offTarget = float64_round (float64_round (of_int (targetDelay - queuingDelay)) / float64_round (of_int targetDelay));
          gain = float64_round (float64_round (float64_round (of_int ackedBytes) * offTarget) / cwnd);
          inc = gain * float64_round (real mss);
          c1 = float64_round (cwnd + (if fma then inc else float64_round inc));
          c2 = (if c1 < minCwnd then minCwnd else c1)
      in if c2 > maxCwnd then maxCwnd else c2)"

definition OnAck :: "bool \<Rightarrow> int \<Rightarrow> int \<Rightarrow> int \<Rightarrow> LEDBAT \<Rightarrow> LEDBAT" where
  "OnAck fma now delay ackedBytes l0 =
     (let l1 = rotateBuckets now l0;
          cur = lb_currentBkt l1;
          l2 = (if delay < lb_buckets l1 ! cur then l1\<lparr>lb_buckets := (lb_buckets l1)[cur := delay]\<rparr> else l1);
          base = getBaseDelay l2;
          queuingDelay = (if base = max_int64 then 0 else if wrap64 (delay - base) < 0 then 0 else wrap64 (delay - base));
          flight = lb_flightSize l2 - ackedBytes
      in l2\<lparr>lb_cwnd := newCwnd fma (lb_cwnd l2) queuingDelay ackedBytes,
            lb_flightSize := (if flight < 0 then 0 else flight)\<rparr>)"

definition OnLoss :: "LEDBAT \<Rightarrow> LEDBAT" where
  "OnLoss l = (let c = float64_round (lb_cwnd l / 2) in l\<lparr>lb_cwnd := (if c < minCwnd then minCwnd else c)\<rparr>)"

definition OnTimeout :: "LEDBAT \<Rightarrow> LEDBAT" where
  "OnTimeout l = l\<lparr>lb_cwnd := real mss, lb_flightSize := 0\<rparr>"

definition OnSend :: "int \<Rightarrow> LEDBAT \<Rightarrow> LEDBAT" where
  "OnSend n l = l\<lparr>lb_flightSize := lb_flightSize l + n\<rparr>"

definition Cwnd :: "LEDBAT \<Rightarrow> int" where
  "Cwnd l = \<lfloor>lb_cwnd l\<rfloor>"

definition CanSend :: "LEDBAT \<Rightarrow> int" where
  "CanSend l = (let avail = \<lfloor>lb_cwnd l\<rfloor> - lb_flightSize l in if avail < 0 then 0 else avail)"

definition FlightSize :: "LEDBAT \<Rightarrow> int" where
  "FlightSize l = lb_flightSize l"

section \<open>Connections\<close>

definition maxRetransmits :: nat where "maxRetransmits = 4"
definition reorderBufMax :: nat where "reorderBufMax = 64"
definition recvChCap :: nat where "recvChCap = 1024"

record sentPkt =
  sp_raw :: bytes
  sp_seqNr :: "16 word"
  sp_sentAt :: int
  sp_retries :: nat

record Conn =
  c_connID :: "16 word"
  c_seqNr :: "16 word"
  c_ackNr :: "16 word"
  c_ledbat :: LEDBAT
  c_recvBuf :: bytes
  c_recvCh :: "bytes list"
  c_closed :: bool
  c_finAcked :: bool
  c_finSeqNr :: "16 word"
  c_sendBuf :: "(16 word \<times> sentPkt) list"
  c_reorderBuf :: "(16 word \<times> bytes) list"
  c_nextExpected :: "16 word"
  c_recvInited :: bool
  c_remoteWnd :: "32 word"

definition rto :: int where "rto = 1000000000"

definition newConn :: "int \<Rightarrow> 16 word \<Rightarrow> 16 word \<Rightarrow> 16 word \<Rightarrow> Conn" where
  "newConn now connID seqNr ackNr =
     \<lparr>c_connID = connID, c_seqNr = seqNr, c_ackNr = ackNr, c_ledbat = NewLEDBAT now, c_recvBuf = [], c_recvCh = [],
      c_closed = False, c_finAcked = False, c_finSeqNr = 0, c_sendBuf = [], c_reorderBuf = [],
      c_nextExpected = 0, c_recvInited = False, c_remoteWnd = 256 * of_nat mss\<rparr>"

text \<open>
  One \<open>Read\<close> into a buffer of \<open>n\<close> bytes. When data is queued and the connection is closed the select
  may take either case; \<open>preferData\<close> is its choice. \<open>WouldBlock\<close>: nothing yet, the call waits.
\<close>

datatype readResult = Data bytes | ErrClosed | WouldBlock

definition Conn_Read :: "bool \<Rightarrow> nat \<Rightarrow> Conn \<Rightarrow> Conn \<times> readResult" where
  "Conn_Read preferData n c =
     (if length (c_recvBuf c) > 0 then (c\<lparr>c_recvBuf := drop n (c_recvBuf c)\<rparr>, Data (take n (c_recvBuf c)))
      else case c_recvCh c of
             [] \<Rightarrow> (c, if c_closed c then ErrClosed else WouldBlock)
           | data # rest \<Rightarrow>
               if c_closed c \<and> \<not> preferData then (c, ErrClosed)
               else (c\<lparr>c_recvCh := rest, c_recvBuf := (if n < length data then drop n data else c_recvBuf c)\<rparr>,
                     Data (take n data)))"

definition window :: "Conn \<Rightarrow> 32 word" where
  "window c =
     (let avail = int recvChCap - int (length (c_recvCh c)); avail' = (if avail < 0 then 0 else avail)
      in of_int avail' * of_nat mss)"

definition updateRemoteWnd :: "32 word \<Rightarrow> Conn \<Rightarrow> Conn" where
  "updateRemoteWnd w c = c\<lparr>c_remoteWnd := (if w < of_nat mss then of_nat mss else w)\<rparr>"

text \<open>
  \<open>effectiveCanSend\<close> reads the room in the congestion window, the bytes in flight and the remote window one
  after the other, each under its own lock; these are its arguments.
\<close>

definition effectiveCanSend :: "int \<Rightarrow> int \<Rightarrow> 32 word \<Rightarrow> int" where
  "effectiveCanSend cwndAvail flight remoteWnd =
     (let remoteAvail = uint remoteWnd - flight in if remoteAvail < cwndAvail then remoteAvail else cwndAvail)"

definition chunkSize :: "int \<Rightarrow> nat \<Rightarrow> int" where
  "chunkSize canSend len =
     (let n = (if int mss > int len then int len else int mss) in if n > canSend then canSend else n)"

definition dataPacket :: "Conn \<Rightarrow> 32 word \<Rightarrow> 16 word \<Rightarrow> bytes \<Rightarrow> Packet" where
  "dataPacket c ts seq payload =
     \<lparr>p_Header = \<lparr>h_Type = StData, h_Version = 1, h_Extension = 0, h_ConnID = c_connID c, h_Timestamp = ts, h_TSDiff = 0,
                  h_WndSize = window c, h_SeqNr = seq, h_AckNr = c_ackNr c\<rparr>,
      p_Payload = payload\<rparr>"

text \<open>
  The rest of a round of the loop of \<open>Write\<close>: the packet gets its number and is built, it is put into the
  send buffer, the socket takes or refuses it (then it is taken out of the buffer), and the bytes are
  counted. The number stays used when the socket refuses the packet.
\<close>

definition numberPacket :: "32 word \<Rightarrow> bytes \<Rightarrow> Conn \<Rightarrow> Conn \<times> 16 word \<times> bytes" where
  "numberPacket ts payload c =
     (let seq = c_seqNr c + 1; c1 = c\<lparr>c_seqNr := seq\<rparr>
      in (c1, seq, Packet_Marshal (dataPacket c1 ts seq payload)))"

definition bufferPacket :: "int \<Rightarrow> 16 word \<Rightarrow> bytes \<Rightarrow> Conn \<Rightarrow> Conn" where
  "bufferPacket now seq raw c =
     c\<lparr>c_sendBuf := AList.update seq \<lparr>sp_raw = raw, sp_seqNr = seq, sp_sentAt = now, sp_retries = 0\<rparr> (c_sendBuf c)\<rparr>"

definition unbufferPacket :: "16 word \<Rightarrow> Conn \<Rightarrow> Conn" where
  "unbufferPacket seq c = c\<lparr>c_sendBuf := AList.delete seq (c_sendBuf c)\<rparr>"

definition countSent :: "nat \<Rightarrow> Conn \<Rightarrow> Conn" where
  "countSent n c = c\<lparr>c_ledbat := OnSend (int n) (c_ledbat c)\<rparr>"

definition Conn_Close :: "32 word \<Rightarrow> Conn \<Rightarrow> Conn \<times> bytes option" where
  "Conn_Close ts c =
     (if c_closed c then (c, None)
      else (let seq = c_seqNr c + 1;
                pkt = \<lparr>p_Header = \<lparr>h_Type = StFin, h_Version = 1, h_Extension = 0, h_ConnID = c_connID c, h_Timestamp = ts,
                                   h_TSDiff = 0, h_WndSize = 0, h_SeqNr = seq, h_AckNr = c_ackNr c\<rparr>, p_Payload = []\<rparr>
            in (c\<lparr>c_closed := True, c_seqNr := seq, c_finSeqNr := seq\<rparr>, Some (Packet_Marshal pkt))))"

definition setFirstExpected :: "16 word \<Rightarrow> Conn \<Rightarrow> Conn" where
  "setFirstExpected seqNr c = c\<lparr>c_nextExpected := seqNr, c_recvInited := True\<rparr>"

lemma length_delete_less: "map_of r n = Some p \<Longrightarrow> length (AList.delete n r) < length r"
  by (induction r) (auto split: if_splits simp: less_Suc_eq_le length_delete_le)

text \<open>The loop that delivers buffered packets which have become consecutive.\<close>

function flushReorder :: "(16 word \<times> bytes) list \<Rightarrow> 16 word \<Rightarrow> (16 word \<times> bytes) list \<times> 16 word \<times> bytes list" where
  "flushReorder r n =
     (case map_of r n of
        None \<Rightarrow> (r, n, [])
      | Some p \<Rightarrow>
          (case flushReorder (AList.delete n r) (n + 1) of
             (r', n', ds) \<Rightarrow> (r', n', if length p > 0 then p # ds else ds)))"
  by pat_completeness auto
termination
  by (relation "measure (\<lambda>(r, n). length r)") (auto dest: length_delete_less)

declare flushReorder.simps [simp del]

definition deliverInOrder :: "16 word \<Rightarrow> bytes \<Rightarrow> Conn \<Rightarrow> Conn \<times> bytes list" where
  "deliverInOrder seqNr payload c0 =
     (let c = (if \<not> c_recvInited c0 then c0\<lparr>c_nextExpected := seqNr, c_recvInited := True\<rparr> else c0)
      in if seqNr = c_nextExpected c
         then (case flushReorder (c_reorderBuf c) (c_nextExpected c + 1) of
                 (r, n, ds) \<Rightarrow>
                   (c\<lparr>c_reorderBuf := r, c_nextExpected := n, c_ackNr := n - 1\<rparr>,
                    if length payload > 0 then payload # ds else ds))
         else if wrappingGT seqNr (c_nextExpected c)
         then (if length (c_reorderBuf c) < reorderBufMax
               then (c\<lparr>c_reorderBuf := AList.update seqNr payload (c_reorderBuf c)\<rparr>, []) else (c, []))
         else (c, []))"

text \<open>The critical sections of \<open>handleAck\<close> after the update of the remote window.\<close>

definition ackSample :: "bool \<Rightarrow> int \<Rightarrow> Header \<Rightarrow> Conn \<Rightarrow> Conn" where
  "ackSample fma now h c =
     (if h_TSDiff h \<noteq> 0 then c\<lparr>c_ledbat := OnAck fma now (uint (h_TSDiff h)) (int mss) (c_ledbat c)\<rparr> else c)"

definition ackPrune :: "Header \<Rightarrow> Conn \<Rightarrow> Conn" where
  "ackPrune h c = c\<lparr>c_sendBuf := filter (\<lambda>(seq, sp). \<not> wrappingLEQ seq (h_AckNr h)) (c_sendBuf c)\<rparr>"

definition ackFin :: "Header \<Rightarrow> Conn \<Rightarrow> Conn" where
  "ackFin h c =
     (if c_closed c \<and> c_finSeqNr c \<noteq> 0 \<and> wrappingLEQ (c_finSeqNr c) (h_AckNr h) then c\<lparr>c_finAcked := True\<rparr> else c)"

definition handleAck :: "bool \<Rightarrow> int \<Rightarrow> Header \<Rightarrow> Conn \<Rightarrow> Conn" where
  "handleAck fma now h c = ackFin h (ackPrune h (ackSample fma now h (updateRemoteWnd (h_WndSize h) c)))"

definition sendAckFor :: "32 word \<Rightarrow> 32 word \<Rightarrow> Conn \<Rightarrow> bytes" where
  "sendAckFor now dataTimestamp c =
     (let tsDiff = (if dataTimestamp \<noteq> 0 then now - dataTimestamp else 0)
      in Packet_Marshal
           \<lparr>p_Header = \<lparr>h_Type = StState, h_Version = 1, h_Extension = 0, h_ConnID = c_connID c, h_Timestamp = now,
                        h_TSDiff = tsDiff, h_WndSize = window c, h_SeqNr = c_seqNr c, h_AckNr = c_ackNr c\<rparr>,
            p_Payload = []\<rparr>)"

text \<open>
  A data packet: \<open>deliverInOrder\<close> sends the delivered payloads to \<open>recvCh\<close>, waiting while it is full,
  and then the packet is acknowledged. The result is the state after that and the acknowledgement.
\<close>

definition receiveData :: "32 word \<Rightarrow> Packet \<Rightarrow> Conn \<Rightarrow> Conn \<times> bytes" where
  "receiveData now pkt c =
     (let h = p_Header pkt;
          (c1, ds) = deliverInOrder (h_SeqNr h) (p_Payload pkt) (updateRemoteWnd (h_WndSize h) c);
          c2 = c1\<lparr>c_recvCh := c_recvCh c1 @ ds\<rparr>
      in (c2, sendAckFor now (h_Timestamp h) c2))"

text \<open>One packet of \<open>clientReadLoop\<close>; the datagrams it sends.\<close>

definition clientPacket :: "bool \<Rightarrow> int \<Rightarrow> 32 word \<Rightarrow> bytes \<Rightarrow> Conn \<Rightarrow> Conn \<times> bytes list" where
  "clientPacket fma now ts data c =
     (if length data < headerSize then (c, [])
      else case ParsePacket data of
             None \<Rightarrow> (c, [])
           | Some pkt \<Rightarrow>
               (let h = p_Header pkt
                in if h_Version h \<noteq> 1 then (c, [])
                   else if h_Type h = StData then (case receiveData ts pkt c of (c', ack) \<Rightarrow> (c', [ack]))
                   else if h_Type h = StState then (handleAck fma now h c, [])
                   else if h_Type h = StFin \<or> h_Type h = StReset then (c\<lparr>c_closed := True\<rparr>, [])
                   else (c, [])))"

text \<open>One entry of \<open>sendBuf\<close> at a tick of \<open>retransmitLoop\<close>; the datagrams sent are collected.\<close>

definition retransmitOne :: "int \<Rightarrow> Conn \<times> bytes list \<Rightarrow> 16 word \<Rightarrow> Conn \<times> bytes list" where
  "retransmitOne now cs seq =
     (let (c, out) = cs
      in case map_of (c_sendBuf c) seq of
           None \<Rightarrow> (c, out)
         | Some sp \<Rightarrow>
             if now - sp_sentAt sp < rto then (c, out)
             else if sp_retries sp \<ge> maxRetransmits
             then (c\<lparr>c_sendBuf := AList.delete seq (c_sendBuf c), c_ledbat := OnLoss (c_ledbat c)\<rparr>, out)
             else (c\<lparr>c_sendBuf := AList.update seq (sp\<lparr>sp_sentAt := now, sp_retries := sp_retries sp + 1\<rparr>) (c_sendBuf c),
                     c_ledbat := OnTimeout (c_ledbat c)\<rparr>, out @ [sp_raw sp]))"

definition retransmitTick :: "(16 word \<Rightarrow> nat) \<Rightarrow> int \<Rightarrow> Conn \<Rightarrow> Conn \<times> bytes list" where
  "retransmitTick \<omega> now c = foldl (retransmitOne now) (c, []) (range_order \<omega> (map fst (c_sendBuf c)))"

section \<open>Listener and dialling\<close>

definition maxConns :: nat where "maxConns = 4096"
definition acceptChCap :: nat where "acceptChCap = 64"

text \<open>Connections are shared with the callers of \<open>Accept\<close>: \<open>l_store\<close> holds them, the map and the queue refer to it.\<close>

record Listener =
  l_conns :: "(16 word \<times> nat) list"
  l_store :: "Conn list"
  l_acceptCh :: "nat list"

definition newListener :: Listener where
  "newListener = \<lparr>l_conns = [], l_store = [], l_acceptCh = []\<rparr>"

definition Accept :: "Listener \<Rightarrow> (Listener \<times> nat) option" where
  "Accept l = (case l_acceptCh l of [] \<Rightarrow> None | r # rs \<Rightarrow> Some (l\<lparr>l_acceptCh := rs\<rparr>, r))"

definition routeTo :: "Listener \<Rightarrow> 16 word \<Rightarrow> nat option" where
  "routeTo l connID =
     (case map_of (l_conns l) connID of Some r \<Rightarrow> Some r | None \<Rightarrow> map_of (l_conns l) (connID - 1))"

definition listenerHandle :: "bool \<Rightarrow> int \<Rightarrow> 32 word \<Rightarrow> Packet \<Rightarrow> Listener \<Rightarrow> Listener \<times> (nat \<times> bytes) list" where
  "listenerHandle fma now ts pkt l =
     (let h = p_Header pkt
      in if h_Type h = StSyn
         then (if length (l_conns l) \<ge> maxConns then (l, [])
               else if length (l_acceptCh l) \<ge> acceptChCap then (l, [])
               else (let c = setFirstExpected (h_SeqNr h + 1) (newConn now (h_ConnID h + 1) 1 (h_SeqNr h));
                         r = length (l_store l)
                     in (l\<lparr>l_conns := AList.update (h_ConnID h) r (l_conns l), l_store := l_store l @ [c],
                           l_acceptCh := l_acceptCh l @ [r]\<rparr>, [(r, sendAckFor ts 0 c)])))
         else case routeTo l (h_ConnID h) of
                None \<Rightarrow> (l, [])
              | Some r \<Rightarrow>
                  if h_Type h = StData
                  then (case receiveData ts pkt (l_store l ! r) of
                          (c, ack) \<Rightarrow> (l\<lparr>l_store := (l_store l)[r := c]\<rparr>, [(r, ack)]))
                  else if h_Type h = StState
                  then (l\<lparr>l_store := (l_store l)[r := handleAck fma now h (l_store l ! r)]\<rparr>, [])
                  else if h_Type h = StFin \<or> h_Type h = StReset
                  then (l\<lparr>l_store := (l_store l)[r := (l_store l ! r)\<lparr>c_closed := True\<rparr>],
                          l_conns := AList.delete (h_ConnID h - 1) (AList.delete (h_ConnID h) (l_conns l))\<rparr>, [])
                  else (l, []))"

text \<open>One packet of the listener's \<open>readLoop\<close>.\<close>

definition listenerPacket :: "bool \<Rightarrow> int \<Rightarrow> 32 word \<Rightarrow> bytes \<Rightarrow> Listener \<Rightarrow> Listener \<times> (nat \<times> bytes) list" where
  "listenerPacket fma now ts data l =
     (if length data < headerSize then (l, [])
      else case ParsePacket data of
             None \<Rightarrow> (l, [])
           | Some pkt \<Rightarrow> if h_Version (p_Header pkt) \<noteq> 1 then (l, []) else listenerHandle fma now ts pkt l)"

definition maxSynRetries :: nat where "maxSynRetries = 4"

definition synPacket :: "16 word \<Rightarrow> 32 word \<Rightarrow> Packet" where
  "synPacket connID ts =
     \<lparr>p_Header = \<lparr>h_Type = StSyn, h_Version = 1, h_Extension = 0, h_ConnID = connID, h_Timestamp = ts, h_TSDiff = 0,
                  h_WndSize = 256 * of_nat mss, h_SeqNr = 1, h_AckNr = 0\<rparr>,
      p_Payload = []\<rparr>"

text \<open>
  The inner loop of \<open>DialTimeout\<close> over the datagrams received before the deadline of one attempt,
  each with whether it came from the dialled address.
\<close>

primrec awaitSynAck :: "16 word \<Rightarrow> Conn \<Rightarrow> (bytes \<times> bool) list \<Rightarrow> Conn option" where
  "awaitSynAck connID c [] = None"
| "awaitSynAck connID c (d # ds) =
     (if length (fst d) < headerSize then awaitSynAck connID c ds
      else case ParsePacket (fst d) of
             None \<Rightarrow> awaitSynAck connID c ds
           | Some pkt \<Rightarrow>
               (let h = p_Header pkt
                in if h_Version h \<noteq> 1 \<or> h_Type h \<noteq> StState \<or> \<not> snd d \<or> h_ConnID h \<noteq> connID + 1
                   then awaitSynAck connID c ds
                   else Some (updateRemoteWnd (h_WndSize h) (setFirstExpected (h_SeqNr h + 1) (c\<lparr>c_ackNr := h_SeqNr h\<rparr>)))))"

text \<open>\<open>DialTimeout\<close> with the datagrams of each attempt that the deadline leaves time for.\<close>

primrec dialAttempts :: "nat \<Rightarrow> 16 word \<Rightarrow> Conn \<Rightarrow> (bytes \<times> bool) list list \<Rightarrow> Conn option" where
  "dialAttempts attempt connID c [] = None"
| "dialAttempts attempt connID c (a # as) =
     (if attempt \<ge> maxSynRetries then None
      else case awaitSynAck connID c a of
             Some c' \<Rightarrow> Some c'
           | None \<Rightarrow> dialAttempts (attempt + 1) connID c as)"

definition DialTimeout :: "int \<Rightarrow> 16 word \<Rightarrow> (bytes \<times> bool) list list \<Rightarrow> Conn option" where
  "DialTimeout now connID attempts = dialAttempts 0 connID (newConn now (connID + 1) 1 0) attempts"

section \<open>Congestion control lemmas\<close>

definition ledbat_ok :: "LEDBAT \<Rightarrow> bool" where
  "ledbat_ok l \<longleftrightarrow> minCwnd \<le> lb_cwnd l \<and> lb_cwnd l \<le> maxCwnd \<and> 0 \<le> lb_flightSize l \<and>
     length (lb_buckets l) = baseDelayBuckets \<and> lb_currentBkt l < baseDelayBuckets"

lemmas ledbat_consts = minCwnd_def maxCwnd_def mss_def baseDelayBuckets_def

lemma NewLEDBAT_ok: "ledbat_ok (NewLEDBAT now)"
  by (simp add: ledbat_ok_def NewLEDBAT_def ledbat_consts)

lemma newCwnd_bounds: "minCwnd \<le> newCwnd fma w q a" "newCwnd fma w q a \<le> maxCwnd"
  by (simp_all add: newCwnd_def Let_def minCwnd_def maxCwnd_def)

lemma rotateBuckets_ok: "ledbat_ok l \<Longrightarrow> ledbat_ok (rotateBuckets now l)"
  by (simp add: ledbat_ok_def rotateBuckets_def Let_def baseDelayBuckets_def)

lemma OnAck_ok: "ledbat_ok l \<Longrightarrow> ledbat_ok (OnAck fma now delay n l)"
  using rotateBuckets_ok [of l now] newCwnd_bounds by (auto simp: OnAck_def Let_def ledbat_ok_def)

text \<open>The constants of the window are numbers of 53 bits.\<close>

lemma round_consts [simp]:
  "float64_round minCwnd = minCwnd" "float64_round maxCwnd = maxCwnd" "float64_round (real mss) = real mss"
  "float64_round (real mss * 2) = real mss * 2" "float64_round (of_int targetDelay) = of_int targetDelay"
  using round_int [of 150] round_int [of 1048576] round_int [of 1400] round_int [of 2800] round_int [of targetDelay]
  by (simp_all add: minCwnd_def maxCwnd_def mss_def targetDelay_def)

lemma OnLoss_ok: "ledbat_ok l \<Longrightarrow> ledbat_ok (OnLoss l)"
proof -
  assume l: "ledbat_ok l"
  then have "float64_round (lb_cwnd l / 2) \<le> float64_round maxCwnd"
    by (intro f64.mono) (simp add: ledbat_ok_def minCwnd_def maxCwnd_def)
  then have "float64_round (lb_cwnd l / 2) \<le> maxCwnd" by simp
  with l show ?thesis by (auto simp: OnLoss_def ledbat_ok_def Let_def minCwnd_def maxCwnd_def)
qed

lemma OnTimeout_ok: "ledbat_ok l \<Longrightarrow> ledbat_ok (OnTimeout l)"
  by (simp add: OnTimeout_def ledbat_ok_def ledbat_consts)

lemma OnSend_ok: "ledbat_ok l \<Longrightarrow> 0 \<le> n \<Longrightarrow> ledbat_ok (OnSend n l)"
  by (simp add: OnSend_def ledbat_ok_def)

text \<open>The window grows while the queuing delay is below the target and shrinks when it is above.\<close>

lemma newCwnd_direction:
  assumes "0 \<le> a" "minCwnd \<le> w" "w \<le> maxCwnd" "float64_round w = w"
  shows "q \<le> targetDelay \<Longrightarrow> w \<le> newCwnd fma w q a" "targetDelay \<le> q \<Longrightarrow> newCwnd fma w q a \<le> w"
proof -
  define off where "off = float64_round (float64_round (of_int (targetDelay - q)) / of_int targetDelay)"
  define inc where "inc = float64_round (float64_round (float64_round (of_int a) * off) / w) * real mss"
  define g where "g = (if fma then inc else float64_round inc)"
  have w: "0 < w" using assms(2) by (simp add: minCwnd_def)
  have a: "0 \<le> float64_round (of_int a)" using assms(1) by (intro f64.sign) simp
  have new: "newCwnd fma w q a =
      (let c2 = (if float64_round (w + g) < minCwnd then minCwnd else float64_round (w + g)) in if c2 > maxCwnd then maxCwnd else c2)"
    by (simp add: newCwnd_def off_def inc_def g_def Let_def)
  have t: "0 < (of_int targetDelay :: real)" by (simp add: targetDelay_def)
  show "w \<le> newCwnd fma w q a" if "q \<le> targetDelay"
  proof -
    have "0 \<le> off" unfolding off_def using that t by (intro f64.sign(1) divide_nonneg_pos) simp_all
    then have "0 \<le> float64_round (float64_round (of_int a) * off)" by (rule f64.sign(1) [OF mult_nonneg_nonneg [OF a]])
    then have "0 \<le> float64_round (float64_round (float64_round (of_int a) * off) / w)" by (rule f64.sign(1) [OF divide_nonneg_pos [OF _ w]])
    then have "0 \<le> inc" by (simp add: inc_def)
    then have "0 \<le> g" by (simp add: g_def f64.sign)
    then have "w \<le> float64_round (w + g)" using f64.mono [of w "w + g"] assms(4) by simp
    then show ?thesis using assms(2,3) by (auto simp: new Let_def)
  qed
  show "newCwnd fma w q a \<le> w" if "targetDelay \<le> q"
  proof -
    have "off \<le> 0" unfolding off_def using that t by (intro f64.sign(2) divide_nonpos_pos) simp_all
    then have "float64_round (float64_round (of_int a) * off) \<le> 0" by (rule f64.sign(2) [OF mult_nonneg_nonpos [OF a]])
    then have "float64_round (float64_round (float64_round (of_int a) * off) / w) \<le> 0" by (rule f64.sign(2) [OF divide_nonpos_pos [OF _ w]])
    then have "inc \<le> 0" by (simp add: inc_def mult_nonpos_nonneg)
    then have "g \<le> 0" by (simp add: g_def f64.sign)
    then have "float64_round (w + g) \<le> w" using f64.mono [of "w + g" w] assms(4) by simp
    then show ?thesis using assms(2,3) by (auto simp: new Let_def)
  qed
qed

text \<open>The base delay is a lower bound of the delays in the buckets, and one of them if it was set.\<close>

lemma base_fold:
  "foldl (\<lambda>m d. if d < m then d else m) m0 ds \<le> m0 \<and> (\<forall>d\<in>set ds. foldl (\<lambda>m d. if d < m then d else m) m0 ds \<le> d) \<and>
   foldl (\<lambda>m d. if d < m then d else m) m0 ds \<in> insert m0 (set ds)" for m0 :: int
proof (induction ds arbitrary: m0)
  case (Cons d ds)
  show ?case using Cons [of "if d < m0 then d else m0"] by (auto split: if_splits)
qed simp

lemma getBaseDelay_min: "\<forall>d\<in>set (lb_buckets l). getBaseDelay l \<le> d" "getBaseDelay l \<in> insert max_int64 (set (lb_buckets l))"
  using base_fold [of max_int64 "lb_buckets l"] by (simp_all add: getBaseDelay_def)

section \<open>Reassembly\<close>

text \<open>
  The stream of packets is the list \<open>P\<close> of their payloads; packet \<open>i\<close> has the sequence number
  \<open>s0 + i\<close>, which wraps around. \<open>held\<close>: the reorder buffer holds packets from \<open>k\<close> on.
\<close>

definition held :: "16 word \<Rightarrow> bytes list \<Rightarrow> nat \<Rightarrow> (16 word \<times> bytes) list \<Rightarrow> bool" where
  "held s0 P k r \<longleftrightarrow> distinct (map fst r) \<and>
     (\<forall>(q, p)\<in>set r. \<exists>i. k \<le> i \<and> i < k + 32768 \<and> i < length P \<and> q = s0 + of_nat i \<and> p = P ! i)"

lemma heldD:
  assumes "held s0 P k r" "(q, p) \<in> set r"
  obtains i where "k \<le> i" "i < k + 32768" "i < length P" "q = s0 + of_nat i" "p = P ! i"
  using assms unfolding held_def by fast

lemma heldI:
  assumes "distinct (map fst r)"
    "\<And>q p. (q, p) \<in> set r \<Longrightarrow> \<exists>i. k \<le> i \<and> i < k + 32768 \<and> i < length P \<and> q = s0 + of_nat i \<and> p = P ! i"
  shows "held s0 P k r"
  using assms unfolding held_def by blast

text \<open>An entry under another number than that of packet \<open>k\<close> is a later packet.\<close>

lemma held_later:
  assumes "held s0 P k r" "distinct (map fst r')" "set r' \<subseteq> {e \<in> set r. fst e \<noteq> s0 + of_nat k}"
  shows "held s0 P (Suc k) r'"
proof (rule heldI [OF assms(2)])
  fix q p assume "(q, p) \<in> set r'"
  then have r: "(q, p) \<in> set r" "q \<noteq> s0 + of_nat k" using assms(3) by auto
  obtain i where i: "k \<le> i" "i < k + 32768" "i < length P" "q = s0 + of_nat i" "p = P ! i" using heldD [OF assms(1) r(1)] .
  then have "i \<noteq> k" using r(2) by auto
  then show "\<exists>i. Suc k \<le> i \<and> i < Suc k + 32768 \<and> i < length P \<and> q = s0 + of_nat i \<and> p = P ! i"
    using i by (intro exI [of _ i]) simp
qed

lemma flush_stream:
  assumes "held s0 P k r" "\<forall>p\<in>set P. p \<noteq> []" "flushReorder r (s0 + of_nat k) = (r', n', ds)" "k \<le> length P"
  shows "\<exists>k'\<ge>k. k' \<le> length P \<and> n' = s0 + of_nat k' \<and> ds = take (k' - k) (drop k P) \<and>
    held s0 P (Suc k') r' \<and> k' + length r' \<le> k + length r"
  using assms(1,3,4)
proof (induction "length r" arbitrary: r k r' ds rule: less_induct)
  case less
  let ?n = "s0 + of_nat k"
  have d: "distinct (map fst r)" using less.prems(1) by (simp add: held_def)
  show ?case
  proof (cases "map_of r ?n")
    case None
    then have "r' = r \<and> n' = ?n \<and> ds = []" using less.prems(2) by (simp add: flushReorder.simps)
    moreover have "held s0 P (Suc k) r"
    proof (rule held_later [OF less.prems(1) d])
      show "set r \<subseteq> {e \<in> set r. fst e \<noteq> ?n}" using None unfolding map_of_eq_None_iff by force
    qed
    ultimately show ?thesis using less.prems(3) by (intro exI [of _ k]) simp
  next
    case (Some p)
    let ?r = "AList.delete ?n r"
    obtain i where i: "k \<le> i" "i < k + 32768" "i < length P" "?n = s0 + of_nat i" "p = P ! i"
      using heldD [OF less.prems(1) map_of_SomeD [OF Some]] .
    have "i = k" using index_inj [of k i s0] i by simp
    then have k: "k < length P" "p = P ! k" using i by simp_all
    obtain r1 n1 ds1 where f: "flushReorder ?r (?n + 1) = (r1, n1, ds1)" by (cases "flushReorder ?r (?n + 1)")
    have ne: "p \<noteq> []" using assms(2) k by simp
    have eq: "r' = r1" "n' = n1" "ds = p # ds1"
      using less.prems(2) Some f ne by (simp_all add: flushReorder.simps [of r])
    have len: "length ?r < length r" by (rule length_delete_less [OF Some])
    have h: "held s0 P (Suc k) ?r"
    proof (rule held_later [OF less.prems(1)])
      show "distinct (map fst ?r)" using d by (rule distinct_delete)
      show "set ?r \<subseteq> {e \<in> set r. fst e \<noteq> ?n}" by (auto simp: AList.delete_eq)
    qed
    have n: "?n + 1 = s0 + of_nat (Suc k)" by simp
    obtain k' where k': "k' \<ge> Suc k" "k' \<le> length P" "n1 = s0 + of_nat k'" "ds1 = take (k' - Suc k) (drop (Suc k) P)"
      "held s0 P (Suc k') r1" "k' + length r1 \<le> Suc k + length ?r"
      using less.hyps [OF len h, of r1 ds1] f k(1) eq(2) unfolding n by auto
    have "drop k P = p # drop (Suc k) P" using k by (simp add: Cons_nth_drop_Suc)
    moreover have "k' - k = Suc (k' - Suc k)" using k'(1) by simp
    ultimately have "ds = take (k' - k) (drop k P)" using eq(3) k'(4) by simp
    then show ?thesis using k' eq len by (intro exI [of _ k']) simp
  qed
qed

definition rcv_inv :: "16 word \<Rightarrow> bytes list \<Rightarrow> nat \<Rightarrow> Conn \<Rightarrow> bool" where
  "rcv_inv s0 P k c \<longleftrightarrow> c_recvInited c \<and> c_nextExpected c = s0 + of_nat k \<and> k \<le> length P \<and>
     held s0 P (Suc k) (c_reorderBuf c) \<and> length (c_reorderBuf c) \<le> reorderBufMax"

lemma update_keys:
  "set (AList.update k v r) \<subseteq> insert (k, v) (set r)" "length (AList.update k v r) \<le> Suc (length r)"
  by (induction r) auto

lemma deliver_stream:
  assumes "rcv_inv s0 P k c" "\<forall>p\<in>set P. p \<noteq> []" "i < length P" "int k - 32768 \<le> int i" "int i < int k + 32768"
    and "deliverInOrder (s0 + of_nat i) (P ! i) c = (c', ds)"
  shows "\<exists>k'\<ge>k. k' \<le> k + 65 \<and> rcv_inv s0 P k' c' \<and> ds = take (k' - k) (drop k P) \<and> (i = k \<longrightarrow> k < k') \<and>
    c' = c\<lparr>c_reorderBuf := c_reorderBuf c', c_nextExpected := c_nextExpected c', c_ackNr := c_ackNr c'\<rparr>"
proof -
  have init: "c_recvInited c" "c_nextExpected c = s0 + of_nat k" "k \<le> length P" "held s0 P (Suc k) (c_reorderBuf c)"
    "length (c_reorderBuf c) \<le> 64"
    using assms(1) by (simp_all add: rcv_inv_def reorderBufMax_def)
  have pi: "P ! i \<noteq> []" using assms(2,3) by simp
  consider "i = k" | "k < i" | "i < k" by linarith
  then show ?thesis
  proof cases
    case 1
    obtain r n ds1 where f: "flushReorder (c_reorderBuf c) (s0 + of_nat (Suc k)) = (r, n, ds1)"
      by (cases "flushReorder (c_reorderBuf c) (s0 + of_nat (Suc k))")
    have n: "s0 + of_nat k + 1 = s0 + of_nat (Suc k)" by simp
    have f': "flushReorder (c_reorderBuf c) (c_nextExpected c + 1) = (r, n, ds1)" unfolding init(2) n by (rule f)
    have e: "s0 + of_nat i = c_nextExpected c" unfolding init(2) 1 ..
    have c': "c' = c\<lparr>c_reorderBuf := r, c_nextExpected := n, c_ackNr := n - 1\<rparr>" "ds = P ! k # ds1"
      using assms(6) pi unfolding deliverInOrder_def e by (auto simp: init(1) f' Let_def 1)
    obtain k' where k': "k' \<ge> Suc k" "k' \<le> length P" "n = s0 + of_nat k'" "ds1 = take (k' - Suc k) (drop (Suc k) P)"
      "held s0 P (Suc k') r" "k' + length r \<le> Suc k + length (c_reorderBuf c)"
      using flush_stream [OF init(4) assms(2) f] assms(3) 1 by auto
    have "drop k P = P ! k # drop (Suc k) P" using assms(3) 1 by (simp add: Cons_nth_drop_Suc)
    moreover have "k' - k = Suc (k' - Suc k)" using k'(1) by simp
    ultimately have "ds = take (k' - k) (drop k P)" using c'(2) k'(4) by simp
    moreover have "rcv_inv s0 P k' c'" using k' init by (simp add: rcv_inv_def c' reorderBufMax_def)
    ultimately show ?thesis using k' init(5) by (intro exI [of _ k']) (simp add: c')
  next
    case 2
    have "s0 + of_nat i \<noteq> s0 + of_nat k" using index_inj [OF assms(4,5), of s0] 2 by simp
    moreover have "wrappingGT (s0 + of_nat i) (s0 + of_nat k)" using wrappingGT_index [OF assms(4,5)] 2 by simp
    ultimately have e: "ds = []"
      "c' = (if length (c_reorderBuf c) < reorderBufMax
             then c\<lparr>c_reorderBuf := AList.update (s0 + of_nat i) (P ! i) (c_reorderBuf c)\<rparr> else c)"
      using assms(6) init by (auto simp: deliverInOrder_def Let_def split: if_splits)
    have "held s0 P (Suc k) (AList.update (s0 + of_nat i) (P ! i) (c_reorderBuf c))"
    proof (rule heldI)
      show "distinct (map fst (AList.update (s0 + of_nat i) (P ! i) (c_reorderBuf c)))"
        using init(4) by (simp add: held_def distinct_update)
      fix q p assume "(q, p) \<in> set (AList.update (s0 + of_nat i) (P ! i) (c_reorderBuf c))"
      then consider "q = s0 + of_nat i" "p = P ! i" | "(q, p) \<in> set (c_reorderBuf c)" using update_keys(1) by fastforce
      then show "\<exists>j. Suc k \<le> j \<and> j < Suc k + 32768 \<and> j < length P \<and> q = s0 + of_nat j \<and> p = P ! j"
      proof cases
        case 1
        then show ?thesis using 2 assms(3,5) by (intro exI [of _ i]) simp
      next
        case 2
        then show ?thesis using heldD [OF init(4) 2] by metis
      qed
    qed
    moreover have "length (AList.update (s0 + of_nat i) (P ! i) (c_reorderBuf c)) \<le> Suc (length (c_reorderBuf c))"
      by (rule update_keys(2))
    ultimately have "rcv_inv s0 P k c'" using init assms(1) by (auto simp: e(2) rcv_inv_def reorderBufMax_def)
    then show ?thesis using 2 e by (intro exI [of _ k]) simp
  next
    case 3
    have "s0 + of_nat i \<noteq> s0 + of_nat k" using index_inj [OF assms(4,5), of s0] 3 by simp
    moreover have "\<not> wrappingGT (s0 + of_nat i) (s0 + of_nat k)" using wrappingGT_index [OF assms(4,5)] 3 by simp
    ultimately have "c' = c" "ds = []" using assms(6) init by (simp_all add: deliverInOrder_def Let_def)
    then show ?thesis using assms(1) 3 by (intro exI [of _ k]) simp
  qed
qed

end
