(* ===== verification/Utp_Session.thy ===== *)
theory Utp_Session
  imports Utp_Conn Step_Systems
begin

text \<open>
  Runs of a uTP connection over an unreliable network. The steps are the critical sections of
  \<open>Utp_Conn\<close>: those of a \<open>Write\<close>, of the handling of acknowledgements and of a retransmission interleave in
  any order with the arrival of packets, reading and closing.
\<close>

section \<open>The invariant of the congestion control\<close>













section \<open>A connection over an unreliable network\<close>

text \<open>
  One direction of a connection. \<open>y_net\<close> holds the data packets built so far, packet \<open>i\<close> at position \<open>i\<close>, and \<open>y_sent\<close>
  the positions of those the socket took at least once. The network may lose, repeat and reorder them: any of
  them may arrive at any time, as long as it is less than \<open>2 ^ 15\<close> numbers away from the one the
  receiver expects. \<open>y_todo\<close> is what the sender still has to write, \<open>y_read\<close> what the receiver has read, \<open>y_taken\<close>
  counts the packets received in order, and \<open>y_pc\<close> is where the writer is in \<open>Write\<close>, with the values it has
  read so far.

  There is one writer, which stops for good when the socket refuses a packet or when the connection
  is closed; it does not close the connection while it is writing. The sender may receive
  acknowledgements with any content whatsoever. The opposite direction of the connection changes only
  what \<open>same_sending\<close> and \<open>same_receiving\<close> leave open.
\<close>

datatype writeState =
    WIdle
  | WCwnd int
  | WFlight int int
  | WChunk int
  | WNumbered "16 word" bytes nat
  | WBuffered "16 word" bytes nat
  | WSent nat
  | WStopped

record utp_session =
  y_snd :: Conn
  y_rcv :: Conn
  y_pc :: writeState
  y_todo :: bytes
  y_net :: "bytes list"
  y_sent :: "nat set"
  y_read :: bytes
  y_taken :: nat

definition in_window :: "nat \<Rightarrow> nat \<Rightarrow> bool" where
  "in_window k i \<longleftrightarrow> int k - 32768 \<le> int i \<and> int i < int k + 32768"

definition same_sending :: "Conn \<Rightarrow> Conn \<Rightarrow> bool" where
  "same_sending c c' \<longleftrightarrow> c_seqNr c' = c_seqNr c \<and> c_sendBuf c' = c_sendBuf c \<and> c_ledbat c' = c_ledbat c"

definition same_receiving :: "Conn \<Rightarrow> Conn \<Rightarrow> bool" where
  "same_receiving c c' \<longleftrightarrow> c_recvInited c' = c_recvInited c \<and> c_nextExpected c' = c_nextExpected c \<and>
     c_reorderBuf c' = c_reorderBuf c \<and> c_recvCh c' = c_recvCh c \<and> c_recvBuf c' = c_recvBuf c \<and> c_closed c' = c_closed c"

definition positions :: "bytes list \<Rightarrow> bytes list \<Rightarrow> nat set" where
  "positions net out = {i. i < length net \<and> net ! i \<in> set out}"

inductive utp_step :: "bool \<Rightarrow> utp_session \<Rightarrow> utp_session \<Rightarrow> bool" for fma where
  read_cwnd: "y_pc s = WIdle \<Longrightarrow> y_todo s \<noteq> [] \<Longrightarrow>
    utp_step fma s (s\<lparr>y_pc := WCwnd (CanSend (c_ledbat (y_snd s)))\<rparr>)"
| read_flight: "y_pc s = WCwnd a \<Longrightarrow> utp_step fma s (s\<lparr>y_pc := WFlight a (FlightSize (c_ledbat (y_snd s)))\<rparr>)"
| read_wnd: "y_pc s = WFlight a f \<Longrightarrow> n = effectiveCanSend a f (c_remoteWnd (y_snd s)) \<Longrightarrow>
    utp_step fma s (s\<lparr>y_pc := (if n \<le> 0 then WIdle else WChunk n)\<rparr>)"
| number: "y_pc s = WChunk n \<Longrightarrow> y_todo s = b @ later \<Longrightarrow> b \<noteq> [] \<Longrightarrow> k = nat (chunkSize n (length b)) \<Longrightarrow>
    numberPacket ts (take k b) (y_snd s) = (c, seq, raw) \<Longrightarrow>
    utp_step fma s (s\<lparr>y_snd := c, y_pc := WNumbered seq raw k, y_net := y_net s @ [raw], y_todo := drop k b @ later\<rparr>)"
| buffer: "y_pc s = WNumbered seq raw k \<Longrightarrow>
    utp_step fma s (s\<lparr>y_snd := bufferPacket now seq raw (y_snd s), y_pc := WBuffered seq raw k\<rparr>)"
| socket: "y_pc s = WBuffered seq raw k \<Longrightarrow>
    utp_step fma s (s\<lparr>y_pc := WSent k, y_sent := y_sent s \<union> positions (y_net s) [raw]\<rparr>)"
| refused: "y_pc s = WBuffered seq raw k \<Longrightarrow>
    utp_step fma s (s\<lparr>y_snd := unbufferPacket seq (y_snd s), y_pc := WStopped\<rparr>)"
| counted: "y_pc s = WSent k \<Longrightarrow> utp_step fma s (s\<lparr>y_snd := countSent k (y_snd s), y_pc := WIdle\<rparr>)"
| arrive: "i \<in> y_sent s \<Longrightarrow> in_window (y_taken s) i \<Longrightarrow> \<not> c_closed (y_rcv s) \<Longrightarrow>
    clientPacket fma now ts (y_net s ! i) (y_rcv s) = (c, out) \<Longrightarrow>
    utp_step fma s (s\<lparr>y_rcv := c, y_taken := y_taken s + unat (c_nextExpected c - c_nextExpected (y_rcv s))\<rparr>)"
| ack_wnd: "utp_step fma s (s\<lparr>y_snd := updateRemoteWnd w (y_snd s)\<rparr>)"
| ack_sample: "utp_step fma s (s\<lparr>y_snd := ackSample fma now h (y_snd s)\<rparr>)"
| ack_prune: "utp_step fma s (s\<lparr>y_snd := ackPrune h (y_snd s)\<rparr>)"
| ack_fin: "utp_step fma s (s\<lparr>y_snd := ackFin h (y_snd s)\<rparr>)"
| retransmit: "retransmitOne now (y_snd s, []) q = (c, out) \<Longrightarrow>
    utp_step fma s (s\<lparr>y_snd := c, y_sent := y_sent s \<union> positions (y_net s) out\<rparr>)"
| recv: "Conn_Read preferData n (y_rcv s) = (c, Data d) \<Longrightarrow> utp_step fma s (s\<lparr>y_rcv := c, y_read := y_read s @ d\<rparr>)"
| close: "y_pc s = WIdle \<Longrightarrow> Conn_Close ts (y_snd s) = (c, fin) \<Longrightarrow> utp_step fma s (s\<lparr>y_snd := c, y_pc := WStopped\<rparr>)"
| fin_arrives: "utp_step fma s (s\<lparr>y_rcv := (y_rcv s)\<lparr>c_closed := True\<rparr>\<rparr>)"
| opposite_snd: "same_sending (y_snd s) c \<Longrightarrow> utp_step fma s (s\<lparr>y_snd := c\<rparr>)"
| opposite_rcv: "same_receiving (y_rcv s) c \<Longrightarrow> utp_step fma s (s\<lparr>y_rcv := c\<rparr>)"

inductive_cases utp_stepE: "utp_step fma s s'"


definition data_packet :: "bytes \<Rightarrow> 16 word \<Rightarrow> bytes \<Rightarrow> bool" where
  "data_packet raw seq payload \<longleftrightarrow> headerSize \<le> length raw \<and>
     (\<exists>pkt. ParsePacket raw = Some pkt \<and> h_Version (p_Header pkt) = 1 \<and> h_Type (p_Header pkt) = StData \<and>
        h_SeqNr (p_Header pkt) = seq \<and> p_Payload pkt = payload)"






lemma header_ok_1: "header_ok h" if "h_Type h \<in> {StData, StState, StFin, StSyn}" "h_Version h = 1"
  using that by (auto simp: header_ok_def packet_types)

lemma length_Packet_Marshal: "headerSize \<le> length (Packet_Marshal p)"
  by (simp add: Packet_Marshal_def headerSize_def Let_def)

section \<open>The sender's steps\<close>

lemma numberPacket_packet:
  assumes "numberPacket ts payload c = (c', seq, raw)"
  shows "data_packet raw (c_seqNr c + 1) payload" "c' = c\<lparr>c_seqNr := c_seqNr c + 1\<rparr>" "seq = c_seqNr c + 1"
proof -
  define pkt where "pkt = dataPacket (c\<lparr>c_seqNr := c_seqNr c + 1\<rparr>) ts (c_seqNr c + 1) payload"
  have e: "raw = Packet_Marshal pkt" "c' = c\<lparr>c_seqNr := c_seqNr c + 1\<rparr>" "seq = c_seqNr c + 1"
    using assms by (auto simp: numberPacket_def Let_def pkt_def)
  have "header_ok (p_Header pkt)" by (rule header_ok_1) (simp_all add: pkt_def dataPacket_def)
  then show "data_packet raw (c_seqNr c + 1) payload"
    using ParsePacket_Marshal [of pkt] length_Packet_Marshal by (simp add: data_packet_def e(1)) (simp add: pkt_def dataPacket_def)
  show "c' = c\<lparr>c_seqNr := c_seqNr c + 1\<rparr>" "seq = c_seqNr c + 1" by (rule e)+
qed











section \<open>The receiver's steps\<close>

lemma rcv_inv_cong:
  "c_recvInited c' = c_recvInited c \<Longrightarrow> c_nextExpected c' = c_nextExpected c \<Longrightarrow> c_reorderBuf c' = c_reorderBuf c \<Longrightarrow>
     rcv_inv s0 P k c' = rcv_inv s0 P k c"
  by (simp add: rcv_inv_def)






section \<open>The session's invariant\<close>













section \<open>Opening a connection\<close>

text \<open>
  A SYN accepted by the listener and its acknowledgement make two connections that agree: each expects
  the number after the other's last one, and they use the same connection ID.
\<close>

lemma handshake_agrees:
  assumes "listenerPacket fma now ts (Packet_Marshal (synPacket connID tsc)) l = (l', [(r, ack)])"
    and "attempts = replicate j [] @ [before @ [(ack, True)]] @ rest" "j < 4"
    and "awaitSynAck connID (newConn nowc (connID + 1) 1 0) before = None"
  shows "\<exists>c. DialTimeout nowc connID attempts = Some c \<and> r < length (l_store l') \<and>
    c_nextExpected c = c_seqNr (l_store l' ! r) + 1 \<and> c_nextExpected (l_store l' ! r) = c_seqNr c + 1 \<and>
    c_recvInited c \<and> c_recvInited (l_store l' ! r) \<and> c_connID c = c_connID (l_store l' ! r)"
proof -
  define srv where "srv = setFirstExpected (1 + 1) (newConn now (connID + 1) 1 1)"
  have "header_ok (p_Header (synPacket connID tsc))" by (rule header_ok_1) (simp_all add: synPacket_def)
  then have "ParsePacket (Packet_Marshal (synPacket connID tsc)) = Some (synPacket connID tsc)" by (rule ParsePacket_Marshal)
  then have "listenerHandle fma now ts (synPacket connID tsc) l = (l', [(r, ack)])"
    using assms(1) length_Packet_Marshal [of "synPacket connID tsc"] by (simp add: listenerPacket_def synPacket_def)
  then have l': "r = length (l_store l)" "l_store l' = l_store l @ [srv]" "ack = sendAckFor ts 0 srv"
    by (auto simp: listenerHandle_def synPacket_def srv_def Let_def split: if_splits)
  define pkt where "pkt = \<lparr>p_Header = \<lparr>h_Type = StState, h_Version = 1, h_Extension = 0, h_ConnID = connID + 1, h_Timestamp = ts,
      h_TSDiff = 0, h_WndSize = window srv, h_SeqNr = 1, h_AckNr = 1\<rparr>, p_Payload = []\<rparr>"
  have ack: "ack = Packet_Marshal pkt"
    by (simp add: l'(3) sendAckFor_def pkt_def srv_def setFirstExpected_def newConn_def)
  have "header_ok (p_Header pkt)" by (rule header_ok_1) (simp_all add: pkt_def)
  then have P: "ParsePacket ack = Some pkt" "\<not> length ack < headerSize"
    using ParsePacket_Marshal [of pkt] length_Packet_Marshal [of pkt] by (simp_all add: ack)
  have skip: "awaitSynAck connID c (bs @ [(ack, True)]) = awaitSynAck connID c [(ack, True)]" if "awaitSynAck connID c bs = None" for c bs
    using that by (induction bs) (auto simp: Let_def split: if_splits option.splits)
  define c where "c = updateRemoteWnd (h_WndSize (p_Header pkt)) (setFirstExpected (1 + 1) ((newConn nowc (connID + 1) 1 0)\<lparr>c_ackNr := 1\<rparr>))"
  have got: "awaitSynAck connID (newConn nowc (connID + 1) 1 0) (before @ [(ack, True)]) = Some c"
    unfolding skip [OF assms(4)] using P by (simp add: pkt_def c_def)
  have "dialAttempts m connID c0 (replicate j [] @ [before @ [(ack, True)]] @ rest) = Some c"
    if "m + j < 4" "awaitSynAck connID c0 (before @ [(ack, True)]) = Some c" for m c0
    using that by (induction j arbitrary: m) (auto simp: maxSynRetries_def)
  from this [of 0] have "DialTimeout nowc connID attempts = Some c" using assms(2,3) got by (simp add: DialTimeout_def)
  then show ?thesis
    using l' by (intro exI [of _ c]) (simp add: c_def srv_def setFirstExpected_def newConn_def updateRemoteWnd_def)
qed

text \<open>
  A packet of a dialled connection carries the connection ID plus one. If another connection was
  opened with just that ID, the packet is handed to the other connection.
\<close>

lemma consecutive_ids_misroute:
  assumes "map_of (l_conns l) (connID + 1) = Some other" "map_of (l_conns l) connID = Some own" "other \<noteq> own"
  shows "routeTo l (connID + 1) = Some other"
  using assms by (simp add: routeTo_def)

section \<open>Properties\<close>


text \<open>A round of \<open>Write\<close> that nobody interrupts and whose packet the socket takes.\<close>

lemma write_round:
  assumes pc: "y_pc s = WIdle" and todo: "y_todo s = b @ later" "b \<noteq> []"
    and n: "n = effectiveCanSend (CanSend (c_ledbat (y_snd s))) (FlightSize (c_ledbat (y_snd s))) (c_remoteWnd (y_snd s))" "0 < n"
    and k: "k = nat (chunkSize n (length b))" and num: "numberPacket ts (take k b) (y_snd s) = (c, seq, raw)"
  shows "rtranclp (utp_step fma) s
    (s\<lparr>y_snd := countSent k (bufferPacket now seq raw c), y_pc := WIdle, y_net := y_net s @ [raw], y_todo := drop k b @ later,
      y_sent := y_sent s \<union> positions (y_net s @ [raw]) [raw]\<rparr>)" (is "rtranclp _ _ ?t")
proof -
  let ?l = "c_ledbat (y_snd s)"
  define s1 where "s1 = s\<lparr>y_pc := WCwnd (CanSend ?l)\<rparr>"
  define s2 where "s2 = s\<lparr>y_pc := WFlight (CanSend ?l) (FlightSize ?l)\<rparr>"
  define s3 where "s3 = s\<lparr>y_pc := WChunk n\<rparr>"
  define s4 where "s4 = s\<lparr>y_snd := c, y_pc := WNumbered seq raw k, y_net := y_net s @ [raw], y_todo := drop k b @ later\<rparr>"
  define s5 where "s5 = s4\<lparr>y_snd := bufferPacket now seq raw c, y_pc := WBuffered seq raw k\<rparr>"
  define s6 where "s6 = s5\<lparr>y_pc := WSent k, y_sent := y_sent s \<union> positions (y_net s @ [raw]) [raw]\<rparr>"
  have st1: "utp_step fma s s1" using utp_step.read_cwnd [of s fma] pc todo by (simp add: s1_def)
  have st2: "utp_step fma s1 s2" using utp_step.read_flight [of s1 _ fma] by (simp add: s1_def s2_def)
  have st3: "utp_step fma s2 s3" using utp_step.read_wnd [of s2 _ _ n fma] n by (simp add: s2_def s3_def)
  have st4: "utp_step fma s3 s4" using utp_step.number [of s3 n b later k ts c seq raw fma] todo k num by (simp add: s3_def s4_def)
  have st5: "utp_step fma s4 s5" using utp_step.buffer [of s4 seq raw k fma now] by (simp add: s4_def s5_def)
  have st6: "utp_step fma s5 s6" using utp_step.socket [of s5 seq raw k fma] by (simp add: s4_def s5_def s6_def)
  have "?t = s6\<lparr>y_snd := countSent k (y_snd s6), y_pc := WIdle\<rparr>" by (cases s) (simp add: s4_def s5_def s6_def)
  moreover have "y_pc s6 = WSent k" by (simp add: s6_def)
  ultimately have st7: "utp_step fma s6 ?t" using utp_step.counted [of s6 k fma] by simp
  note into = converse_rtranclp_into_rtranclp [of "utp_step fma"]
  show ?thesis
    by (rule into [OF st1], rule into [OF st2], rule into [OF st3], rule into [OF st4], rule into [OF st5], rule into [OF st6],
        rule r_into_rtranclp, rule st7)
qed

definition demo_session :: "bytes \<Rightarrow> utp_session" where
  "demo_session data =
     \<lparr>y_snd = newConn 0 7 65535 0, y_rcv = setFirstExpected 0 (newConn 0 7 1 65535), y_pc = WIdle, y_todo = data, y_net = [],
      y_sent = {}, y_read = [], y_taken = 0\<rparr>"


lemma demo_room:
  "effectiveCanSend (CanSend (c_ledbat (newConn 0 i q a))) (FlightSize (c_ledbat (newConn 0 i q a))) (c_remoteWnd (newConn 0 i q a)) = 2800"
  by (simp add: effectiveCanSend_def newConn_def NewLEDBAT_def CanSend_def FlightSize_def mss_def)


text \<open>
  The count of bytes in flight is not the number of bytes sent and not yet acknowledged: a
  retransmission sets it to zero. So \<open>Write\<close> can have more unacknowledged bytes outstanding than the congestion
  window allows.
\<close>

lemma flight_undercounted:
  "\<exists>t. rtranclp (utp_step False) (demo_session (replicate 2800 0)) t \<and> Cwnd (c_ledbat (y_snd t)) = 1400 \<and>
     length (c_sendBuf (y_snd t)) = 2 \<and> y_todo t = [] \<and> y_pc t = WIdle"
proof -
  let ?s = "demo_session (replicate 2800 0)" and ?b = "replicate 1400 (0::byte)"
  have split: "replicate 2800 0 = ?b @ ?b" by (simp flip: replicate_add)
  obtain c seq raw where n: "numberPacket 0 ?b (y_snd ?s) = (c, seq, raw)" by (metis prod_cases3)
  have c: "c = (y_snd ?s)\<lparr>c_seqNr := 0\<rparr>" "seq = 0" using numberPacket_packet(2,3) [OF n] by (simp_all add: demo_session_def newConn_def)
  let ?sp = "\<lparr>sp_raw = raw, sp_seqNr = 0, sp_sentAt = 0, sp_retries = 0\<rparr>"
  define c1 where "c1 = countSent 1400 (bufferPacket 0 seq raw c)"
  define t1 where "t1 = ?s\<lparr>y_snd := c1, y_pc := WIdle, y_net := [raw], y_todo := ?b, y_sent := positions [raw] [raw]\<rparr>"
  have t1: "rtranclp (utp_step False) ?s t1"
    using write_round [of ?s "?b @ ?b" "[]" 2800 1400 0 c seq raw False 0] n demo_room split
    by (simp add: t1_def c1_def demo_session_def chunkSize_def mss_def)
  define c2 where "c2 = c1\<lparr>c_sendBuf := [(0, ?sp\<lparr>sp_sentAt := rto, sp_retries := 1\<rparr>)], c_ledbat := OnTimeout (c_ledbat c1)\<rparr>"
  have r: "retransmitOne rto (y_snd t1, []) 0 = (c2, [raw])"
    by (simp add: retransmitOne_def t1_def c1_def c2_def countSent_def bufferPacket_def c demo_session_def newConn_def maxRetransmits_def)
  define t2 where "t2 = t1\<lparr>y_snd := c2, y_sent := y_sent t1 \<union> positions (y_net t1) [raw]\<rparr>"
  have t2: "utp_step False t1 t2" unfolding t2_def by (rule utp_step.retransmit [OF r])
  have room: "effectiveCanSend (CanSend (c_ledbat c2)) (FlightSize (c_ledbat c2)) (c_remoteWnd c2) = 1400"
    by (simp add: c2_def c1_def c countSent_def bufferPacket_def OnTimeout_def OnSend_def demo_session_def newConn_def effectiveCanSend_def
        CanSend_def FlightSize_def mss_def)
  obtain c3 seq3 raw3 where n3: "numberPacket 0 ?b c2 = (c3, seq3, raw3)" by (metis prod_cases3)
  have c3: "c3 = c2\<lparr>c_seqNr := 1\<rparr>" "seq3 = 1"
    using numberPacket_packet(2,3) [OF n3] by (simp_all add: c2_def c1_def c countSent_def bufferPacket_def)
  let ?c4 = "countSent 1400 (bufferPacket 0 seq3 raw3 c3)"
  define t3 where "t3 = t2\<lparr>y_snd := ?c4, y_pc := WIdle, y_net := y_net t2 @ [raw3], y_todo := [], y_sent := y_sent t2 \<union> positions (y_net t2 @ [raw3]) [raw3]\<rparr>"
  have "rtranclp (utp_step False) t2 t3"
    using write_round [of t2 ?b "[]" 1400 1400 0 c3 seq3 raw3 False 0] n3 room
    by (simp add: t3_def t2_def t1_def demo_session_def chunkSize_def mss_def)
  with t1 t2 have "rtranclp (utp_step False) ?s t3" by (metis rtranclp.rtrancl_into_rtrancl rtranclp_trans)
  moreover have "Cwnd (c_ledbat (y_snd t3)) = 1400 \<and> length (c_sendBuf (y_snd t3)) = 2 \<and> y_todo t3 = [] \<and> y_pc t3 = WIdle"
    by (simp add: t3_def t2_def t1_def c3 c2_def countSent_def bufferPacket_def OnTimeout_def OnSend_def Cwnd_def mss_def demo_session_def)
  ultimately show ?thesis by blast
qed



end
