(* ===== verification/Spec2Isabelle.thy ===== *)
theory Spec2Isabelle
  imports Piece_Queue Peer_Extension Peer_Pex Engine_Files Engine_Guards Dht_Lookup Utp_Session
begin

text \<open>
  A verification library for \<^verbatim>\<open>stor\<close>, a BitTorrent client and daemon written in Go
  (\<^verbatim>\<open>src/\<close>).

  \<^bold>\<open>The program.\<close> The daemon (\<^verbatim>\<open>src/daemon\<close>) runs an engine (\<^verbatim>\<open>src/engine\<close>) with one session per torrent.
  A session gets its torrent from a file (\<^verbatim>\<open>src/torrent\<close>, decoded by \<^verbatim>\<open>src/bencode\<close>) or from a magnet link,
  finds peers through trackers, the DHT (\<^verbatim>\<open>src/dht\<close>) and peer exchange, and downloads pieces from them
  (\<^verbatim>\<open>src/download\<close>) over TCP or uTP (\<^verbatim>\<open>src/utp\<close>) with the peer wire protocol and its extensions
  (\<^verbatim>\<open>src/peer\<close>). Workers, one per peer, take pieces from a shared queue; finished pieces are written to the
  files of the torrent (\<^verbatim>\<open>src/storage\<close>), and the session derives from them which files are complete.

  \<^bold>\<open>Foundations.\<close> A byte is \<open>8 word\<close>, a Go string or byte slice a list of bytes, an \<open>int\<close> or
  \<open>int64\<close> an \<open>int\<close> with \<open>wrap64\<close> where it may overflow, a narrower unsigned integer a word of its width, a Go
  map an association list whose iteration order is an arbitrary parameter \<open>\<omega>\<close>, an error a value of a sum.
    \<^item> \<open>Go_Prelude\<close>, \<open>Go_Map\<close>, \<open>Go_Strconv\<close>: integers, big-endian numbers, maps, decimal text.
    \<^item> \<open>Go_Io\<close>: reading from a stream; the locales \<open>codec\<close> and \<open>canonical_codec\<close> with what reading one item
      says about reading a sequence of them.
    \<^item> \<open>Go_Path\<close>, \<open>Go_Net\<close>, \<open>Go_Addr\<close>, \<open>Go_Sha\<close>, \<open>Go_Float\<close>: \<open>filepath.Clean\<close> and \<open>Join\<close>, IP addresses
      and their text, SHA-1 and SHA-256, \<open>float64\<close> arithmetic as rounding to nearest with ties to even
      (over the normal range: underflow and overflow do not occur in what is modelled; the locale
      \<open>rounding\<close> holds what proofs use of it).
    \<^item> \<open>Step_Systems\<close>: the locales \<open>step_invariant\<close> and \<open>step_decreasing\<close> for runs of step relations.

  \<^bold>\<open>Components.\<close>
    \<^item> \<open>Bencode\<close> (\<^verbatim>\<open>bencode/decode.go\<close>, \<^verbatim>\<open>encode.go\<close>): decoder with its limits, encoder. Round trip, exactly
      what the decoder accepts within which limits, and that it reads no further than the value. The
      decoder ends on every input, without fuel.
    \<^item> \<open>Peer_Wire\<close> (\<^verbatim>\<open>peer/message.go\<close>, \<^verbatim>\<open>handshake.go\<close>): framing, payloads, bitfields, handshake. They are
      codecs in the sense of \<open>Go_Io\<close>; a bitfield is a set (\<open>bitset\<close>).
    \<^item> \<open>Peer_Extension\<close>, \<open>Peer_Pex\<close> (\<^verbatim>\<open>peer/extension.go\<close>, \<^verbatim>\<open>extconn.go\<close>, \<^verbatim>\<open>pex.go\<close>): extension handshake,
      negotiated identifiers and peer exchange: round trips and agreement of both ends.
    \<^item> \<open>Torrent_File\<close> (\<^verbatim>\<open>torrent/torrent.go\<close>, and \<open>mustReencode\<close> of \<^verbatim>\<open>engine/session.go\<close>): \<open>Parse\<close> with every
      error, what it guarantees, and what of a torrent survives storing and resuming.
    \<^item> \<open>Storage\<close>, \<open>Storage_Stream\<close>, \<open>Storage_Access\<close> (\<^verbatim>\<open>storage/\<close>): the operations; the files of a torrent as one
      stream; the locales \<open>random_access\<close> and \<open>piece_source\<close>, met by the multi-file writer and by a single
      file. Pieces written in any order assemble the torrent, verification finds exactly the good
      pieces, and files lie below the base directory.
    \<^item> \<open>Engine_Files\<close> (\<^verbatim>\<open>engine/skip_mask.go\<close>, \<^verbatim>\<open>file_progress.go\<close>, parts of \<^verbatim>\<open>session.go\<close>): skipped pieces,
      progress and completion of files, specified over the bytes of the torrent.
    \<^item> \<open>Engine_Guards\<close> (\<^verbatim>\<open>engine/sanitize.go\<close>, \<^verbatim>\<open>stall_detector.go\<close>): the check of torrent names, and the stall
      detector over any sequence of ticks. Ticks lie within 97 days of each other: up to there the
      \<open>float64\<close> seconds of a duration, truncated, are its whole seconds.
    \<^item> \<open>Piece_Queue\<close> (\<^verbatim>\<open>download/piecequeue.go\<close>, worker loop of \<open>runWorkers\<close> in \<^verbatim>\<open>download.go\<close>): all operations,
      and the step relation \<open>pq_step\<close> with a rule per critical section of a worker and one for the \<open>Have\<close>
      messages that change a registered bitfield. What \<open>Pick\<close> chooses; which pieces are remaining, held,
      completed; what availability counts; that the queue can be emptied.
    \<^item> \<open>Dht_Table\<close>, \<open>Dht_Node\<close>, \<open>Dht_Lookup\<close> (\<^verbatim>\<open>dht/\<close>): identifiers and routing table; KRPC messages, query
      handlers and tokens; iterative lookup with interleaved goroutines, bootstrap and saved nodes. The
      table's invariant, the closest nodes, replies, expiry of tokens, termination of lookups.
    \<^item> \<open>Utp_Packet\<close>, \<open>Utp_Conn\<close>, \<open>Utp_Session\<close> (\<^verbatim>\<open>utp/\<close>): packets, LEDBAT, connections and listener; runs of a
      connection over an unreliable network. \<open>utp_step\<close> has a rule per critical section of \<open>Write\<close>, of the
      handling of an acknowledgement and of a retransmission. Whether the compiler fuses the
      multiplication and addition of \<open>OnAck\<close> is the parameter \<open>fma\<close>.

  \<^bold>\<open>Assumptions on runs.\<close> In \<open>utp_step\<close> a connection has one writer, which stops when the socket has refused a
  packet and does not write while \<open>Close\<close> runs; packets arrive within half the sequence number space of
  the one expected; other traffic of the two connections (the opposite direction, anything else the
  listener routes to them) changes only what it is shown not to share with the stream. Establishing a
  connection and the routing of the listener are definitions of \<open>Utp_Conn\<close> with lemmas of their own, not
  steps. Times and random choices are arguments everywhere, so the theorems hold for all of them.

  \<^bold>\<open>Defects shown.\<close> Some lemmas exhibit runs in which the code does not do what it means to:
  \<open>endgame_double_completion\<close> (two results for one piece), the witness of C12 (negative availability),
  \<open>relative_base_escape\<close> (a base of \<open>..\<close> defeats the path check; C36 shows that sessions never have
  one), \<open>flight_undercounted\<close> and \<open>consecutive_ids_misroute\<close> (uTP), \<open>VerifyPieces_panics\<close>,
  \<open>resume_drops_private\<close> and \<open>announced_id_truncated\<close>.

  \<^bold>\<open>Not modelled.\<close> The network exchange of a worker with its peer, uploads, the peer manager, rate limits
  and progress (\<^verbatim>\<open>src/download\<close> apart from the above); trackers, magnet links, events, the engine's queue
  and store, encryption of streams, port mapping, web seeds, the daemon's HTTP interface, the command
  line and the web interface. They are mostly input and output, timers and goroutine plumbing around
  the parts above.
\<close>

section \<open>Properties that span components\<close>

text \<open>
  C36: Nothing a torrent says about names leads out of the download directory. If the torrent's name
  passes \<open>sanitizeTorrentName\<close>, the path the session saves to is the download directory followed by
  ordinary names; and if the multi-file writer for that path is created, so is the path of every
  file. This holds whatever the download directory is, relative ones with \<open>..\<close> included.
\<close>

theorem downloads_stay_inside:
  assumes "sanitizeTorrentName name = None" "NewMultiFileWriter d (Join [dir, name]) tf = Inr mw" "fe \<in> set (mw_files mw)"
  shows "\<exists>R R'. R \<noteq> [] \<and> R' \<noteq> [] \<and> list_all plain (R @ R') \<and>
    comps (Join [dir, name]) = comps dir @ R \<and> comps (fe_path fe) = comps dir @ R @ R' \<and>
    is_rooted (Join [dir, name]) = is_rooted dir \<and> is_rooted (fe_path fe) = is_rooted dir"
proof -
  let ?base = "Join [dir, name]"
  obtain R where R: "R \<noteq> []" "list_all plain R" "comps ?base = comps dir @ R" "is_rooted ?base = is_rooted dir"
    using savePath_comps [OF assms(1)] by blast
  have base: "is_rooted ?base \<or> last (comps ?base) \<noteq> dotdot"
    using R(1-3) by (metis last_append last_in_set list_all_iff plain_def)
  obtain es tot where "buildEntries d ?base (Clean ?base @ [slash]) 0 (Files (tf_Info tf)) = Inr (es, tot)" "es = mw_files mw"
    using assms(2) by (auto simp: NewMultiFileWriter_def split: if_splits sum.splits)
  from buildEntries_paths [OF this(1), unfolded this(2)] assms(3)
  obtain q where q: "fe_path fe = Clean q" "HasPrefix (Clean q) (Clean ?base @ [slash])" by metis
  obtain R' where R': "is_rooted q = is_rooted ?base" "comps ?base \<noteq> []" "R' \<noteq> []" "comps q = comps ?base @ R'"
    using inside_base [OF q(2)] by blast
  have "list_all plain R'" by (rule inside_base_plain [OF R'(4) base R'(1,2)])
  then show ?thesis using R R' q(1) by (simp add: comps_Clean) blast
qed

theorem downloads_stay_inside_witness:
  "\<exists>R R'. R \<noteq> [] \<and> R' \<noteq> [] \<and> list_all plain (R @ R') \<and>
    comps (Join [gostr ''/'', gostr ''d'']) = comps (gostr ''/'') @ R \<and>
    comps (gostr ''/d/b/c'') = comps (gostr ''/'') @ R @ R'"
proof -
  have "Join [gostr ''/'', gostr ''d''] = gostr ''/d''" by (simp add: writer_eval)
  then have "NewMultiFileWriter demo_disk (Join [gostr ''/'', gostr ''d'']) demo_multi = Inr demo_writer"
    using demo_new by simp
  moreover have "sanitizeTorrentName (gostr ''d'') = None"
    by (simp add: sanitizeTorrentName_def is_rooted_def slash_def dot_def dotdot_def normalizeSep_def backslash_def gostr_def)
  moreover have "\<lparr>fe_path = gostr ''/d/b/c'', fe_offset = 3, fe_length = 2\<rparr> \<in> set (mw_files demo_writer)"
    by (simp add: demo_defs)
  ultimately show ?thesis using downloads_stay_inside by (metis fileEntry.select_convs(1))
qed

end
